(* ===== verification/Snowy_Prelude.thy ===== *)
theory Snowy_Prelude
  imports Main "HOL-Library.Multiset" "HOL-Library.Word"
begin

text \<open>
  Shared vocabulary of the development: the names of the model's types, the error values
  the program throws, and the generic facts on optional pointers, pointer chains and lists
  that the components use.

  Objects of the program (coroutine-owned operations) live at addresses; a class field is a
  function from addresses to values, so base and derived subobjects share one address, as
  the source's \<^verbatim>\<open>static_cast\<close> between them assumes.  A pointer that may be null is an
  \<^typ>\<open>nat option\<close>.
\<close>

type_synonym addr = nat
type_synonym ptr = "addr option"
type_synonym field_ptr = "addr \<Rightarrow> ptr"
type_synonym loop_id = nat
type_synonym thread_id = nat
type_synonym handle_id = nat
type_synonym token_id = nat

text \<open>The error codes of \<^verbatim>\<open>std::errc\<close> the program creates; \<open>Errno n\<close> is a raw system code.\<close>

datatype errc =
    Operation_Canceled | Broken_Pipe | Message_Size | Operation_Not_Supported
  | Timed_Out | Io_Error | Errno nat

text \<open>The exceptions the program throws; \<open>User n\<close> stands for one thrown by user code.\<close>

datatype exn =
    System_Error errc | Logic_Error string | Invalid_Argument string
  | Runtime_Error string | Out_Of_Range string | Bad_Alloc | User nat

text \<open>
  The result of a C++ call: a thrown exception or a value, together with the state the call
  leaves behind (an exception does not roll state back).
\<close>

type_synonym ('a, 'w) result = "(exn + 'a) \<times> 'w"

named_theorems ptr_simps \<open>facts on pointer chains used by the list components\<close>

subsection \<open>Optional list ends\<close>

definition hd_opt :: "'a list \<Rightarrow> 'a option" where
  "hd_opt xs = (case xs of [] \<Rightarrow> None | x # _ \<Rightarrow> Some x)"

definition last_opt :: "'a list \<Rightarrow> 'a option" where
  "last_opt xs = (if xs = [] then None else Some (last xs))"

lemma hd_opt_simps [simp]: "hd_opt [] = None" "hd_opt (x # xs) = Some x"
  by (simp_all add: hd_opt_def)

lemma last_opt_simps [simp]: "last_opt [] = None" "last_opt [x] = Some x" "last_opt (xs @ [x]) = Some x"
  by (simp_all add: last_opt_def)

lemma last_opt_Cons: "last_opt (x # xs) = (case last_opt xs of None \<Rightarrow> Some x | Some y \<Rightarrow> Some y)"
  by (simp add: last_opt_def)

lemma last_opt_None_iff [simp]: "last_opt xs = None \<longleftrightarrow> xs = []"
  by (simp add: last_opt_def)

lemma hd_opt_None_iff [simp]: "hd_opt xs = None \<longleftrightarrow> xs = []"
  by (cases xs) simp_all

lemma last_opt_SomeD: "last_opt xs = Some y \<Longrightarrow> \<exists>ys. xs = ys @ [y]"
  by (metis append_butlast_last_id last_opt_def option.distinct(1) option.inject)

lemma hd_opt_append: "hd_opt (xs @ ys) = (if xs = [] then hd_opt ys else hd_opt xs)"
  by (cases xs) simp_all

subsection \<open>Pointer chains\<close>

text \<open>\<open>seg nx p xs q\<close>: following \<open>nx\<close> from \<open>p\<close> visits exactly \<open>xs\<close> and then reaches \<open>q\<close>.\<close>

primrec seg :: "('n \<Rightarrow> 'n option) \<Rightarrow> 'n option \<Rightarrow> 'n list \<Rightarrow> 'n option \<Rightarrow> bool" where
  "seg nx p [] q \<longleftrightarrow> p = q"
| "seg nx p (x # xs) q \<longleftrightarrow> p = Some x \<and> seg nx (nx x) xs q"

abbreviation chain :: "('n \<Rightarrow> 'n option) \<Rightarrow> 'n option \<Rightarrow> 'n list \<Rightarrow> bool" where
  "chain nx p xs \<equiv> seg nx p xs None"

lemma seg_append [ptr_simps]: "seg nx p (xs @ ys) q \<longleftrightarrow> (\<exists>r. seg nx p xs r \<and> seg nx r ys q)"
  by (induction xs arbitrary: p) auto

lemma seg_upd [simp]: "a \<notin> set xs \<Longrightarrow> seg (nx(a := b)) p xs q = seg nx p xs q"
  by (induction xs arbitrary: p) auto

lemma seg_cong: "(\<And>x. x \<in> set xs \<Longrightarrow> nx x = nx' x) \<Longrightarrow> seg nx p xs q = seg nx' p xs q"
  by (induction xs arbitrary: p) auto

lemma chain_None [simp]: "chain nx None xs \<longleftrightarrow> xs = []"
  by (cases xs) auto

lemma chain_Some: "chain nx (Some a) xs \<longleftrightarrow> (\<exists>ys. xs = a # ys \<and> chain nx (nx a) ys)"
  by (cases xs) auto

lemma chain_unique: "chain nx p xs \<Longrightarrow> chain nx p ys \<Longrightarrow> xs = ys"
  by (induction xs arbitrary: p ys) (auto simp: chain_Some)

lemma chain_start: "chain nx p xs \<Longrightarrow> p = hd_opt xs"
  by (cases xs) auto

lemma chain_hd_notin: "chain nx (nx a) xs \<Longrightarrow> a \<notin> set xs"
proof
  assume c: "chain nx (nx a) xs" and "a \<in> set xs"
  then obtain ys zs where xs: "xs = ys @ a # zs"
    by (meson split_list)
  with c have "chain nx (nx a) zs"
    by (auto simp: seg_append)
  with c have "xs = zs" by (rule chain_unique)
  with xs show False by simp
qed

lemma chain_distinct: "chain nx p xs \<Longrightarrow> distinct xs"
  by (induction xs arbitrary: p) (auto dest: chain_hd_notin)

lemma chain_next:
  assumes "chain nx p (xs @ a # ys)" shows "nx a = hd_opt ys"
  using assms by (auto simp: seg_append dest: chain_start)

lemma chain_last: "chain nx p xs \<Longrightarrow> xs \<noteq> [] \<Longrightarrow> nx (last xs) = None"
  by (induction xs arbitrary: p) auto

subsection \<open>Lists without duplicates\<close>

lemma remove1_split: "a \<notin> set ys \<Longrightarrow> remove1 a (ys @ a # zs) = ys @ zs"
  by (simp add: remove1_append)

lemma filter_neq_remove1: "distinct xs \<Longrightarrow> remove1 a xs = filter (\<lambda>x. x \<noteq> a) xs"
  by (simp add: distinct_remove1_removeAll removeAll_filter_not_eq) (metis (mono_tags))

end
