(* ===== verification/Ready_Queue.thy ===== *)
theory Ready_Queue
  imports Snowy_Prelude
begin

text \<open>
  The allocation-free FIFO of \<^verbatim>\<open>detail/intrusive_queue.hpp\<close>: the link lives in the
  queued node (\<^verbatim>\<open>ready_operation::next_\<close>), the queue holds the two end pointers.  The
  queue is refined to a list, and its contract is stated as the locale \<open>fifo\<close>, which the
  event loop's scheduling lemmas are proved from.
\<close>

text \<open>\<^verbatim>\<open>class ready_queue\<close>: the fields \<^verbatim>\<open>head_\<close> and \<^verbatim>\<open>tail_\<close>.\<close>

record ready_queue =
  rq_head :: ptr
  rq_tail :: ptr

definition rq_init :: ready_queue where
  "rq_init = \<lparr>rq_head = None, rq_tail = None\<rparr>"

definition rq_empty :: "ready_queue \<Rightarrow> bool" where
  "rq_empty q \<longleftrightarrow> rq_head q = None"

text \<open>The assertion of \<^verbatim>\<open>push\<close>; the component proofs show it at every call.\<close>

definition rq_push_assert :: "field_ptr \<Rightarrow> addr \<Rightarrow> bool" where
  "rq_push_assert nx n \<longleftrightarrow> nx n = None"

text \<open>\<^verbatim>\<open>push\<close> on the links \<open>nx\<close> and the queue \<open>q\<close>; returns both updated.\<close>

definition rq_push :: "addr \<Rightarrow> field_ptr \<times> ready_queue \<Rightarrow> field_ptr \<times> ready_queue" where
  "rq_push n s = (case s of (nx, q) \<Rightarrow>
     (case rq_tail q of
        None \<Rightarrow> (nx, q\<lparr>rq_head := Some n, rq_tail := Some n\<rparr>)
      | Some t \<Rightarrow> (nx(t := Some n), q\<lparr>rq_tail := Some n\<rparr>)))"

text \<open>\<^verbatim>\<open>pop\<close>: the head node with its link cleared, or null.\<close>

definition rq_pop :: "field_ptr \<times> ready_queue \<Rightarrow> ptr \<times> field_ptr \<times> ready_queue" where
  "rq_pop s = (case s of (nx, q) \<Rightarrow>
     (case rq_head q of
        None \<Rightarrow> (None, nx, q)
      | Some n \<Rightarrow>
          (let h = nx n;
               nx' = nx(n := None);
               q' = q\<lparr>rq_head := h\<rparr>
           in (Some n, nx', if h = None then q'\<lparr>rq_tail := None\<rparr> else q'))))"

subsection \<open>Refinement to lists\<close>

text \<open>The queue holds the nodes \<open>xs\<close>, oldest first.\<close>

definition rq_rep :: "field_ptr \<times> ready_queue \<Rightarrow> addr list \<Rightarrow> bool" where
  "rq_rep s xs \<longleftrightarrow> (case s of (nx, q) \<Rightarrow> chain nx (rq_head q) xs \<and> rq_tail q = last_opt xs)"

lemma rq_rep_distinct: "rq_rep s xs \<Longrightarrow> distinct xs"
  by (auto simp: rq_rep_def split: prod.splits dest: chain_distinct)

lemma rq_rep_unique: "rq_rep s xs \<Longrightarrow> rq_rep s ys \<Longrightarrow> xs = ys"
  by (auto simp: rq_rep_def split: prod.splits dest: chain_unique)

lemma rq_rep_init: "rq_rep (nx, rq_init) []"
  by (simp add: rq_rep_def rq_init_def)

lemma rq_rep_empty_iff: "rq_rep (nx, q) xs \<Longrightarrow> rq_empty q \<longleftrightarrow> xs = []"
  by (auto simp: rq_rep_def rq_empty_def dest: chain_start)

lemma rq_rep_push:
  assumes "rq_rep (nx, q) xs" and "n \<notin> set xs" and "rq_push_assert nx n"
  shows "rq_rep (rq_push n (nx, q)) (xs @ [n])"
proof (cases xs rule: rev_cases)
  case Nil
  with assms show ?thesis
    by (auto simp: rq_rep_def rq_push_def rq_push_assert_def)
next
  case (snoc ys t)
  with assms have d: "t \<notin> set ys" "t \<noteq> n" by (auto dest: rq_rep_distinct)
  with assms snoc show ?thesis
    by (auto simp: rq_rep_def rq_push_def rq_push_assert_def seg_append last_opt_def)
qed

lemma rq_rep_pop_Cons:
  assumes "rq_rep (nx, q) (x # xs)"
  obtains q' where "rq_pop (nx, q) = (Some x, nx(x := None), q')"
    and "rq_rep (nx(x := None), q') xs"
proof -
  from assms have h: "rq_head q = Some x" and c: "chain nx (nx x) xs"
    and t: "rq_tail q = last_opt (x # xs)"
    by (auto simp: rq_rep_def)
  let ?q = "if nx x = None then q\<lparr>rq_head := nx x, rq_tail := None\<rparr> else q\<lparr>rq_head := nx x\<rparr>"
  have "rq_pop (nx, q) = (Some x, nx(x := None), ?q)"
    using h by (simp add: rq_pop_def Let_def)
  moreover have "rq_rep (nx(x := None), ?q) xs"
    using c t chain_hd_notin [OF c] by (cases xs) (auto simp: rq_rep_def last_opt_def)
  ultimately show thesis by (rule that)
qed

lemma rq_pop_Nil: "rq_rep (nx, q) [] \<Longrightarrow> rq_pop (nx, q) = (None, nx, q)"
  by (simp add: rq_rep_def rq_pop_def)

text \<open>Links outside the queue are not touched, so other queues over the same links keep theirs.\<close>

lemma rq_push_frame:
  assumes "rq_rep (nx, q) xs" and "rq_push n (nx, q) = (nx', q')" and "a \<notin> set xs"
  shows "nx' a = nx a"
  using assms by (cases xs rule: rev_cases) (auto simp: rq_rep_def rq_push_def)

lemma rq_pop_frame:
  assumes "rq_rep (nx, q) xs" and "rq_pop (nx, q) = (r, nx', q')" and "a \<notin> set xs"
  shows "nx' a = nx a"
  using assms by (cases xs) (auto simp: rq_rep_def rq_pop_def Let_def)

subsection \<open>The FIFO contract\<close>

text \<open>
  What a client of the queue relies on: the queue stands for a list, insertion appends,
  removal takes the first element or reports emptiness.
\<close>

locale fifo =
  fixes rep :: "'s \<Rightarrow> 'a list \<Rightarrow> bool"
    and fresh :: "'a \<Rightarrow> 's \<Rightarrow> bool"
    and put :: "'a \<Rightarrow> 's \<Rightarrow> 's"
    and get :: "'s \<Rightarrow> 'a option \<times> 's"
  assumes rep_put: "rep s xs \<Longrightarrow> fresh x s \<Longrightarrow> x \<notin> set xs \<Longrightarrow> rep (put x s) (xs @ [x])"
    and rep_get_Cons: "rep s (x # xs) \<Longrightarrow> \<exists>s'. get s = (Some x, s') \<and> rep s' xs"
    and rep_get_Nil: "rep s [] \<Longrightarrow> get s = (None, s)"
    and fresh_put: "rep s xs \<Longrightarrow> fresh y s \<Longrightarrow> y \<noteq> x \<Longrightarrow> y \<notin> set xs \<Longrightarrow> fresh y (put x s)"
begin

text \<open>Taking up to \<open>n\<close> elements, as the bounded loops of the scheduler do.\<close>

primrec get_upto :: "nat \<Rightarrow> 's \<Rightarrow> 'a list \<times> 's" where
  "get_upto 0 s = ([], s)"
| "get_upto (Suc n) s =
     (case get s of (None, s') \<Rightarrow> ([], s')
      | (Some x, s') \<Rightarrow> (case get_upto n s' of (xs, s'') \<Rightarrow> (x # xs, s'')))"

lemma get_upto_rep:
  assumes "rep s xs"
  shows "\<exists>s'. get_upto n s = (take n xs, s') \<and> rep s' (drop n xs)"
  using assms
proof (induction n arbitrary: s xs)
  case 0
  then show ?case by simp
next
  case (Suc n)
  show ?case
  proof (cases xs)
    case Nil
    with Suc.prems show ?thesis using rep_get_Nil by auto
  next
    case (Cons y ys)
    with Suc.prems rep_get_Cons obtain s1 where s1: "get s = (Some y, s1)" "rep s1 ys" by blast
    with Suc.IH obtain s2 where "get_upto n s1 = (take n ys, s2)" "rep s2 (drop n ys)" by blast
    with s1 Cons show ?thesis by simp
  qed
qed

lemma fold_put_rep:
  "rep s xs \<Longrightarrow> distinct ys \<Longrightarrow> set ys \<inter> set xs = {} \<Longrightarrow> (\<And>y. y \<in> set ys \<Longrightarrow> fresh y s)
   \<Longrightarrow> rep (fold put ys s) (xs @ ys)"
proof (induction ys arbitrary: s xs)
  case Nil
  then show ?case by simp
next
  case (Cons y ys)
  have "rep (put y s) (xs @ [y])" using Cons.prems rep_put by auto
  moreover have "fresh z (put y s)" if "z \<in> set ys" for z
    using Cons.prems that by (intro fresh_put [of s xs]) auto
  ultimately have "rep (fold put ys (put y s)) ((xs @ [y]) @ ys)"
    using Cons.prems by (intro Cons.IH) auto
  then show ?case by simp
qed

text \<open>Whatever is inserted in one order comes out in that order.\<close>

lemma drain_order:
  assumes "rep s []" and "distinct ys" and "\<And>y. y \<in> set ys \<Longrightarrow> fresh y s" and "length ys \<le> n"
  shows "fst (get_upto n (fold put ys s)) = ys"
proof -
  from fold_put_rep [OF assms(1,2) _ assms(3)] have "rep (fold put ys s) ys" by simp
  from get_upto_rep [OF this, of n] assms(4) show ?thesis by auto
qed

end

interpretation rq: fifo rq_rep "\<lambda>n s. rq_push_assert (fst s) n" rq_push rq_pop
proof
  fix s :: "field_ptr \<times> ready_queue" and xs x
  assume "rq_rep s xs" "rq_push_assert (fst s) x" "x \<notin> set xs"
  then show "rq_rep (rq_push x s) (xs @ [x])" by (cases s) (auto intro: rq_rep_push)
next
  fix s :: "field_ptr \<times> ready_queue" and x xs
  assume "rq_rep s (x # xs)"
  then show "\<exists>s'. rq_pop s = (Some x, s') \<and> rq_rep s' xs"
    by (cases s) (auto elim: rq_rep_pop_Cons)
next
  fix s :: "field_ptr \<times> ready_queue"
  assume "rq_rep s []"
  then show "rq_pop s = (None, s)" by (cases s) (simp add: rq_pop_Nil)
next
  fix s :: "field_ptr \<times> ready_queue" and xs y x
  assume r: "rq_rep s xs" "rq_push_assert (fst s) y" "y \<noteq> x" "y \<notin> set xs"
  obtain nx q where s: "s = (nx, q)" by (cases s)
  obtain nx' q' where p: "rq_push x (nx, q) = (nx', q')" by (cases "rq_push x (nx, q)")
  have "nx' y = nx y" using r s p by (auto intro: rq_push_frame)
  with r s p show "rq_push_assert (fst (rq_push x s)) y" by (simp add: rq_push_assert_def)
qed

end
