(* ===== verification/Intrusive_List.thy ===== *)
theory Intrusive_List
  imports Snowy_Prelude
begin

text \<open>
  The doubly linked intrusive lists of the program.  The source writes the same few
  pointer assignments at each use: insertion at the front with only a head pointer (the
  loop's \<^verbatim>\<open>waits_\<close> and \<^verbatim>\<open>io_\<close> lists, the waiters of an \<^verbatim>\<open>event\<close>), insertion at the back
  with head and tail pointers (the waiters of a \<^verbatim>\<open>channel\<close> and of a \<^verbatim>\<open>wait_queue\<close>), and the
  removal of a node from either.  Each is one definition over the link fields here, and the
  components call them on their own fields.  The two kinds of list satisfy one contract,
  the locale \<open>node_list\<close>.
\<close>

subsection \<open>Operations\<close>

type_synonym links = "field_ptr \<times> field_ptr"

text \<open>
  \<^verbatim>\<open>next = head; if (next) next->prev = this; head = this;\<close>
  The node's own \<^verbatim>\<open>prev\<close> is not written: it is null from construction.
\<close>

definition dl_push_front :: "addr \<Rightarrow> links \<times> ptr \<Rightarrow> links \<times> ptr" where
  "dl_push_front a s = (case s of ((nx, pv), first) \<Rightarrow>
     ((nx(a := first), (case first of None \<Rightarrow> pv | Some f \<Rightarrow> pv(f := Some a))), Some a))"

text \<open>
  \<^verbatim>\<open>if (prev) prev->next = next; else head = next; if (next) next->prev = prev;\<close>
\<close>

definition dl_unlink :: "addr \<Rightarrow> links \<times> ptr \<Rightarrow> links \<times> ptr" where
  "dl_unlink a s = (case s of ((nx, pv), first) \<Rightarrow>
     (case (case pv a of Some p \<Rightarrow> (nx(p := nx a), first) | None \<Rightarrow> (nx, nx a)) of
        (nx', first') \<Rightarrow>
          ((nx', (case nx' a of Some n \<Rightarrow> pv(n := pv a) | None \<Rightarrow> pv)), first')))"

text \<open>
  \<^verbatim>\<open>prev = last; if (prev) prev->next = this; else first = this; last = this;\<close>
  The node's own \<^verbatim>\<open>next\<close> is not written: it is null from construction.
\<close>

definition dl_push_back :: "addr \<Rightarrow> links \<times> ptr \<times> ptr \<Rightarrow> links \<times> ptr \<times> ptr" where
  "dl_push_back a s = (case s of ((nx, pv), first, lst) \<Rightarrow>
     (case lst of
        Some p \<Rightarrow> ((nx(p := Some a), pv(a := lst)), first, Some a)
      | None \<Rightarrow> ((nx, pv(a := lst)), Some a, Some a)))"

text \<open>
  \<^verbatim>\<open>if (prev) prev->next = next; else first = next;
  if (next) next->prev = prev; else last = prev;\<close>
\<close>

definition dl_unlink_ends :: "addr \<Rightarrow> links \<times> ptr \<times> ptr \<Rightarrow> links \<times> ptr \<times> ptr" where
  "dl_unlink_ends a s = (case s of ((nx, pv), first, lst) \<Rightarrow>
     (case (case pv a of Some p \<Rightarrow> (nx(p := nx a), first) | None \<Rightarrow> (nx, nx a)) of
        (nx', first') \<Rightarrow>
          (case nx' a of
             Some n \<Rightarrow> ((nx', pv(n := pv a)), first', lst)
           | None \<Rightarrow> ((nx', pv), first', pv a))))"

subsection \<open>Abstraction to lists\<close>

primrec prevs :: "('n \<Rightarrow> 'n option) \<Rightarrow> 'n option \<Rightarrow> 'n list \<Rightarrow> bool" where
  "prevs pv p [] \<longleftrightarrow> True"
| "prevs pv p (x # xs) \<longleftrightarrow> pv x = p \<and> prevs pv (Some x) xs"

definition dll :: "links \<times> ptr \<Rightarrow> addr list \<Rightarrow> bool" where
  "dll s xs \<longleftrightarrow> (case s of ((nx, pv), first) \<Rightarrow> chain nx first xs \<and> prevs pv None xs)"

definition dll_ends :: "links \<times> ptr \<times> ptr \<Rightarrow> addr list \<Rightarrow> bool" where
  "dll_ends s xs \<longleftrightarrow> (case s of ((nx, pv), first, lst) \<Rightarrow>
     chain nx first xs \<and> prevs pv None xs \<and> lst = last_opt xs)"

lemma prevs_append:
  "prevs pv p (xs @ ys) \<longleftrightarrow>
   prevs pv p xs \<and> prevs pv (case last_opt xs of None \<Rightarrow> p | Some l \<Rightarrow> Some l) ys"
  by (induction xs arbitrary: p) (auto simp: last_opt_Cons split: option.splits)

lemma prevs_upd [simp]: "a \<notin> set xs \<Longrightarrow> prevs (pv(a := b)) p xs = prevs pv p xs"
  by (induction xs arbitrary: p) auto

lemma prevs_cong: "(\<And>x. x \<in> set xs \<Longrightarrow> pv x = pv' x) \<Longrightarrow> prevs pv p xs = prevs pv' p xs"
  by (induction xs arbitrary: p) auto

lemma dll_distinct: "dll s xs \<Longrightarrow> distinct xs"
  by (auto simp: dll_def split: prod.splits dest: chain_distinct)

lemma dll_ends_distinct: "dll_ends s xs \<Longrightarrow> distinct xs"
  by (auto simp: dll_ends_def split: prod.splits dest: chain_distinct)

lemma dll_unique: "dll s xs \<Longrightarrow> dll s ys \<Longrightarrow> xs = ys"
  by (auto simp: dll_def split: prod.splits dest: chain_unique)

lemma dll_ends_unique: "dll_ends s xs \<Longrightarrow> dll_ends s ys \<Longrightarrow> xs = ys"
  by (auto simp: dll_ends_def split: prod.splits dest: chain_unique)

lemma dll_Nil_iff: "dll ((nx, pv), first) [] \<longleftrightarrow> first = None"
  by (simp add: dll_def)

lemma dll_first: "dll ((nx, pv), first) xs \<Longrightarrow> first = hd_opt xs"
  by (auto simp: dll_def dest: chain_start)

lemma dll_ends_first: "dll_ends ((nx, pv), first, lst) xs \<Longrightarrow> first = hd_opt xs"
  by (auto simp: dll_ends_def dest: chain_start)

lemma dll_push_front:
  assumes "dll ((nx, pv), first) xs" and "a \<notin> set xs" and "pv a = None"
  shows "dll (dl_push_front a ((nx, pv), first)) (a # xs)"
  using assms by (cases xs) (auto simp: dll_def dl_push_front_def dest: chain_hd_notin)

lemma dll_push_back:
  assumes "dll_ends ((nx, pv), first, lst) xs" and "a \<notin> set xs" and "nx a = None"
  shows "dll_ends (dl_push_back a ((nx, pv), first, lst)) (xs @ [a])"
proof (cases xs rule: rev_cases)
  case Nil
  with assms show ?thesis by (auto simp: dll_ends_def dl_push_back_def)
next
  case (snoc ys t)
  with assms have "t \<notin> set ys" "t \<noteq> a" by (auto dest: dll_ends_distinct)
  with assms snoc show ?thesis
    by (auto simp: dll_ends_def dl_push_back_def seg_append prevs_append last_opt_def
        split: option.splits)
qed

text \<open>The links of a node in the middle of the list.\<close>

lemma linked_node:
  assumes "chain nx first (ys @ a # zs)" and "prevs pv None (ys @ a # zs)"
  shows "nx a = hd_opt zs" and "pv a = last_opt ys"
proof -
  show "nx a = hd_opt zs" using assms(1) by (rule chain_next)
  show "pv a = last_opt ys" using assms(2) by (auto simp: prevs_append split: option.splits)
qed

lemma unlink_chain:
  assumes c: "chain nx first (ys @ a # zs)" and p: "prevs pv None (ys @ a # zs)"
    and s: "(case pv a of Some p \<Rightarrow> (nx(p := nx a), first) | None \<Rightarrow> (nx, nx a)) = (nx', first')"
  shows "chain nx' first' (ys @ zs)" and "nx' a = hd_opt zs"
proof -
  have a: "nx a = hd_opt zs" "pv a = last_opt ys" by (rule linked_node [OF c p])+
  have d: "distinct (ys @ a # zs)" by (rule chain_distinct [OF c])
  have "chain nx' first' (ys @ zs) \<and> nx' a = hd_opt zs"
  proof (cases ys rule: rev_cases)
    case Nil
    with c s a show ?thesis by (auto dest: chain_start)
  next
    case (snoc us u)
    with d have "u \<notin> set us" "u \<notin> set zs" "u \<noteq> a" by auto
    with c s a snoc show ?thesis by (auto simp: seg_append)
  qed
  then show "chain nx' first' (ys @ zs)" and "nx' a = hd_opt zs" by auto
qed

lemma unlink_prevs:
  assumes p: "prevs pv None (ys @ a # zs)" and d: "distinct (ys @ a # zs)"
  shows "prevs (case hd_opt zs of Some n \<Rightarrow> pv(n := pv a) | None \<Rightarrow> pv) None (ys @ zs)"
  using assms by (cases zs) (auto simp: prevs_append split: option.splits)

lemma dll_unlink:
  assumes "dll ((nx, pv), first) xs" and "a \<in> set xs"
  shows "dll (dl_unlink a ((nx, pv), first)) (remove1 a xs)"
proof -
  from assms obtain ys zs where xs: "xs = ys @ a # zs" by (meson split_list)
  with assms have c: "chain nx first (ys @ a # zs)" and p: "prevs pv None (ys @ a # zs)"
    by (auto simp: dll_def)
  obtain nx' first' where
    s: "(case pv a of Some p \<Rightarrow> (nx(p := nx a), first) | None \<Rightarrow> (nx, nx a)) = (nx', first')"
    by (metis surj_pair)
  have d: "distinct (ys @ a # zs)" by (rule chain_distinct [OF c])
  then have "remove1 a xs = ys @ zs" using xs by (simp add: remove1_split)
  then show ?thesis
    using unlink_chain [OF c p s] unlink_prevs [OF p d] s by (simp add: dll_def dl_unlink_def)
qed

lemma dll_unlink_ends:
  assumes "dll_ends ((nx, pv), first, lst) xs" and "a \<in> set xs"
  shows "dll_ends (dl_unlink_ends a ((nx, pv), first, lst)) (remove1 a xs)"
proof -
  from assms obtain ys zs where xs: "xs = ys @ a # zs" by (meson split_list)
  with assms have c: "chain nx first (ys @ a # zs)" and p: "prevs pv None (ys @ a # zs)"
    and l: "lst = last_opt (ys @ a # zs)"
    by (auto simp: dll_ends_def)
  obtain nx' first' where
    s: "(case pv a of Some p \<Rightarrow> (nx(p := nx a), first) | None \<Rightarrow> (nx, nx a)) = (nx', first')"
    by (metis surj_pair)
  have d: "distinct (ys @ a # zs)" by (rule chain_distinct [OF c])
  then have r: "remove1 a xs = ys @ zs" using xs by (simp add: remove1_split)
  have pa: "pv a = last_opt ys" by (rule linked_node [OF c p])
  show ?thesis
    using unlink_chain [OF c p s] unlink_prevs [OF p d] s l r pa
    by (cases zs) (auto simp: dll_ends_def dl_unlink_ends_def last_opt_def)
qed

text \<open>Nodes outside the list keep their links.\<close>

lemma dl_push_front_frame:
  assumes "dl_push_front a ((nx, pv), first) = ((nx', pv'), first')"
    and "dll ((nx, pv), first) xs" and "b \<notin> set xs" and "b \<noteq> a"
  shows "nx' b = nx b \<and> pv' b = pv b"
  using assms by (cases xs) (auto simp: dl_push_front_def dll_def split: option.splits)

lemma dl_push_back_frame:
  assumes "dl_push_back a ((nx, pv), first, lst) = ((nx', pv'), first', lst')"
    and "dll_ends ((nx, pv), first, lst) xs" and "b \<notin> set xs" and "b \<noteq> a"
  shows "nx' b = nx b \<and> pv' b = pv b"
  using assms
  by (cases xs rule: rev_cases) (auto simp: dl_push_back_def dll_ends_def split: option.splits)

lemma dl_unlink_frame:
  assumes "dl_unlink a ((nx, pv), first) = ((nx', pv'), first')"
    and "dll ((nx, pv), first) xs" and "a \<in> set xs" and "b \<notin> set xs"
  shows "nx' b = nx b \<and> pv' b = pv b"
proof -
  from assms obtain ys zs where xs: "xs = ys @ a # zs" by (meson split_list)
  with assms have "chain nx first (ys @ a # zs)" "prevs pv None (ys @ a # zs)"
    by (auto simp: dll_def)
  from linked_node [OF this] assms(1,4) xs show ?thesis
    by (cases zs; cases ys rule: rev_cases)
      (auto simp: dl_unlink_def last_opt_def split: option.splits if_splits)
qed

lemma dl_unlink_ends_frame:
  assumes "dl_unlink_ends a ((nx, pv), first, lst) = ((nx', pv'), first', lst')"
    and "dll_ends ((nx, pv), first, lst) xs" and "a \<in> set xs" and "b \<notin> set xs"
  shows "nx' b = nx b \<and> pv' b = pv b"
proof -
  from assms obtain ys zs where xs: "xs = ys @ a # zs" by (meson split_list)
  with assms have "chain nx first (ys @ a # zs)" "prevs pv None (ys @ a # zs)"
    by (auto simp: dll_ends_def)
  from linked_node [OF this] assms(1,4) xs show ?thesis
    by (cases zs; cases ys rule: rev_cases)
      (auto simp: dl_unlink_ends_def last_opt_def split: option.splits if_splits)
qed

subsection \<open>The contract of an intrusive list\<close>

text \<open>
  \<open>add\<close> links a node that is not in the list and whose unwritten link is null (\<open>clean\<close>), at
  the end that \<open>ins\<close> says; \<open>del\<close> unlinks a node of the list, wherever it is.
\<close>

locale node_list =
  fixes rep :: "'s \<Rightarrow> addr list \<Rightarrow> bool"
    and clean :: "addr \<Rightarrow> 's \<Rightarrow> bool"
    and ins :: "addr \<Rightarrow> addr list \<Rightarrow> addr list"
    and add :: "addr \<Rightarrow> 's \<Rightarrow> 's"
    and del :: "addr \<Rightarrow> 's \<Rightarrow> 's"
  assumes rep_distinct: "rep s xs \<Longrightarrow> distinct xs"
    and rep_add: "rep s xs \<Longrightarrow> a \<notin> set xs \<Longrightarrow> clean a s \<Longrightarrow> rep (add a s) (ins a xs)"
    and rep_del: "rep s xs \<Longrightarrow> a \<in> set xs \<Longrightarrow> rep (del a s) (remove1 a xs)"
    and set_ins: "set (ins a xs) = insert a (set xs)"
begin

lemma rep_del_filter:
  assumes "rep s xs" and "a \<in> set xs"
  shows "rep (del a s) (filter (\<lambda>x. x \<noteq> a) xs)"
  using rep_del [OF assms] rep_distinct [OF assms(1)] by (simp add: filter_neq_remove1)

text \<open>Unlinking any selection of nodes, in any order, leaves the others in their order.\<close>

lemma rep_fold_del:
  "rep s xs \<Longrightarrow> distinct ys \<Longrightarrow> set ys \<subseteq> set xs
   \<Longrightarrow> rep (fold del ys s) (filter (\<lambda>x. x \<notin> set ys) xs)"
proof (induction ys arbitrary: s xs)
  case Nil
  then show ?case by simp
next
  case (Cons y ys)
  have "rep (del y s) (filter (\<lambda>x. x \<noteq> y) xs)" using Cons.prems rep_del_filter by auto
  then have "rep (fold del ys (del y s)) (filter (\<lambda>x. x \<notin> set ys) (filter (\<lambda>x. x \<noteq> y) xs))"
    using Cons.prems by (intro Cons.IH) auto
  moreover have "filter (\<lambda>x. x \<notin> set ys) (filter (\<lambda>x. x \<noteq> y) xs) = filter (\<lambda>x. x \<notin> set (y # ys)) xs"
    by (auto intro: filter_cong)
  ultimately show ?case by simp
qed

lemma rep_clear: "rep s xs \<Longrightarrow> rep (fold del xs s) []"
  using rep_fold_del [of s xs xs] rep_distinct by (simp add: filter_empty_conv)

end

interpretation dl: node_list dll "\<lambda>a s. snd (fst s) a = None" "(#)" dl_push_front dl_unlink
  by unfold_locales
    (auto simp: dll_distinct intro: dll_push_front dll_unlink split: prod.splits)

interpretation dle: node_list dll_ends "\<lambda>a s. fst (fst s) a = None" "\<lambda>a xs. xs @ [a]"
    dl_push_back dl_unlink_ends
  by unfold_locales
    (auto simp: dll_ends_distinct intro: dll_push_back dll_unlink_ends split: prod.splits)

end
