(* ===== verification/Timer_Heap.thy ===== *)
theory Timer_Heap
  imports Snowy_Prelude
begin

text \<open>
  The standard heap algorithms the loop applies to its vector of timers
  (\<^verbatim>\<open>std::push_heap\<close>, \<^verbatim>\<open>std::pop_heap\<close>, \<^verbatim>\<open>std::make_heap\<close> with the comparison
  \<^verbatim>\<open>later\<close> of \<^verbatim>\<open>loop.cpp\<close>, which keeps the earliest deadline in front).  The C++ standard fixes
  what the algorithms guarantee and not the arrangement they choose, so the loop's lemmas
  rest only on the contract, the locale \<open>std_heap\<close>; array-based binary heaps satisfy it.

  \<open>k\<close> is the deadline of an element.
\<close>

subsection \<open>Array-based binary heaps\<close>

definition parent :: "nat \<Rightarrow> nat" where
  "parent i = (i - 1) div 2"

definition is_heap :: "('a \<Rightarrow> int) \<Rightarrow> 'a list \<Rightarrow> bool" where
  "is_heap k xs \<longleftrightarrow> (\<forall>i. 0 < i \<and> i < length xs \<longrightarrow> k (xs ! parent i) \<le> k (xs ! i))"

definition swap_at :: "'a list \<Rightarrow> nat \<Rightarrow> nat \<Rightarrow> 'a list" where
  "swap_at xs i j = xs[i := xs ! j, j := xs ! i]"

function sift_up :: "('a \<Rightarrow> int) \<Rightarrow> 'a list \<Rightarrow> nat \<Rightarrow> 'a list" where
  "sift_up k xs i =
     (if 0 < i \<and> k (xs ! parent i) > k (xs ! i)
      then sift_up k (swap_at xs i (parent i)) (parent i) else xs)"
  by pat_completeness auto
termination
  by (relation "measure (\<lambda>(k, xs, i). i)") (auto simp: parent_def)

declare sift_up.simps [simp del]

lemma sift_up_step:
  "0 < i \<Longrightarrow> k (xs ! i) < k (xs ! parent i) \<Longrightarrow>
   sift_up k xs i = sift_up k (swap_at xs i (parent i)) (parent i)"
  by (simp add: sift_up.simps [of k xs i])

lemma sift_up_stop: "i = 0 \<or> k (xs ! parent i) \<le> k (xs ! i) \<Longrightarrow> sift_up k xs i = xs"
  by (subst sift_up.simps) auto

text \<open>The child of \<open>i\<close> below \<open>n\<close> with the earlier deadline.\<close>

definition min_child :: "('a \<Rightarrow> int) \<Rightarrow> nat \<Rightarrow> 'a list \<Rightarrow> nat \<Rightarrow> nat" where
  "min_child k n xs i =
     (if 2 * i + 2 < n \<and> k (xs ! (2 * i + 1)) > k (xs ! (2 * i + 2)) then 2 * i + 2 else 2 * i + 1)"

function sift_down :: "('a \<Rightarrow> int) \<Rightarrow> nat \<Rightarrow> 'a list \<Rightarrow> nat \<Rightarrow> 'a list" where
  "sift_down k n xs i =
     (if 2 * i + 1 < n \<and> k (xs ! i) > k (xs ! min_child k n xs i)
      then sift_down k n (swap_at xs i (min_child k n xs i)) (min_child k n xs i) else xs)"
  by pat_completeness auto
termination
  by (relation "measure (\<lambda>(k, n, xs, i). n - i)") (auto simp: min_child_def)

declare sift_down.simps [simp del]

lemma sift_down_step:
  "2 * i + 1 < n \<Longrightarrow> k (xs ! min_child k n xs i) < k (xs ! i) \<Longrightarrow>
   sift_down k n xs i = sift_down k n (swap_at xs i (min_child k n xs i)) (min_child k n xs i)"
  by (simp add: sift_down.simps [of k n xs i])

lemma sift_down_stop:
  "n \<le> 2 * i + 1 \<or> k (xs ! i) \<le> k (xs ! min_child k n xs i) \<Longrightarrow> sift_down k n xs i = xs"
  by (subst sift_down.simps) auto

definition push_heap :: "('a \<Rightarrow> int) \<Rightarrow> 'a list \<Rightarrow> 'a list" where
  "push_heap k xs = (if xs = [] then [] else sift_up k xs (length xs - 1))"

definition pop_heap :: "('a \<Rightarrow> int) \<Rightarrow> 'a list \<Rightarrow> 'a list" where
  "pop_heap k xs =
     (if xs = [] then []
      else sift_down k (length xs - 1) (swap_at xs 0 (length xs - 1)) 0)"

primrec heapify :: "('a \<Rightarrow> int) \<Rightarrow> nat \<Rightarrow> 'a list \<Rightarrow> 'a list" where
  "heapify k 0 xs = xs"
| "heapify k (Suc m) xs = heapify k m (sift_down k (length xs) xs m)"

definition make_heap :: "('a \<Rightarrow> int) \<Rightarrow> 'a list \<Rightarrow> 'a list" where
  "make_heap k xs = heapify k (length xs div 2) xs"

subsection \<open>Elements are permuted\<close>

lemma swap_at_length [simp]: "length (swap_at xs i j) = length xs"
  by (simp add: swap_at_def)

lemma swap_at_mset [simp]: "i < length xs \<Longrightarrow> j < length xs \<Longrightarrow> mset (swap_at xs i j) = mset xs"
  by (cases "i = j") (simp_all add: swap_at_def mset_swap)

lemma swap_at_nth:
  "i < length xs \<Longrightarrow> j < length xs \<Longrightarrow> x < length xs \<Longrightarrow>
   swap_at xs i j ! x = (if x = j then xs ! i else if x = i then xs ! j else xs ! x)"
  by (simp add: swap_at_def nth_list_update)

lemma parent_less: "0 < i \<Longrightarrow> parent i < i"
  by (auto simp: parent_def)

lemma parent_child [simp]: "parent (2 * i + 1) = i" "parent (2 * i + 2) = i" "parent (Suc (2 * i)) = i"
  by (simp_all add: parent_def)

lemma parent_eq_iff: "0 < x \<Longrightarrow> parent x = i \<longleftrightarrow> x = 2 * i + 1 \<or> x = 2 * i + 2"
  by (auto simp: parent_def)

lemma sift_up_mset: "i < length xs \<Longrightarrow> mset (sift_up k xs i) = mset xs"
proof (induction k xs i rule: sift_up.induct)
  case (1 k xs i)
  show ?case
  proof (cases "0 < i \<and> k (xs ! parent i) > k (xs ! i)")
    case True
    with "1.IH" "1.prems" parent_less [of i] show ?thesis by (simp add: sift_up_step)
  next
    case False
    then show ?thesis by (subst sift_up_stop) auto
  qed
qed

lemma min_child_props:
  assumes "2 * i + 1 < n"
  shows "min_child k n xs i < n" and "parent (min_child k n xs i) = i" and "i < min_child k n xs i"
    and "\<And>x. 0 < x \<Longrightarrow> x < n \<Longrightarrow> parent x = i \<Longrightarrow> k (xs ! min_child k n xs i) \<le> k (xs ! x)"
  using assms by (auto simp: min_child_def parent_eq_iff)

lemma sift_down_mset: "n \<le> length xs \<Longrightarrow> mset (sift_down k n xs i) = mset xs"
proof (induction k n xs i rule: sift_down.induct)
  case (1 k n xs i)
  show ?case
  proof (cases "2 * i + 1 < n \<and> k (xs ! i) > k (xs ! min_child k n xs i)")
    case True
    with "1.prems" min_child_props(1,3) [of i n k xs]
    have "i < length xs" "min_child k n xs i < length xs" by auto
    with True "1.IH" "1.prems" show ?thesis by (simp add: sift_down_step)
  next
    case False
    then show ?thesis by (subst sift_down_stop) auto
  qed
qed

lemma sift_down_length [simp]: "length (sift_down k n xs i) = length xs"
proof (induction k n xs i rule: sift_down.induct)
  case (1 k n xs i)
  show ?case
  proof (cases "2 * i + 1 < n \<and> k (xs ! i) > k (xs ! min_child k n xs i)")
    case True
    with "1.IH" show ?thesis by (simp add: sift_down_step)
  next
    case False
    then show ?thesis by (subst sift_down_stop) auto
  qed
qed

text \<open>Positions at or beyond the heap's end are not touched.\<close>

lemma sift_down_beyond:
  "n \<le> j \<Longrightarrow> j < length xs \<Longrightarrow> sift_down k n xs i ! j = xs ! j"
proof (induction k n xs i rule: sift_down.induct)
  case (1 k n xs i)
  show ?case
  proof (cases "2 * i + 1 < n \<and> k (xs ! i) > k (xs ! min_child k n xs i)")
    case True
    then have m: "min_child k n xs i < n" "i < n" using min_child_props(1) by auto
    then have "swap_at xs i (min_child k n xs i) ! j = xs ! j"
      using "1.prems" by (simp add: swap_at_nth)
    with True "1.IH" "1.prems" show ?thesis by (simp add: sift_down_step)
  next
    case False
    then show ?thesis by (subst sift_down_stop) auto
  qed
qed

subsection \<open>Order is restored\<close>

text \<open>A heap except that the element at \<open>i\<close> may be earlier than its parent.\<close>

definition heap_but_up :: "('a \<Rightarrow> int) \<Rightarrow> 'a list \<Rightarrow> nat \<Rightarrow> bool" where
  "heap_but_up k xs i \<longleftrightarrow>
     (\<forall>x. 0 < x \<and> x < length xs \<longrightarrow>
        (x \<noteq> i \<longrightarrow> k (xs ! parent x) \<le> k (xs ! x)) \<and>
        (parent x = i \<and> 0 < i \<longrightarrow> k (xs ! parent i) \<le> k (xs ! x)))"

lemma heap_but_up_swap:
  assumes h: "heap_but_up k xs i" and i: "0 < i" "i < length xs"
    and lt: "k (xs ! i) < k (xs ! parent i)"
  shows "heap_but_up k (swap_at xs i (parent i)) (parent i)"
proof -
  let ?p = "parent i" and ?ys = "swap_at xs i (parent i)"
  have p: "?p < i" by (rule parent_less [OF i(1)])
  have at: "?ys ! x = (if x = ?p then xs ! i else if x = i then xs ! ?p else xs ! x)"
    if "x < length xs" for x
    using that p i by (simp add: swap_at_nth)
  have "k (?ys ! parent x) \<le> k (?ys ! x)" if x: "0 < x" "x < length xs" "x \<noteq> ?p" for x
  proof -
    have px: "parent x < x" by (rule parent_less [OF x(1)])
    show ?thesis
      using h [unfolded heap_but_up_def, rule_format, of x] x px p lt i at [of x] at [of "parent x"]
      by (auto split: if_splits)
  qed
  moreover have "k (?ys ! parent ?p) \<le> k (?ys ! x)"
    if x: "0 < x" "x < length xs" and px: "parent x = ?p" and pp: "0 < ?p" for x
  proof -
    have pp': "parent ?p < ?p" by (rule parent_less [OF pp])
    have "x \<noteq> ?p" using px pp' by auto
    moreover have "k (xs ! parent ?p) \<le> k (xs ! ?p)" using h pp p i by (auto simp: heap_but_up_def)
    moreover have "k (xs ! ?p) \<le> k (xs ! x)" if "x \<noteq> i"
      using h [unfolded heap_but_up_def, rule_format, of x] x px that by simp
    ultimately show ?thesis using x pp' p i at [of x] at [of "parent ?p"] by auto
  qed
  ultimately show ?thesis by (simp add: heap_but_up_def)
qed

lemma sift_up_heap: "i < length xs \<Longrightarrow> heap_but_up k xs i \<Longrightarrow> is_heap k (sift_up k xs i)"
proof (induction k xs i rule: sift_up.induct)
  case (1 k xs i)
  show ?case
  proof (cases "0 < i \<and> k (xs ! parent i) > k (xs ! i)")
    case True
    have "heap_but_up k (swap_at xs i (parent i)) (parent i)"
      using True "1.prems" by (intro heap_but_up_swap) auto
    with True "1.IH" "1.prems" parent_less [of i] show ?thesis by (simp add: sift_up_step)
  next
    case False
    have "k (xs ! parent x) \<le> k (xs ! x)" if "0 < x" "x < length xs" for x
      using False "1.prems"(2) that by (cases "x = i") (auto simp: heap_but_up_def)
    moreover have "sift_up k xs i = xs" using False by (intro sift_up_stop) auto
    ultimately show ?thesis by (simp add: is_heap_def)
  qed
qed

text \<open>
  From \<open>m\<close> on, the first \<open>n\<close> elements are a heap except that the element at \<open>i\<close> may be
  later than its children.
\<close>

definition heap_but_down :: "('a \<Rightarrow> int) \<Rightarrow> nat \<Rightarrow> nat \<Rightarrow> 'a list \<Rightarrow> nat \<Rightarrow> bool" where
  "heap_but_down k m n xs i \<longleftrightarrow>
     (\<forall>x. 0 < x \<and> x < n \<and> m \<le> parent x \<longrightarrow>
        (parent x \<noteq> i \<longrightarrow> k (xs ! parent x) \<le> k (xs ! x)) \<and>
        (parent x = i \<and> 0 < i \<and> m \<le> parent i \<longrightarrow> k (xs ! parent i) \<le> k (xs ! x)))"

definition partial_heap :: "('a \<Rightarrow> int) \<Rightarrow> nat \<Rightarrow> nat \<Rightarrow> 'a list \<Rightarrow> bool" where
  "partial_heap k m n xs \<longleftrightarrow>
     (\<forall>x. 0 < x \<and> x < n \<and> m \<le> parent x \<longrightarrow> k (xs ! parent x) \<le> k (xs ! x))"

lemma heap_but_down_swap:
  assumes h: "heap_but_down k m n xs i" and n: "n \<le> length xs" and i: "2 * i + 1 < n" "m \<le> i"
    and lt: "k (xs ! i) > k (xs ! min_child k n xs i)"
  shows "heap_but_down k m n (swap_at xs i (min_child k n xs i)) (min_child k n xs i)"
proof -
  let ?c = "min_child k n xs i"
  let ?ys = "swap_at xs i ?c"
  note c = min_child_props [OF i(1), where k = k and xs = xs]
  have at: "?ys ! x = (if x = ?c then xs ! i else if x = i then xs ! ?c else xs ! x)" if "x < n" for x
    using that c(1,3) n by (simp add: swap_at_nth)
  have "k (?ys ! parent x) \<le> k (?ys ! x)"
    if x: "0 < x" "x < n" "m \<le> parent x" "parent x \<noteq> ?c" for x
  proof -
    have px: "parent x < x" by (rule parent_less [OF x(1)])
    consider "parent x = i" | "x = i" | "parent x \<noteq> i" "x \<noteq> i" by blast
    then show ?thesis
    proof cases
      case 1
      with c(4) [of x] x px lt show ?thesis using at [of x] at [of "parent x"] by auto
    next
      case 2
      then have "k (xs ! parent i) \<le> k (xs ! ?c)"
        using h [unfolded heap_but_down_def, rule_format, of ?c] c(1-3) x i by simp
      with 2 c(3) x px show ?thesis using at [of x] at [of "parent x"] by auto
    next
      case 3
      then have "k (xs ! parent x) \<le> k (xs ! x)" using h x unfolding heap_but_down_def by blast
      with 3 c(2) x px show ?thesis using at [of x] at [of "parent x"] by auto
    qed
  qed
  moreover have "k (?ys ! parent ?c) \<le> k (?ys ! x)"
    if x: "0 < x" "x < n" and px: "parent x = ?c" for x
  proof -
    have "?c < x" using parent_less [OF x(1)] px by simp
    moreover have "k (xs ! ?c) \<le> k (xs ! x)"
      using h [unfolded heap_but_down_def, rule_format, of x] x px c(3) i by simp
    ultimately show ?thesis using x c at [of x] at [of i] by auto
  qed
  ultimately show ?thesis by (simp add: heap_but_down_def)
qed

lemma sift_down_heap:
  "n \<le> length xs \<Longrightarrow> m \<le> i \<Longrightarrow> heap_but_down k m n xs i \<Longrightarrow> partial_heap k m n (sift_down k n xs i)"
proof (induction k n xs i rule: sift_down.induct)
  case (1 k n xs i)
  show ?case
  proof (cases "2 * i + 1 < n \<and> k (xs ! i) > k (xs ! min_child k n xs i)")
    case True
    have "heap_but_down k m n (swap_at xs i (min_child k n xs i)) (min_child k n xs i)"
      using True "1.prems" by (intro heap_but_down_swap) auto
    with True "1.IH" "1.prems" min_child_props(3) [of i n k xs] show ?thesis
      by (simp add: sift_down_step)
  next
    case False
    have "k (xs ! i) \<le> k (xs ! x)" if "0 < x" "x < n" "parent x = i" for x
    proof -
      have "2 * i + 1 < n" using that by (auto simp: parent_eq_iff)
      with False min_child_props(4) [where i = i and n = n and x = x and k = k and xs = xs] that show ?thesis by auto
    qed
    then have "partial_heap k m n xs"
      using "1.prems"(3) by (auto simp: partial_heap_def heap_but_down_def)
    moreover have "sift_down k n xs i = xs" using False by (intro sift_down_stop) auto
    ultimately show ?thesis by simp
  qed
qed

lemma heapify_heap:
  "partial_heap k m (length xs) xs \<Longrightarrow> is_heap k (heapify k m xs) \<and> mset (heapify k m xs) = mset xs"
proof (induction m arbitrary: xs)
  case 0
  then show ?case by (simp add: partial_heap_def is_heap_def)
next
  case (Suc m)
  have "heap_but_down k m (length xs) xs m"
    using Suc.prems parent_less [of m] by (auto simp: partial_heap_def heap_but_down_def)
  then have "partial_heap k m (length xs) (sift_down k (length xs) xs m)"
    by (intro sift_down_heap) auto
  with Suc.IH [of "sift_down k (length xs) xs m"] show ?case by (simp add: sift_down_mset)
qed

lemma make_heap_correct: "is_heap k (make_heap k xs) \<and> mset (make_heap k xs) = mset xs"
  unfolding make_heap_def
  by (rule heapify_heap) (auto simp: partial_heap_def parent_def)

lemma push_heap_correct:
  assumes "is_heap k xs"
  shows "is_heap k (push_heap k (xs @ [a])) \<and> mset (push_heap k (xs @ [a])) = add_mset a (mset xs)"
proof -
  have at: "(xs @ [a]) ! j = xs ! j" if "j < length xs" for j
    using that by (simp add: nth_append)
  have "heap_but_up k (xs @ [a]) (length xs)"
    unfolding heap_but_up_def
  proof (intro allI impI conjI)
    fix x
    assume x: "0 < x \<and> x < length (xs @ [a])"
    then have px: "parent x < x" by (simp add: parent_less)
    show "k ((xs @ [a]) ! parent x) \<le> k ((xs @ [a]) ! x)" if "x \<noteq> length xs"
      using that x px assms at [of x] at [of "parent x"] by (simp add: is_heap_def)
    show "k ((xs @ [a]) ! parent (length xs)) \<le> k ((xs @ [a]) ! x)"
      if "parent x = length xs \<and> 0 < length xs"
      using that x px by simp
  qed
  then show ?thesis by (simp add: push_heap_def sift_up_heap sift_up_mset)
qed

lemma pop_heap_correct:
  assumes "is_heap k (x # xs)"
  shows "\<exists>ys. pop_heap k (x # xs) = ys @ [x] \<and> is_heap k ys \<and> mset ys = mset xs"
proof -
  let ?n = "length xs" and ?zs = "swap_at (x # xs) 0 (length xs)"
  let ?r = "sift_down k (length xs) ?zs 0"
  have r: "pop_heap k (x # xs) = ?r" by (simp add: pop_heap_def)
  have zs: "?zs ! j = (x # xs) ! j" if "0 < j" "j < ?n" for j
    using that by (simp add: swap_at_nth)
  have "heap_but_down k 0 ?n ?zs 0"
    unfolding heap_but_down_def
  proof (intro allI impI conjI)
    fix j
    assume j: "0 < j \<and> j < ?n \<and> 0 \<le> parent j"
    then have pj: "parent j < j" by (simp add: parent_less)
    show "k (?zs ! parent j) \<le> k (?zs ! j)" if "parent j \<noteq> 0"
      using assms [unfolded is_heap_def, rule_format, of j] j pj that zs [of j] zs [of "parent j"]
      by simp
  qed simp
  then have p: "partial_heap k 0 ?n ?r" by (intro sift_down_heap) auto
  have l: "?r ! ?n = x" by (simp add: sift_down_beyond swap_at_nth)
  let ?ys = "take ?n ?r"
  have e: "?r = ?ys @ [x]" using l take_Suc_conv_app_nth [of ?n ?r] by simp
  have h: "is_heap k ?ys"
    unfolding is_heap_def
  proof (intro allI impI)
    fix j
    assume j: "0 < j \<and> j < length ?ys"
    then have "parent j < j" by (simp add: parent_less)
    with p j show "k (?ys ! parent j) \<le> k (?ys ! j)" by (simp add: partial_heap_def)
  qed
  have "mset ?r = add_mset x (mset xs)" by (simp add: sift_down_mset)
  moreover have "mset ?r = add_mset x (mset ?ys)" by (subst e) simp
  ultimately have "mset ?ys = mset xs" by simp
  moreover have "pop_heap k (x # xs) = ?ys @ [x]" using r e by (rule trans)
  ultimately show ?thesis using h by blast
qed

lemma heap_front_least:
  assumes "is_heap k xs" and "j < length xs" shows "k (xs ! 0) \<le> k (xs ! j)"
  using assms(2)
proof (induction j rule: less_induct)
  case (less j)
  show ?case
  proof (cases "j = 0")
    case False
    then have "parent j < j" using parent_less by blast
    with less False assms(1) have "k (xs ! 0) \<le> k (xs ! parent j)" "k (xs ! parent j) \<le> k (xs ! j)"
      by (auto simp: is_heap_def)
    then show ?thesis by simp
  qed simp
qed

subsection \<open>The contract of the standard algorithms\<close>

locale std_heap =
  fixes heap :: "('a \<Rightarrow> int) \<Rightarrow> 'a list \<Rightarrow> bool"
    and push :: "('a \<Rightarrow> int) \<Rightarrow> 'a list \<Rightarrow> 'a list"
    and pop :: "('a \<Rightarrow> int) \<Rightarrow> 'a list \<Rightarrow> 'a list"
    and make :: "('a \<Rightarrow> int) \<Rightarrow> 'a list \<Rightarrow> 'a list"
  assumes heap_Nil: "heap k []"
    and heap_front: "heap k (x # xs) \<Longrightarrow> y \<in> set xs \<Longrightarrow> k x \<le> k y"
    and push_heap: "heap k xs \<Longrightarrow> heap k (push k (xs @ [x]))"
    and push_mset: "heap k xs \<Longrightarrow> mset (push k (xs @ [x])) = add_mset x (mset xs)"
    and pop_front: "heap k (x # xs) \<Longrightarrow> \<exists>ys. pop k (x # xs) = ys @ [x] \<and> heap k ys \<and> mset ys = mset xs"
    and make_heap: "heap k (make k xs)"
    and make_mset: "mset (make k xs) = mset xs"
begin

text \<open>Repeatedly removing the front while it is due: what the loop's expiry does.\<close>

function pop_due :: "('a \<Rightarrow> int) \<Rightarrow> int \<Rightarrow> 'a list \<Rightarrow> 'a list \<times> 'a list" where
  "pop_due k now [] = ([], [])"
| "pop_due k now (x # xs) =
     (if k x \<le> now \<and> length (butlast (pop k (x # xs))) < length (x # xs)
      then (case pop_due k now (butlast (pop k (x # xs))) of (ds, ys) \<Rightarrow> (x # ds, ys))
      else ([], x # xs))"
  by pat_completeness auto
termination
  by (relation "measure (\<lambda>(k, now, xs). length xs)") auto

lemma pop_due_Cons:
  assumes "heap k (x # xs)" and "k x \<le> now"
  obtains ys where "pop k (x # xs) = ys @ [x]" "heap k ys" "mset ys = mset xs"
    and "pop_due k now (x # xs) = (case pop_due k now ys of (ds, zs) \<Rightarrow> (x # ds, zs))"
proof -
  from pop_front [OF assms(1)] obtain ys where
    ys: "pop k (x # xs) = ys @ [x]" "heap k ys" "mset ys = mset xs" by blast
  then have "length ys = length xs" by (metis size_mset)
  with ys assms(2) show thesis by (intro that [of ys]) auto
qed

lemma pop_due_correct:
  assumes "heap k xs" and "pop_due k now xs = (ds, ys)"
  shows "heap k ys" and "mset ds + mset ys = mset xs"
    and "\<forall>d \<in> set ds. k d \<le> now" and "\<forall>y \<in> set ys. now < k y"
    and "sorted (map k ds)"
proof -
  have "heap k ys \<and> mset ds + mset ys = mset xs \<and> (\<forall>d \<in> set ds. k d \<le> now) \<and>
     (\<forall>y \<in> set ys. now < k y) \<and> sorted (map k ds)"
    using assms
  proof (induction "length xs" arbitrary: xs ds ys)
    case 0
    then show ?case by auto
  next
    case (Suc n)
    then obtain x xs' where xs: "xs = x # xs'" by (cases xs) auto
    show ?case
    proof (cases "k x \<le> now")
      case True
      have "heap k (x # xs')" using Suc.prems xs by simp
      from pop_due_Cons [where now = now, OF this True] obtain us where
        us: "heap k us" "mset us = mset xs'"
          "pop_due k now xs = (case pop_due k now us of (ds, zs) \<Rightarrow> (x # ds, zs))"
        using xs by blast
      obtain ds' zs where r: "pop_due k now us = (ds', zs)" by fastforce
      with us Suc.prems have d: "ds = x # ds'" "ys = zs" by auto
      have "n = length us" using us Suc.hyps(2) xs by (metis length_Cons nat.inject size_mset)
      from Suc.hyps(1) [OF this us(1) r]
      have ih: "heap k zs" "mset ds' + mset zs = mset us" "\<forall>d \<in> set ds'. k d \<le> now"
        "\<forall>y \<in> set zs. now < k y" "sorted (map k ds')" by auto
      have "k x \<le> k d" if "d \<in> set ds'" for d
      proof -
        have "d \<in> set us" using that ih(2) by (metis mset_eq_setD set_mset_mset union_iff
              set_mset_union in_multiset_in_set)
        then have "d \<in> set xs'" using us(2) by (metis mset_eq_setD)
        with heap_front Suc.prems xs show ?thesis by blast
      qed
      with ih d us xs True show ?thesis by auto
    next
      case False
      with Suc.prems xs have "ds = []" "ys = xs" by auto
      with False Suc.prems xs show ?thesis using heap_front by force
    qed
  qed
  then show "heap k ys" and "mset ds + mset ys = mset xs"
    and "\<forall>d \<in> set ds. k d \<le> now" and "\<forall>y \<in> set ys. now < k y"
    and "sorted (map k ds)" by auto
qed

end

interpretation bh: std_heap is_heap push_heap pop_heap make_heap
proof
  show "is_heap k []" for k :: "'a \<Rightarrow> int" by (simp add: is_heap_def)
  show "k x \<le> k y" if "is_heap k (x # xs)" "y \<in> set xs" for k :: "'a \<Rightarrow> int" and x xs y
  proof -
    from that obtain j where "j < length xs" "xs ! j = y" by (meson in_set_conv_nth)
    with heap_front_least [OF that(1), of "Suc j"] show ?thesis by simp
  qed
qed (auto simp: push_heap_correct make_heap_correct pop_heap_correct)

end
