(* ===== verification/Loop.thy ===== *)
theory Loop
  imports Ready_Queue Intrusive_List Timer_Heap
begin

text \<open>
  The state of event loops and of the operations pending on them (\<^verbatim>\<open>loop.hpp\<close>,
  \<^verbatim>\<open>event.hpp\<close>, \<^verbatim>\<open>detail/io.hpp\<close>), and the operations of \<^verbatim>\<open>loop.cpp\<close> that suspend a
  coroutine on a loop and make it ready again.  Scheduling itself (\<^verbatim>\<open>expire\<close> and \<^verbatim>\<open>run\<close>) is
  in the theory \<open>Loop_Run\<close>.

  Coroutine frames are user code: a suspended coroutine is a handle.  The stop state behind
  a \<^verbatim>\<open>std::stop_token\<close> is a token with its registered callbacks, as the standard library
  keeps it; a token without stop state is \<^const>\<open>None\<close>.
\<close>

subsection \<open>State\<close>

datatype opcode =
    Op_Nop | Op_Read | Op_Write | Op_Accept | Op_Connect | Op_Recv_From | Op_Send_To
  | Op_File_Read | Op_File_Write | Op_File_Sync | Op_Native

text \<open>\<^verbatim>\<open>class loop\<close>.  \<open>lp_signals\<close> counts the native wake-ups requested and not yet consumed.\<close>

record loop_state =
  lp_thread :: thread_id
  lp_ready :: ready_queue
  lp_timers :: "addr list"
  lp_posts :: "nat list"
  lp_messages :: ready_queue
  lp_holds :: nat
  lp_stopping :: bool
  lp_cancel :: bool
  lp_roots :: nat
  lp_budget :: nat
  lp_running :: bool
  lp_error :: "exn option"
  lp_io :: ptr
  lp_waits :: ptr
  lp_signals :: nat

text \<open>
  The loops, the stop states, the fields of \<^verbatim>\<open>detail::op\<close>, \<^verbatim>\<open>loop::timer\<close>, \<^verbatim>\<open>detail::wait\<close>
  and \<^verbatim>\<open>detail::io\<close> objects, and the clock.  \<open>r_next\<close> is the link of the \<^verbatim>\<open>work\<close> base and
  \<open>m_next\<close> that of the \<^verbatim>\<open>message\<close> base; \<open>wt_hook\<close> and \<open>io_hook\<close> tell whether the function
  pointers \<^verbatim>\<open>interrupt\<close> and \<^verbatim>\<open>retire\<close> are set.  A socket direction is a slot of \<open>busy_slot\<close>.
\<close>

record world =
  loops :: "loop_id \<Rightarrow> loop_state"
  current_loop :: "thread_id \<Rightarrow> loop_id option"
  clock_now :: int
  stop_flag :: "token_id \<Rightarrow> bool"
  stop_cbs :: "token_id \<Rightarrow> addr list"
  r_next :: field_ptr
  m_next :: field_ptr
  op_handle :: "addr \<Rightarrow> handle_id"
  op_owner :: "addr \<Rightarrow> loop_id"
  op_error :: "addr \<Rightarrow> errc option"
  op_canceled :: "addr \<Rightarrow> bool"
  op_active :: "addr \<Rightarrow> bool"
  op_callback :: "addr \<Rightarrow> token_id option"
  op_token :: "addr \<Rightarrow> token_id option"
  tm_due :: "addr \<Rightarrow> int"
  wt_next :: field_ptr
  wt_prev :: field_ptr
  wt_interruptible :: "addr \<Rightarrow> bool"
  wt_hook :: "addr \<Rightarrow> bool"
  io_next :: field_ptr
  io_prev :: field_ptr
  io_code :: "addr \<Rightarrow> opcode"
  io_size :: "addr \<Rightarrow> nat"
  io_cancel_sent :: "addr \<Rightarrow> bool"
  io_hook :: "addr \<Rightarrow> bool"
  io_busy :: "addr \<Rightarrow> nat option"
  io_reserved :: "addr \<Rightarrow> bool"
  busy_slot :: "nat \<Rightarrow> bool"

text \<open>
  The member initialisers: a loop made on thread \<open>t\<close>, and a world in which every loop is
  new, every object is freshly constructed (owner 0) and no stop has been requested.
\<close>

definition loop_init :: "thread_id \<Rightarrow> loop_state" where
  "loop_init t =
     \<lparr>lp_thread = t, lp_ready = rq_init, lp_timers = [], lp_posts = [], lp_messages = rq_init,
      lp_holds = 0, lp_stopping = False, lp_cancel = False, lp_roots = 0, lp_budget = 64,
      lp_running = False, lp_error = None, lp_io = None, lp_waits = None, lp_signals = 0\<rparr>"

definition world_init :: world where
  "world_init =
     \<lparr>loops = \<lambda>l. loop_init l, current_loop = \<lambda>t. None, clock_now = 0, stop_flag = \<lambda>k. False,
      stop_cbs = \<lambda>k. [], r_next = \<lambda>a. None, m_next = \<lambda>a. None, op_handle = \<lambda>a. a,
      op_owner = \<lambda>a. 0, op_error = \<lambda>a. None, op_canceled = \<lambda>a. False, op_active = \<lambda>a. False,
      op_callback = \<lambda>a. None, op_token = \<lambda>a. None, tm_due = \<lambda>a. 0, wt_next = \<lambda>a. None,
      wt_prev = \<lambda>a. None, wt_interruptible = \<lambda>a. True, wt_hook = \<lambda>a. False, io_next = \<lambda>a. None,
      io_prev = \<lambda>a. None, io_code = \<lambda>a. Op_Nop, io_size = \<lambda>a. 0, io_cancel_sent = \<lambda>a. False,
      io_hook = \<lambda>a. False, io_busy = \<lambda>a. None, io_reserved = \<lambda>a. False, busy_slot = \<lambda>s. False\<rparr>"

definition upd_loop :: "loop_id \<Rightarrow> (loop_state \<Rightarrow> loop_state) \<Rightarrow> 'z world_scheme \<Rightarrow> 'z world_scheme" where
  "upd_loop l f w = w\<lparr>loops := (loops w)(l := f (loops w l))\<rparr>"

definition set_error :: "addr \<Rightarrow> errc option \<Rightarrow> 'z world_scheme \<Rightarrow> 'z world_scheme" where
  "set_error a e w = w\<lparr>op_error := (op_error w)(a := e)\<rparr>"

subsection \<open>Thread affinity and wake-ups\<close>

definition wrong_thread :: exn where
  "wrong_thread = Logic_Error ''wrong loop thread''"

definition loop_check :: "thread_id \<Rightarrow> loop_id \<Rightarrow> 'z world_scheme \<Rightarrow> bool" where
  "loop_check t l w \<longleftrightarrow> lp_thread (loops w l) = t"

definition loop_stopped :: "loop_id \<Rightarrow> 'z world_scheme \<Rightarrow> bool" where
  "loop_stopped l w \<longleftrightarrow> lp_stopping (loops w l)"

definition loop_wake :: "loop_id \<Rightarrow> 'z world_scheme \<Rightarrow> 'z world_scheme" where
  "loop_wake l = upd_loop l (\<lambda>L. L\<lparr>lp_signals := lp_signals L + 1\<rparr>)"

text \<open>\<^verbatim>\<open>detail::message::send\<close>: under the target's lock, wake it if nothing was queued.\<close>

definition message_send :: "loop_id \<Rightarrow> addr \<Rightarrow> 'z world_scheme \<Rightarrow> 'z world_scheme" where
  "message_send l a w =
     (let was_empty = rq_empty (lp_messages (loops w l)) in
      case rq_push a (m_next w, lp_messages (loops w l)) of (mx, q) \<Rightarrow>
        let w1 = upd_loop l (\<lambda>L. L\<lparr>lp_messages := q\<rparr>) (w\<lparr>m_next := mx\<rparr>)
        in if was_empty then loop_wake l w1 else w1)"

definition loop_stop :: "loop_id \<Rightarrow> 'z world_scheme \<Rightarrow> 'z world_scheme" where
  "loop_stop l w =
     loop_wake l (upd_loop l (\<lambda>L. L\<lparr>lp_stopping := True, lp_cancel := True\<rparr>) w)"

definition loop_post :: "loop_id \<Rightarrow> nat option \<Rightarrow> 'z world_scheme \<Rightarrow> (unit, 'z world_scheme) result" where
  "loop_post l fn w =
     (case fn of
        None \<Rightarrow> (Inl (Invalid_Argument ''empty post''), w)
      | Some f \<Rightarrow>
          (let w1 = upd_loop l (\<lambda>L. L\<lparr>lp_posts := lp_posts L @ [f]\<rparr>) w
           in (Inr (), if length (lp_posts (loops w1 l)) = 1 then loop_wake l w1 else w1)))"

definition loop_fail :: "loop_id \<Rightarrow> exn \<Rightarrow> 'z world_scheme \<Rightarrow> 'z world_scheme" where
  "loop_fail l e w =
     loop_stop l (if lp_error (loops w l) = None
                  then upd_loop l (\<lambda>L. L\<lparr>lp_error := Some e\<rparr>) w else w)"

text \<open>\<^verbatim>\<open>loop::guard\<close>: acquiring and releasing a keep-alive reference.\<close>

definition guard_acquire :: "loop_id \<Rightarrow> 'z world_scheme \<Rightarrow> 'z world_scheme" where
  "guard_acquire l = upd_loop l (\<lambda>L. L\<lparr>lp_holds := lp_holds L + 1\<rparr>)"

definition guard_release :: "loop_id \<Rightarrow> 'z world_scheme \<Rightarrow> 'z world_scheme" where
  "guard_release l w = loop_wake l (upd_loop l (\<lambda>L. L\<lparr>lp_holds := lp_holds L - 1\<rparr>) w)"

subsection \<open>Cancellation callbacks\<close>

definition stop_requested :: "token_id option \<Rightarrow> 'z world_scheme \<Rightarrow> bool" where
  "stop_requested k w = (case k of None \<Rightarrow> False | Some t \<Rightarrow> stop_flag w t)"

text \<open>\<^verbatim>\<open>detail::op::cancel_fn\<close>: mark the operation, flag its loop, wake it.\<close>

definition cancel_fn :: "addr \<Rightarrow> 'z world_scheme \<Rightarrow> 'z world_scheme" where
  "cancel_fn a w =
     loop_wake (op_owner w a)
       (upd_loop (op_owner w a) (\<lambda>L. L\<lparr>lp_cancel := True\<rparr>)
         (w\<lparr>op_canceled := (op_canceled w)(a := True)\<rparr>))"

text \<open>\<^verbatim>\<open>std::stop_callback\<close>: registration runs the callback at once when stop was requested.\<close>

definition callback_emplace :: "addr \<Rightarrow> token_id \<Rightarrow> 'z world_scheme \<Rightarrow> 'z world_scheme" where
  "callback_emplace a k w =
     (let w1 = w\<lparr>op_callback := (op_callback w)(a := Some k)\<rparr> in
      if stop_flag w k then cancel_fn a w1
      else w1\<lparr>stop_cbs := (stop_cbs w)(k := a # stop_cbs w k)\<rparr>)"

definition callback_reset :: "addr \<Rightarrow> 'z world_scheme \<Rightarrow> 'z world_scheme" where
  "callback_reset a w =
     (case op_callback w a of
        None \<Rightarrow> w
      | Some k \<Rightarrow> w\<lparr>op_callback := (op_callback w)(a := None),
                    stop_cbs := (stop_cbs w)(k := removeAll a (stop_cbs w k))\<rparr>)"

definition request_stop :: "token_id \<Rightarrow> 'z world_scheme \<Rightarrow> 'z world_scheme" where
  "request_stop k w =
     (if stop_flag w k then w
      else fold cancel_fn (stop_cbs w k)
             (w\<lparr>stop_flag := (stop_flag w)(k := True), stop_cbs := (stop_cbs w)(k := [])\<rparr>))"

subsection \<open>Suspension and completion\<close>

text \<open>\<^verbatim>\<open>ready_.push\<close> on the loop's queue.\<close>

definition ready_push :: "loop_id \<Rightarrow> addr \<Rightarrow> 'z world_scheme \<Rightarrow> 'z world_scheme" where
  "ready_push l a w =
     (case rq_push a (r_next w, lp_ready (loops w l)) of (rx, q) \<Rightarrow>
        upd_loop l (\<lambda>L. L\<lparr>lp_ready := q\<rparr>) (w\<lparr>r_next := rx\<rparr>))"

definition yield_suspend :: "thread_id \<Rightarrow> addr \<Rightarrow> handle_id \<Rightarrow> 'z world_scheme \<Rightarrow> (unit, 'z world_scheme) result" where
  "yield_suspend t a h w =
     (if \<not> loop_check t (op_owner w a) w then (Inl wrong_thread, w)
      else (Inr (), ready_push (op_owner w a) a (w\<lparr>op_handle := (op_handle w)(a := h)\<rparr>)))"

definition loop_arm :: "thread_id \<Rightarrow> loop_id \<Rightarrow> addr \<Rightarrow> token_id option \<Rightarrow> 'z world_scheme \<Rightarrow> (bool, 'z world_scheme) result" where
  "loop_arm t l a k w =
     (if \<not> loop_check t l w then (Inl wrong_thread, w)
      else if loop_stopped l w \<or> stop_requested k w
        then (Inr False, set_error a (Some Operation_Canceled) w)
      else
        (let w1 = (case k of None \<Rightarrow> w | Some tk \<Rightarrow> callback_emplace a tk w)
         in (Inr True, w1\<lparr>op_active := (op_active w1)(a := True)\<rparr>)))"

definition loop_finish :: "loop_id \<Rightarrow> addr \<Rightarrow> 'z world_scheme \<Rightarrow> 'z world_scheme" where
  "loop_finish l a w =
     (let w1 = callback_reset a w
      in ready_push l a (w1\<lparr>op_active := (op_active w1)(a := False)\<rparr>))"

text \<open>\<^verbatim>\<open>op::await_resume\<close>: the terminal error is thrown to the awaiting coroutine.\<close>

definition op_resume :: "addr \<Rightarrow> 'z world_scheme \<Rightarrow> exn + unit" where
  "op_resume a w = (case op_error w a of None \<Rightarrow> Inr () | Some e \<Rightarrow> Inl (System_Error e))"

text \<open>\<^verbatim>\<open>loop::timer::await_suspend\<close>.\<close>

definition timer_suspend :: "thread_id \<Rightarrow> addr \<Rightarrow> handle_id \<Rightarrow> 'z world_scheme \<Rightarrow> (bool, 'z world_scheme) result" where
  "timer_suspend t a h w =
     (let l = op_owner w a in
      if \<not> loop_check t l w then (Inl wrong_thread, w)
      else
        (let w1 = upd_loop l (\<lambda>L. L\<lparr>lp_timers := lp_timers L @ [a]\<rparr>) w in
         case loop_arm t l a (op_token w a) w1 of
           (Inl e, w2) \<Rightarrow> (Inl e, upd_loop l (\<lambda>L. L\<lparr>lp_timers := butlast (lp_timers L)\<rparr>) w2)
         | (Inr False, w2) \<Rightarrow>
             (Inr False, upd_loop l (\<lambda>L. L\<lparr>lp_timers := butlast (lp_timers L)\<rparr>) w2)
         | (Inr True, w2) \<Rightarrow>
             (Inr True,
              upd_loop l (\<lambda>L. L\<lparr>lp_timers := push_heap (tm_due w2) (lp_timers L)\<rparr>)
                (w2\<lparr>op_handle := (op_handle w2)(a := h)\<rparr>))))"

text \<open>\<^verbatim>\<open>detail::wait::park\<close>.\<close>

definition wait_link :: "addr \<Rightarrow> 'z world_scheme \<Rightarrow> 'z world_scheme" where
  "wait_link a w =
     (case dl_push_front a ((wt_next w, wt_prev w), lp_waits (loops w (op_owner w a))) of
        ((nx, pv), first) \<Rightarrow>
          upd_loop (op_owner w a) (\<lambda>L. L\<lparr>lp_waits := first\<rparr>) (w\<lparr>wt_next := nx, wt_prev := pv\<rparr>))"

definition wait_park :: "thread_id \<Rightarrow> addr \<Rightarrow> handle_id \<Rightarrow> token_id option \<Rightarrow> 'z world_scheme \<Rightarrow> (bool, 'z world_scheme) result" where
  "wait_park t a h k w =
     (let l = op_owner w a in
      if \<not> loop_check t l w then (Inl wrong_thread, w)
      else
        case (if wt_interruptible w a then loop_arm t l a k w else (Inr True, w)) of
          (Inl e, w1) \<Rightarrow> (Inl e, w1)
        | (Inr False, w1) \<Rightarrow> (Inr False, w1)
        | (Inr True, w1) \<Rightarrow>
            (Inr True,
             wait_link a (w1\<lparr>op_active := (op_active w1)(a := True),
                             op_handle := (op_handle w1)(a := h)\<rparr>)))"

text \<open>\<^verbatim>\<open>detail::wait::notify\<close>: a wait that is already retired is ignored.\<close>

definition wait_unlink :: "addr \<Rightarrow> 'z world_scheme \<Rightarrow> 'z world_scheme" where
  "wait_unlink a w =
     (case dl_unlink a ((wt_next w, wt_prev w), lp_waits (loops w (op_owner w a))) of
        ((nx, pv), first) \<Rightarrow>
          upd_loop (op_owner w a) (\<lambda>L. L\<lparr>lp_waits := first\<rparr>) (w\<lparr>wt_next := nx, wt_prev := pv\<rparr>))"

definition wait_notify :: "addr \<Rightarrow> 'z world_scheme \<Rightarrow> 'z world_scheme" where
  "wait_notify a w =
     (if \<not> op_active w a then w
      else (let w1 = wait_unlink a w in loop_finish (op_owner w a) a w1))"

text \<open>
  \<^verbatim>\<open>loop::complete\<close>: unlink a native request and queue its coroutine, or call its
  \<^verbatim>\<open>retire\<close> hook (a parameter: each kind of request sets its own).
\<close>

definition io_unlink :: "loop_id \<Rightarrow> addr \<Rightarrow> 'z world_scheme \<Rightarrow> 'z world_scheme" where
  "io_unlink l a w =
     (case dl_unlink a ((io_next w, io_prev w), lp_io (loops w l)) of
        ((nx, pv), first) \<Rightarrow>
          upd_loop l (\<lambda>L. L\<lparr>lp_io := first\<rparr>) (w\<lparr>io_next := nx, io_prev := pv\<rparr>))"

definition loop_complete :: "(addr \<Rightarrow> 'z world_scheme \<Rightarrow> 'z world_scheme) \<Rightarrow> loop_id \<Rightarrow> addr \<Rightarrow> 'z world_scheme \<Rightarrow> 'z world_scheme" where
  "loop_complete retire l a w =
     (let w1 = io_unlink l a w in
      if io_hook w1 a then
        (let w2 = callback_reset a w1
         in retire a (w2\<lparr>op_active := (op_active w2)(a := False)\<rparr>))
      else loop_finish l a w1)"

text \<open>
  \<^verbatim>\<open>detail::io::await_suspend\<close>; \<open>submit\<close> is the backend's submission.  When submission
  throws, the request is unlinked again and its callback retired before the exception leaves.
\<close>

definition io_link :: "loop_id \<Rightarrow> addr \<Rightarrow> 'z world_scheme \<Rightarrow> 'z world_scheme" where
  "io_link l a w =
     (case dl_push_front a ((io_next w, io_prev w), lp_io (loops w l)) of
        ((nx, pv), first) \<Rightarrow>
          upd_loop l (\<lambda>L. L\<lparr>lp_io := first\<rparr>) (w\<lparr>io_next := nx, io_prev := pv\<rparr>))"

definition io_reserve :: "addr \<Rightarrow> 'z world_scheme \<Rightarrow> 'z world_scheme" where
  "io_reserve a w =
     (case io_busy w a of
        None \<Rightarrow> w
      | Some s \<Rightarrow> w\<lparr>busy_slot := (busy_slot w)(s := True), io_reserved := (io_reserved w)(a := True)\<rparr>)"

definition io_rollback :: "loop_id \<Rightarrow> addr \<Rightarrow> 'z world_scheme \<Rightarrow> 'z world_scheme" where
  "io_rollback l a w =
     (let w1 = (case io_next w a of None \<Rightarrow> w | Some n \<Rightarrow> w\<lparr>io_prev := (io_prev w)(n := None)\<rparr>);
          w2 = callback_reset a (upd_loop l (\<lambda>L. L\<lparr>lp_io := io_next w1 a\<rparr>) w1)
      in w2\<lparr>op_active := (op_active w2)(a := False)\<rparr>)"

definition io_suspend :: "(addr \<Rightarrow> 'z world_scheme \<Rightarrow> (unit, 'z world_scheme) result) \<Rightarrow>
    (addr \<Rightarrow> 'z world_scheme \<Rightarrow> 'z world_scheme) \<Rightarrow> thread_id \<Rightarrow> addr \<Rightarrow> handle_id \<Rightarrow> 'z world_scheme \<Rightarrow> (bool, 'z world_scheme) result" where
  "io_suspend submit retire t a h w =
     (let l = op_owner w a in
      if \<not> loop_check t l w then (Inl wrong_thread, w)
      else if (case io_busy w a of None \<Rightarrow> False | Some s \<Rightarrow> busy_slot w s)
        then (Inl (Logic_Error ''socket direction already in use''), w)
      else
        case loop_arm t l a (op_token w a) w of
          (Inl e, w1) \<Rightarrow> (Inl e, w1)
        | (Inr False, w1) \<Rightarrow> (Inr False, w1)
        | (Inr True, w1) \<Rightarrow>
            (let w2 = io_reserve a w1;
                 w3 = io_link l a (w2\<lparr>op_handle := (op_handle w2)(a := h)\<rparr>) in
             if io_size w3 a = 0 \<and> (io_code w3 a = Op_Read \<or> io_code w3 a = Op_Write)
             then (Inr True, loop_complete retire l a w3)
             else
               case submit a w3 of
                 (Inr _, w4) \<Rightarrow> (Inr True, w4)
               | (Inl e, w4) \<Rightarrow> (Inl e, io_rollback l a w4)))"

text \<open>\<^verbatim>\<open>io::await_resume\<close> and \<^verbatim>\<open>~io\<close> give the socket direction back.\<close>

definition io_release :: "addr \<Rightarrow> 'z world_scheme \<Rightarrow> 'z world_scheme" where
  "io_release a w =
     (if io_reserved w a then
        (case io_busy w a of
           None \<Rightarrow> w
         | Some s \<Rightarrow> w\<lparr>busy_slot := (busy_slot w)(s := False), io_reserved := (io_reserved w)(a := False)\<rparr>)
      else w)"

subsection \<open>Deadlines\<close>

text \<open>\<^verbatim>\<open>clock::time_point\<close> counts nanoseconds in a signed 64-bit integer.\<close>

definition time_max :: int where
  "time_max = 2 ^ 63 - 1"

definition sleep_due :: "int \<Rightarrow> int \<Rightarrow> int" where
  "sleep_due now delay =
     (let room = time_max - now in
      if delay \<le> 0 then now else if delay \<ge> room then time_max else now + delay)"

end
