(* ===== verification/Loop_Inv.thy ===== *)
theory Loop_Inv
  imports Loop
begin

text \<open>
  The invariant of a loop: its intrusive lists are well formed, no operation is in two of
  them, and an operation is active exactly while it is pending.  Every operation of the
  theory \<open>Loop\<close> keeps it, with the effect on the lists that the source intends.
\<close>

named_theorems world_defs \<open>definitions that unfold to updates of the world record\<close>

declare upd_loop_def [world_defs] set_error_def [world_defs] loop_wake_def [world_defs]

subsection \<open>Frame facts\<close>

lemma upd_loop_other [simp]: "l' \<noteq> l \<Longrightarrow> loops (upd_loop l f w) l' = loops w l'"
  by (simp add: upd_loop_def)

lemma ready_push_frame [simp]:
  "m_next (ready_push l a w) = m_next w" "op_handle (ready_push l a w) = op_handle w"
  "op_owner (ready_push l a w) = op_owner w" "op_error (ready_push l a w) = op_error w"
  "op_canceled (ready_push l a w) = op_canceled w" "op_active (ready_push l a w) = op_active w"
  "op_callback (ready_push l a w) = op_callback w" "op_token (ready_push l a w) = op_token w"
  "tm_due (ready_push l a w) = tm_due w" "wt_next (ready_push l a w) = wt_next w"
  "wt_prev (ready_push l a w) = wt_prev w" "io_next (ready_push l a w) = io_next w"
  "io_prev (ready_push l a w) = io_prev w" "stop_flag (ready_push l a w) = stop_flag w"
  "stop_cbs (ready_push l a w) = stop_cbs w" "clock_now (ready_push l a w) = clock_now w"
  "wt_interruptible (ready_push l a w) = wt_interruptible w" "wt_hook (ready_push l a w) = wt_hook w"
  "io_hook (ready_push l a w) = io_hook w" "io_cancel_sent (ready_push l a w) = io_cancel_sent w"
  "current_loop (ready_push l a w) = current_loop w"
  "lp_timers (loops (ready_push l a w) k) = lp_timers (loops w k)"
  "lp_waits (loops (ready_push l a w) k) = lp_waits (loops w k)"
  "lp_io (loops (ready_push l a w) k) = lp_io (loops w k)"
  "lp_stopping (loops (ready_push l a w) k) = lp_stopping (loops w k)"
  "lp_cancel (loops (ready_push l a w) k) = lp_cancel (loops w k)"
  "lp_thread (loops (ready_push l a w) k) = lp_thread (loops w k)"
  "lp_messages (loops (ready_push l a w) k) = lp_messages (loops w k)"
  "lp_posts (loops (ready_push l a w) k) = lp_posts (loops w k)"
  "lp_signals (loops (ready_push l a w) k) = lp_signals (loops w k)"
  "lp_roots (loops (ready_push l a w) k) = lp_roots (loops w k)"
  "lp_holds (loops (ready_push l a w) k) = lp_holds (loops w k)"
  "lp_budget (loops (ready_push l a w) k) = lp_budget (loops w k)"
  "lp_error (loops (ready_push l a w) k) = lp_error (loops w k)"
  "lp_running (loops (ready_push l a w) k) = lp_running (loops w k)"
  by (simp_all add: ready_push_def upd_loop_def split: prod.splits)

lemma callback_reset_frame [simp]:
  "m_next (callback_reset a w) = m_next w" "op_handle (callback_reset a w) = op_handle w"
  "op_owner (callback_reset a w) = op_owner w" "op_error (callback_reset a w) = op_error w"
  "op_canceled (callback_reset a w) = op_canceled w" "op_active (callback_reset a w) = op_active w"
  "op_token (callback_reset a w) = op_token w" "r_next (callback_reset a w) = r_next w"
  "tm_due (callback_reset a w) = tm_due w" "wt_next (callback_reset a w) = wt_next w"
  "wt_prev (callback_reset a w) = wt_prev w" "io_next (callback_reset a w) = io_next w"
  "io_prev (callback_reset a w) = io_prev w" "stop_flag (callback_reset a w) = stop_flag w"
  "clock_now (callback_reset a w) = clock_now w" "loops (callback_reset a w) = loops w"
  "wt_interruptible (callback_reset a w) = wt_interruptible w" "wt_hook (callback_reset a w) = wt_hook w"
  "io_hook (callback_reset a w) = io_hook w" "io_cancel_sent (callback_reset a w) = io_cancel_sent w"
  "current_loop (callback_reset a w) = current_loop w"
  by (simp_all add: callback_reset_def split: option.splits)

lemma callback_reset_callback [simp]: "op_callback (callback_reset a w) = (op_callback w)(a := None)"
  by (auto simp: callback_reset_def split: option.splits)

lemma loop_finish_frame [simp]:
  "m_next (loop_finish l a w) = m_next w" "op_handle (loop_finish l a w) = op_handle w"
  "op_owner (loop_finish l a w) = op_owner w" "op_error (loop_finish l a w) = op_error w"
  "op_canceled (loop_finish l a w) = op_canceled w"
  "op_active (loop_finish l a w) = (op_active w)(a := False)"
  "op_callback (loop_finish l a w) = (op_callback w)(a := None)"
  "op_token (loop_finish l a w) = op_token w"
  "tm_due (loop_finish l a w) = tm_due w" "wt_next (loop_finish l a w) = wt_next w"
  "wt_prev (loop_finish l a w) = wt_prev w" "io_next (loop_finish l a w) = io_next w"
  "io_prev (loop_finish l a w) = io_prev w" "stop_flag (loop_finish l a w) = stop_flag w"
  "clock_now (loop_finish l a w) = clock_now w"
  "wt_interruptible (loop_finish l a w) = wt_interruptible w" "wt_hook (loop_finish l a w) = wt_hook w"
  "io_hook (loop_finish l a w) = io_hook w" "io_cancel_sent (loop_finish l a w) = io_cancel_sent w"
  "current_loop (loop_finish l a w) = current_loop w"
  "lp_timers (loops (loop_finish l a w) k) = lp_timers (loops w k)"
  "lp_waits (loops (loop_finish l a w) k) = lp_waits (loops w k)"
  "lp_io (loops (loop_finish l a w) k) = lp_io (loops w k)"
  "lp_stopping (loops (loop_finish l a w) k) = lp_stopping (loops w k)"
  "lp_cancel (loops (loop_finish l a w) k) = lp_cancel (loops w k)"
  "lp_thread (loops (loop_finish l a w) k) = lp_thread (loops w k)"
  "lp_messages (loops (loop_finish l a w) k) = lp_messages (loops w k)"
  "lp_posts (loops (loop_finish l a w) k) = lp_posts (loops w k)"
  "lp_signals (loops (loop_finish l a w) k) = lp_signals (loops w k)"
  "lp_roots (loops (loop_finish l a w) k) = lp_roots (loops w k)"
  "lp_holds (loops (loop_finish l a w) k) = lp_holds (loops w k)"
  "lp_budget (loops (loop_finish l a w) k) = lp_budget (loops w k)"
  "lp_error (loops (loop_finish l a w) k) = lp_error (loops w k)"
  "lp_running (loops (loop_finish l a w) k) = lp_running (loops w k)"
  by (simp_all add: loop_finish_def Let_def)

subsection \<open>The invariant\<close>

text \<open>
  Loop \<open>l\<close> has \<open>rs\<close> ready, \<open>ts\<close> as its timer heap, \<open>ws\<close> waiting and \<open>ns\<close> native requests
  pending.  \<open>A\<close> holds operations that are between two lists inside one operation of the
  source; between operations it is empty.
\<close>

definition loop_rep :: "'z world_scheme \<Rightarrow> loop_id \<Rightarrow> addr set \<Rightarrow> addr list \<Rightarrow> addr list \<Rightarrow> addr list \<Rightarrow> addr list \<Rightarrow> bool" where
  "loop_rep w l A rs ts ws ns \<longleftrightarrow>
     rq_rep (r_next w, lp_ready (loops w l)) rs \<and>
     lp_timers (loops w l) = ts \<and> is_heap (tm_due w) ts \<and>
     dll ((wt_next w, wt_prev w), lp_waits (loops w l)) ws \<and>
     dll ((io_next w, io_prev w), lp_io (loops w l)) ns \<and>
     distinct (rs @ ts @ ws @ ns) \<and> A \<inter> set (rs @ ts @ ws @ ns) = {} \<and>
     (\<forall>a \<in> A \<union> set (rs @ ts @ ws @ ns). op_owner w a = l) \<and>
     (\<forall>a. op_owner w a = l \<longrightarrow> (op_active w a \<longleftrightarrow> a \<in> A \<union> set (ts @ ws @ ns))) \<and>
     (\<forall>a. op_owner w a = l \<and> a \<notin> set rs \<longrightarrow> r_next w a = None)"

definition loop_inv :: "'z world_scheme \<Rightarrow> loop_id \<Rightarrow> bool" where
  "loop_inv w l \<longleftrightarrow> (\<exists>rs ts ws ns. loop_rep w l {} rs ts ws ns)"

text \<open>An operation that may be suspended: it belongs to the loop and is in none of its lists.\<close>

definition op_fresh :: "'z world_scheme \<Rightarrow> loop_id \<Rightarrow> addr \<Rightarrow> bool" where
  "op_fresh w l a \<longleftrightarrow>
     op_owner w a = l \<and> \<not> op_active w a \<and> r_next w a = None \<and> rq_tail (lp_ready (loops w l)) \<noteq> Some a"

lemma loop_repD:
  assumes "loop_rep w l A rs ts ws ns"
  shows "rq_rep (r_next w, lp_ready (loops w l)) rs" "lp_timers (loops w l) = ts"
    "is_heap (tm_due w) ts" "dll ((wt_next w, wt_prev w), lp_waits (loops w l)) ws"
    "dll ((io_next w, io_prev w), lp_io (loops w l)) ns" "distinct (rs @ ts @ ws @ ns)"
    "A \<inter> set (rs @ ts @ ws @ ns) = {}" "\<And>a. a \<in> A \<union> set (rs @ ts @ ws @ ns) \<Longrightarrow> op_owner w a = l"
    "\<And>a. op_owner w a = l \<Longrightarrow> op_active w a \<longleftrightarrow> a \<in> A \<union> set (ts @ ws @ ns)"
    "\<And>a. op_owner w a = l \<Longrightarrow> a \<notin> set rs \<Longrightarrow> r_next w a = None"
  using assms unfolding loop_rep_def by blast+

lemma op_fresh_notin:
  assumes "loop_rep w l A rs ts ws ns" and "op_fresh w l a"
  shows "a \<notin> A \<union> set (rs @ ts @ ws @ ns)"
proof -
  note r = loop_repD [OF assms(1)]
  have "a \<notin> set rs"
  proof
    assume "a \<in> set rs"
    then obtain us vs where "rs = us @ a # vs" by (meson split_list)
    moreover have "chain (r_next w) (rq_head (lp_ready (loops w l))) rs"
      and t: "rq_tail (lp_ready (loops w l)) = last_opt rs"
      using r(1) by (auto simp: rq_rep_def)
    ultimately have "vs = []" using assms(2) chain_next [of "r_next w" _ us a vs]
      by (auto simp: op_fresh_def)
    with t \<open>rs = us @ a # vs\<close> assms(2) show False by (simp add: op_fresh_def)
  qed
  moreover have "a \<notin> A \<union> set (ts @ ws @ ns)"
    using r(9) [of a] assms(2) by (auto simp: op_fresh_def)
  ultimately show ?thesis by auto
qed

text \<open>The lists depend only on these fields of the loop's own operations.\<close>

lemma loop_rep_cong:
  assumes "loop_rep w l A rs ts ws ns"
    and "\<And>a. op_owner w a = l \<longleftrightarrow> op_owner w' a = l"
    and "\<And>a. op_owner w a = l \<Longrightarrow> r_next w' a = r_next w a \<and> wt_next w' a = wt_next w a \<and>
       wt_prev w' a = wt_prev w a \<and> io_next w' a = io_next w a \<and> io_prev w' a = io_prev w a \<and>
       op_active w' a = op_active w a \<and> tm_due w' a = tm_due w a"
    and "lp_ready (loops w' l) = lp_ready (loops w l)" and "lp_timers (loops w' l) = lp_timers (loops w l)"
    and "lp_waits (loops w' l) = lp_waits (loops w l)" and "lp_io (loops w' l) = lp_io (loops w l)"
  shows "loop_rep w' l A rs ts ws ns"
proof -
  note r = loop_repD [OF assms(1)]
  have own: "op_owner w a = l" if "a \<in> set (rs @ ts @ ws @ ns)" for a using r(8) that by auto
  have "rq_rep (r_next w', lp_ready (loops w' l)) rs"
    using r(1) assms(3,4) own seg_cong [of rs "r_next w" "r_next w'"] by (auto simp: rq_rep_def)
  moreover have "is_heap (tm_due w') ts"
    using r(3) assms(3) own parent_less
    by (auto simp: is_heap_def) (metis (no_types, lifting) less_trans nth_mem)
  moreover have "dll ((wt_next w', wt_prev w'), lp_waits (loops w' l)) ws"
    using r(4) assms(3,6) own seg_cong [of ws "wt_next w" "wt_next w'"]
      prevs_cong [of ws "wt_prev w" "wt_prev w'"] by (auto simp: dll_def)
  moreover have "dll ((io_next w', io_prev w'), lp_io (loops w' l)) ns"
    using r(5) assms(3,7) own seg_cong [of ns "io_next w" "io_next w'"]
      prevs_cong [of ns "io_prev w" "io_prev w'"] by (auto simp: dll_def)
  ultimately show ?thesis
    using r(2,6,7,8,9,10) assms(2,3,5) unfolding loop_rep_def by auto
qed

subsection \<open>One list at a time\<close>

lemma ready_push_rq:
  assumes "rq_rep (r_next w, lp_ready (loops w l)) rs" and "a \<notin> set rs" and "r_next w a = None"
  shows "rq_rep (r_next (ready_push l a w), lp_ready (loops (ready_push l a w) l)) (rs @ [a])"
    and "\<And>b. b \<notin> set rs \<Longrightarrow> r_next (ready_push l a w) b = r_next w b"
proof -
  obtain nx q where p: "rq_push a (r_next w, lp_ready (loops w l)) = (nx, q)" by fastforce
  then have e: "r_next (ready_push l a w) = nx" "lp_ready (loops (ready_push l a w) l) = q"
    by (simp_all add: ready_push_def upd_loop_def)
  show "rq_rep (r_next (ready_push l a w), lp_ready (loops (ready_push l a w) l)) (rs @ [a])"
    using rq_rep_push [OF assms(1,2)] assms(3) p e by (simp add: rq_push_assert_def)
  show "r_next (ready_push l a w) b = r_next w b" if "b \<notin> set rs" for b
    using rq_push_frame [OF assms(1) p that] e by simp
qed

lemma rep_ready_push:
  assumes "loop_rep w l A rs ts ws ns" and "op_owner w a = l" and "a \<notin> A \<union> set (rs @ ts @ ws @ ns)"
  shows "loop_rep (ready_push l a w) l A (rs @ [a]) ts ws ns"
proof -
  note r = loop_repD [OF assms(1)]
  have "a \<notin> set rs" using assms(3) by auto
  note p = ready_push_rq [OF r(1) this r(10) [OF assms(2) this]]
  show ?thesis
    unfolding loop_rep_def using r p assms(2,3) by auto
qed

lemma rep_finish:
  assumes "loop_rep w l (insert a A) rs ts ws ns" and "a \<notin> A"
  shows "loop_rep (loop_finish l a w) l A (rs @ [a]) ts ws ns"
proof -
  note r = loop_repD [OF assms(1)]
  let ?w = "(callback_reset a w)\<lparr>op_active := (op_active (callback_reset a w))(a := False)\<rparr>"
  have "loop_rep ?w l A rs ts ws ns"
    unfolding loop_rep_def using r assms(2) by auto
  then have "loop_rep (ready_push l a ?w) l A (rs @ [a]) ts ws ns"
    using r(7,8) assms(2) by (intro rep_ready_push) auto
  then show ?thesis by (simp add: loop_finish_def Let_def)
qed

lemma rep_activate:
  assumes "loop_rep w l A rs ts ws ns" and "op_owner w a = l" and "a \<notin> A \<union> set (rs @ ts @ ws @ ns)"
  shows "loop_rep (w\<lparr>op_active := (op_active w)(a := True)\<rparr>) l (insert a A) rs ts ws ns"
  using loop_repD [OF assms(1)] assms(2,3) unfolding loop_rep_def by auto

lemma rep_wait_unlink:
  assumes rep: "loop_rep w l A rs ts ws ns" and a: "a \<in> set ws"
  shows "loop_rep (wait_unlink a w) l (insert a A) rs ts (remove1 a ws) ns"
proof -
  note r = loop_repD [OF rep]
  have own: "op_owner w a = l" using r(8) a by auto
  obtain nx pv first where
    u: "dl_unlink a ((wt_next w, wt_prev w), lp_waits (loops w l)) = ((nx, pv), first)"
    by (metis surj_pair)
  with dll_unlink [OF r(4) a] have "dll ((nx, pv), first) (remove1 a ws)" by simp
  then show ?thesis
    unfolding loop_rep_def wait_unlink_def upd_loop_def using r own a u
    by (auto simp: set_remove1_eq distinct_remove1)
qed

lemma rep_wait_link:
  assumes rep: "loop_rep w l (insert a A) rs ts ws ns" and a: "a \<notin> A" and pv: "wt_prev w a = None"
  shows "loop_rep (wait_link a w) l A rs ts (a # ws) ns"
proof -
  note r = loop_repD [OF rep]
  have own: "op_owner w a = l" and n: "a \<notin> set ws" using r(7,8) by auto
  obtain nx pv' first where
    u: "dl_push_front a ((wt_next w, wt_prev w), lp_waits (loops w l)) = ((nx, pv'), first)"
    by (metis surj_pair)
  with dll_push_front [OF r(4) n pv] have "dll ((nx, pv'), first) (a # ws)" by simp
  then show ?thesis
    unfolding loop_rep_def wait_link_def upd_loop_def using r own n a u by auto
qed

lemma rep_io_unlink:
  assumes rep: "loop_rep w l A rs ts ws ns" and a: "a \<in> set ns"
  shows "loop_rep (io_unlink l a w) l (insert a A) rs ts ws (remove1 a ns)"
proof -
  note r = loop_repD [OF rep]
  obtain nx pv first where
    u: "dl_unlink a ((io_next w, io_prev w), lp_io (loops w l)) = ((nx, pv), first)"
    by (metis surj_pair)
  with dll_unlink [OF r(5) a] have "dll ((nx, pv), first) (remove1 a ns)" by simp
  then show ?thesis
    unfolding loop_rep_def io_unlink_def upd_loop_def using r a u
    by (auto simp: set_remove1_eq distinct_remove1)
qed

lemma rep_io_link:
  assumes rep: "loop_rep w l (insert a A) rs ts ws ns" and a: "a \<notin> A" and pv: "io_prev w a = None"
  shows "loop_rep (io_link l a w) l A rs ts ws (a # ns)"
proof -
  note r = loop_repD [OF rep]
  have n: "a \<notin> set ns" using r(7) by auto
  obtain nx pv' first where
    u: "dl_push_front a ((io_next w, io_prev w), lp_io (loops w l)) = ((nx, pv'), first)"
    by (metis surj_pair)
  with dll_push_front [OF r(5) n pv] have "dll ((nx, pv'), first) (a # ns)" by simp
  then show ?thesis
    unfolding loop_rep_def io_link_def upd_loop_def using r n a u by auto
qed

lemma mset_eq_distinct_set:
  assumes "mset ys = mset xs" shows "set ys = set xs" and "distinct ys \<longleftrightarrow> distinct xs"
  using assms mset_eq_setD mset_eq_imp_distinct_iff by blast+

lemma rep_set_timers:
  assumes rep: "loop_rep w l A rs ts ws ns" and m: "mset ts = add_mset a (mset ts')"
    and h: "is_heap (tm_due w) ts'"
  shows "loop_rep (upd_loop l (\<lambda>L. L\<lparr>lp_timers := ts'\<rparr>) w) l (insert a A) rs ts' ws ns"
proof -
  note r = loop_repD [OF rep]
  have "mset ts = mset (a # ts')" using m by simp
  note s = mset_eq_distinct_set [OF this]
  show ?thesis
    unfolding loop_rep_def upd_loop_def using r s h by auto
qed

lemma rep_add_timer:
  assumes rep: "loop_rep w l (insert a A) rs ts ws ns" and a: "a \<notin> A"
    and m: "mset ts' = add_mset a (mset ts)" and h: "is_heap (tm_due w) ts'"
  shows "loop_rep (upd_loop l (\<lambda>L. L\<lparr>lp_timers := ts'\<rparr>) w) l A rs ts' ws ns"
proof -
  note r = loop_repD [OF rep]
  have "mset ts' = mset (a # ts)" using m by simp
  note s = mset_eq_distinct_set [OF this]
  show ?thesis
    unfolding loop_rep_def upd_loop_def using r s h a by auto
qed

subsection \<open>The operations of the loop\<close>

text \<open>What \<^const>\<open>loop_arm\<close> writes when it accepts the operation.\<close>

definition armed :: "addr \<Rightarrow> token_id option \<Rightarrow> 'z world_scheme \<Rightarrow> 'z world_scheme" where
  "armed a k w =
     (case k of
        None \<Rightarrow> w\<lparr>op_active := (op_active w)(a := True)\<rparr>
      | Some t \<Rightarrow> w\<lparr>op_callback := (op_callback w)(a := Some t),
                    stop_cbs := (stop_cbs w)(t := a # stop_cbs w t),
                    op_active := (op_active w)(a := True)\<rparr>)"

lemma loop_arm_eq:
  "loop_arm t l a k w =
     (if \<not> loop_check t l w then (Inl wrong_thread, w)
      else if loop_stopped l w \<or> stop_requested k w
        then (Inr False, set_error a (Some Operation_Canceled) w)
      else (Inr True, armed a k w))"
  by (auto simp: loop_arm_def armed_def callback_emplace_def stop_requested_def Let_def
      split: option.splits)

lemma armed_frame [simp]:
  "loops (armed a k w) = loops w" "r_next (armed a k w) = r_next w" "m_next (armed a k w) = m_next w"
  "op_owner (armed a k w) = op_owner w" "op_error (armed a k w) = op_error w"
  "op_canceled (armed a k w) = op_canceled w" "op_handle (armed a k w) = op_handle w"
  "op_active (armed a k w) = (op_active w)(a := True)" "op_token (armed a k w) = op_token w"
  "tm_due (armed a k w) = tm_due w" "wt_next (armed a k w) = wt_next w" "wt_prev (armed a k w) = wt_prev w"
  "io_next (armed a k w) = io_next w" "io_prev (armed a k w) = io_prev w"
  "stop_flag (armed a k w) = stop_flag w" "wt_interruptible (armed a k w) = wt_interruptible w"
  "io_hook (armed a k w) = io_hook w" "io_size (armed a k w) = io_size w"
  "io_code (armed a k w) = io_code w" "io_busy (armed a k w) = io_busy w"
  "busy_slot (armed a k w) = busy_slot w" "io_reserved (armed a k w) = io_reserved w"
  by (simp_all add: armed_def split: option.splits)

lemma rep_armed:
  assumes "loop_rep w l {} rs ts ws ns" and "op_fresh w l a"
  shows "loop_rep (armed a k w) l {a} rs ts ws ns"
proof -
  have "op_owner w a = l" using assms(2) by (simp add: op_fresh_def)
  from rep_activate [OF assms(1) this op_fresh_notin [OF assms]]
  have r: "loop_rep (w\<lparr>op_active := (op_active w)(a := True)\<rparr>) l {a} rs ts ws ns" by simp
  show ?thesis by (rule loop_rep_cong [OF r]) auto
qed

lemma rep_handle:
  assumes "loop_rep w l A rs ts ws ns"
  shows "loop_rep (w\<lparr>op_handle := f\<rparr>) l A rs ts ws ns"
  by (rule loop_rep_cong [OF assms]) auto

lemma rep_set_error:
  assumes "loop_rep w l A rs ts ws ns"
  shows "loop_rep (set_error a e w) l A rs ts ws ns"
  by (rule loop_rep_cong [OF assms]) (auto simp: set_error_def)

text \<open>The guard of every cancelable suspension.\<close>

abbreviation refused :: "loop_id \<Rightarrow> token_id option \<Rightarrow> 'z world_scheme \<Rightarrow> bool" where
  "refused l k w \<equiv> loop_stopped l w \<or> stop_requested k w"

lemma wait_park_parks:
  assumes rep: "loop_rep w l {} rs ts ws ns" and fresh: "op_fresh w l a"
    and prev: "wt_prev w a = None" and thread: "loop_check t l w"
    and ok: "wt_interruptible w a \<Longrightarrow> \<not> refused l k w"
  obtains w' where "wait_park t a h k w = (Inr True, w')" and "loop_rep w' l {} rs ts (a # ws) ns"
    and "op_handle w' a = h" and "op_error w' = op_error w" and "op_canceled w' = op_canceled w"
    and "op_owner w' = op_owner w" and "lp_stopping (loops w' l) = lp_stopping (loops w l)"
proof -
  have own: "op_owner w a = l" using fresh by (simp add: op_fresh_def)
  let ?w1 = "if wt_interruptible w a then armed a k w else w"
  let ?w2 = "?w1\<lparr>op_active := (op_active ?w1)(a := True), op_handle := (op_handle ?w1)(a := h)\<rparr>"
  have e: "wait_park t a h k w = (Inr True, wait_link a ?w2)"
    using own thread ok by (simp add: wait_park_def Let_def loop_arm_eq)
  have "loop_rep (armed a None w) l {a} rs ts ws ns" by (rule rep_armed [OF rep fresh])
  then have "loop_rep ?w2 l {a} rs ts ws ns" by (rule loop_rep_cong) auto
  then have r: "loop_rep (wait_link a ?w2) l {} rs ts (a # ws) ns"
    using prev by (intro rep_wait_link) auto
  show thesis
    by (rule that [OF e r])
      (auto simp: wait_link_def dl_push_front_def upd_loop_def split: prod.splits)
qed

lemma wait_park_refused:
  assumes "loop_check t (op_owner w a) w" and "wt_interruptible w a" and "refused (op_owner w a) k w"
  shows "wait_park t a h k w = (Inr False, set_error a (Some Operation_Canceled) w)"
  using assms by (auto simp: wait_park_def Let_def loop_arm_eq)

lemma wait_notify_retired: "\<not> op_active w a \<Longrightarrow> wait_notify a w = w"
  by (simp add: wait_notify_def)

lemma wait_unlink_frame [simp]:
  "op_owner (wait_unlink a w) = op_owner w" "op_error (wait_unlink a w) = op_error w"
  "op_canceled (wait_unlink a w) = op_canceled w" "op_active (wait_unlink a w) = op_active w"
  "op_callback (wait_unlink a w) = op_callback w" "tm_due (wait_unlink a w) = tm_due w"
  "op_handle (wait_unlink a w) = op_handle w" "op_token (wait_unlink a w) = op_token w"
  "m_next (wait_unlink a w) = m_next w" "r_next (wait_unlink a w) = r_next w"
  "io_next (wait_unlink a w) = io_next w" "io_prev (wait_unlink a w) = io_prev w"
  "stop_flag (wait_unlink a w) = stop_flag w" "wt_interruptible (wait_unlink a w) = wt_interruptible w"
  "wt_hook (wait_unlink a w) = wt_hook w" "io_hook (wait_unlink a w) = io_hook w"
  "io_cancel_sent (wait_unlink a w) = io_cancel_sent w" "clock_now (wait_unlink a w) = clock_now w"
  "lp_timers (loops (wait_unlink a w) k) = lp_timers (loops w k)"
  "lp_ready (loops (wait_unlink a w) k) = lp_ready (loops w k)"
  "lp_io (loops (wait_unlink a w) k) = lp_io (loops w k)"
  "lp_stopping (loops (wait_unlink a w) k) = lp_stopping (loops w k)"
  "lp_cancel (loops (wait_unlink a w) k) = lp_cancel (loops w k)"
  "lp_thread (loops (wait_unlink a w) k) = lp_thread (loops w k)"
  "lp_messages (loops (wait_unlink a w) k) = lp_messages (loops w k)"
  "lp_posts (loops (wait_unlink a w) k) = lp_posts (loops w k)"
  "lp_signals (loops (wait_unlink a w) k) = lp_signals (loops w k)"
  "lp_roots (loops (wait_unlink a w) k) = lp_roots (loops w k)"
  "lp_holds (loops (wait_unlink a w) k) = lp_holds (loops w k)"
  "lp_budget (loops (wait_unlink a w) k) = lp_budget (loops w k)"
  "lp_error (loops (wait_unlink a w) k) = lp_error (loops w k)"
  "lp_running (loops (wait_unlink a w) k) = lp_running (loops w k)"
  by (simp_all add: wait_unlink_def upd_loop_def split: prod.splits)

lemma wait_notify_frame [simp]:
  "op_owner (wait_notify a w) = op_owner w" "op_error (wait_notify a w) = op_error w"
  "op_canceled (wait_notify a w) = op_canceled w"
  "op_active (wait_notify a w) = (op_active w)(a := False)"
  "op_handle (wait_notify a w) = op_handle w" "op_token (wait_notify a w) = op_token w"
  "tm_due (wait_notify a w) = tm_due w" "m_next (wait_notify a w) = m_next w"
  "io_next (wait_notify a w) = io_next w" "io_prev (wait_notify a w) = io_prev w"
  "stop_flag (wait_notify a w) = stop_flag w" "wt_interruptible (wait_notify a w) = wt_interruptible w"
  "wt_hook (wait_notify a w) = wt_hook w" "io_hook (wait_notify a w) = io_hook w"
  "io_cancel_sent (wait_notify a w) = io_cancel_sent w" "clock_now (wait_notify a w) = clock_now w"
  "lp_timers (loops (wait_notify a w) k) = lp_timers (loops w k)"
  "lp_io (loops (wait_notify a w) k) = lp_io (loops w k)"
  "lp_stopping (loops (wait_notify a w) k) = lp_stopping (loops w k)"
  "lp_cancel (loops (wait_notify a w) k) = lp_cancel (loops w k)"
  "lp_thread (loops (wait_notify a w) k) = lp_thread (loops w k)"
  "lp_messages (loops (wait_notify a w) k) = lp_messages (loops w k)"
  "lp_posts (loops (wait_notify a w) k) = lp_posts (loops w k)"
  "lp_signals (loops (wait_notify a w) k) = lp_signals (loops w k)"
  "lp_roots (loops (wait_notify a w) k) = lp_roots (loops w k)"
  "lp_holds (loops (wait_notify a w) k) = lp_holds (loops w k)"
  "lp_budget (loops (wait_notify a w) k) = lp_budget (loops w k)"
  "lp_error (loops (wait_notify a w) k) = lp_error (loops w k)"
  "lp_running (loops (wait_notify a w) k) = lp_running (loops w k)"
  by (auto simp: wait_notify_def Let_def fun_eq_iff)

lemma rep_wait_notify:
  assumes rep: "loop_rep w l A rs ts ws ns" and a: "a \<in> set ws"
  shows "loop_rep (wait_notify a w) l A (rs @ [a]) ts (remove1 a ws) ns"
proof -
  note r = loop_repD [OF rep]
  have own: "op_owner w a = l" and n: "a \<notin> A" using r(7,8) a by auto
  have act: "op_active w a" using r(9) [OF own] a by auto
  have "loop_rep (wait_unlink a w) l (insert a A) rs ts (remove1 a ws) ns"
    by (rule rep_wait_unlink [OF rep a])
  from rep_finish [OF this n] show ?thesis using own act by (simp add: wait_notify_def Let_def)
qed

lemma timer_suspend_arms:
  assumes rep: "loop_rep w l {} rs ts ws ns" and fresh: "op_fresh w l a"
    and thread: "loop_check t l w" and ok: "\<not> refused l (op_token w a) w"
  obtains w' ts' where "timer_suspend t a h w = (Inr True, w')" and "loop_rep w' l {} rs ts' ws ns"
    and "mset ts' = add_mset a (mset ts)" and "op_handle w' a = h" and "op_error w' = op_error w"
proof -
  have own: "op_owner w a = l" using fresh by (simp add: op_fresh_def)
  note r = loop_repD [OF rep]
  let ?ts = "push_heap (tm_due w) (ts @ [a])"
  let ?w1 = "upd_loop l (\<lambda>L. L\<lparr>lp_timers := lp_timers L @ [a]\<rparr>) w"
  let ?w2 = "armed a (op_token w a) ?w1"
  let ?w3 = "upd_loop l (\<lambda>L. L\<lparr>lp_timers := push_heap (tm_due ?w2) (lp_timers L)\<rparr>)
      (?w2\<lparr>op_handle := (op_handle ?w2)(a := h)\<rparr>)"
  have e: "timer_suspend t a h w = (Inr True, ?w3)"
    using own thread ok
    by (simp add: timer_suspend_def Let_def loop_arm_eq loop_check_def loop_stopped_def
        stop_requested_def upd_loop_def split: option.splits)
  have h: "is_heap (tm_due w) ?ts" "mset ?ts = add_mset a (mset ts)"
    using push_heap_correct [OF r(3)] by auto
  have "loop_rep ((armed a (op_token w a) w)\<lparr>op_handle := (op_handle w)(a := h)\<rparr>) l {a} rs ts ws ns"
    by (rule rep_handle [OF rep_armed [OF rep fresh]])
  from rep_add_timer [OF this _ h(2)] h(1)
  have "loop_rep (upd_loop l (\<lambda>L. L\<lparr>lp_timers := ?ts\<rparr>)
      ((armed a (op_token w a) w)\<lparr>op_handle := (op_handle w)(a := h)\<rparr>)) l {} rs ?ts ws ns" by simp
  then have "loop_rep ?w3 l {} rs ?ts ws ns"
    by (rule loop_rep_cong) (use r(2) in \<open>auto simp: upd_loop_def\<close>)
  with e h(2) show thesis by (intro that [of ?w3 ?ts]) (auto simp: upd_loop_def)
qed

lemma timer_suspend_refused:
  assumes "loop_check t (op_owner w a) w" and "refused (op_owner w a) (op_token w a) w"
  shows "timer_suspend t a h w = (Inr False, set_error a (Some Operation_Canceled) w)"
  using assms
  by (auto simp: timer_suspend_def Let_def loop_arm_eq loop_check_def loop_stopped_def
      stop_requested_def upd_loop_def set_error_def split: option.splits)

lemma rep_complete:
  assumes rep: "loop_rep w l A rs ts ws ns" and a: "a \<in> set ns" and hook: "\<not> io_hook w a"
  shows "loop_rep (loop_complete retire l a w) l A (rs @ [a]) ts ws (remove1 a ns)"
proof -
  have n: "a \<notin> A" using loop_repD(7) [OF rep] a by auto
  have "io_hook (io_unlink l a w) a = io_hook w a"
    by (simp add: io_unlink_def upd_loop_def split: prod.splits)
  with rep_finish [OF rep_io_unlink [OF rep a] n] hook show ?thesis
    by (simp add: loop_complete_def Let_def)
qed

subsection \<open>Further frames\<close>

lemma set_error_frame [simp]:
  "op_canceled (set_error a e w) = op_canceled w" "op_active (set_error a e w) = op_active w"
  "op_owner (set_error a e w) = op_owner w" "loops (set_error a e w) = loops w"
  "tm_due (set_error a e w) = tm_due w" "wt_next (set_error a e w) = wt_next w"
  "wt_interruptible (set_error a e w) = wt_interruptible w" "wt_hook (set_error a e w) = wt_hook w"
  "io_next (set_error a e w) = io_next w" "clock_now (set_error a e w) = clock_now w"
  "m_next (set_error a e w) = m_next w" "r_next (set_error a e w) = r_next w"
  "io_cancel_sent (set_error a e w) = io_cancel_sent w"
  "op_error (set_error a e w) = (op_error w)(a := e)" "op_handle (set_error a e w) = op_handle w"
  "op_token (set_error a e w) = op_token w" "stop_flag (set_error a e w) = stop_flag w"
  by (simp_all add: set_error_def)

lemma upd_loop_frame [simp]:
  "tm_due (upd_loop l f w) = tm_due w" "clock_now (upd_loop l f w) = clock_now w"
  "op_error (upd_loop l f w) = op_error w" "op_canceled (upd_loop l f w) = op_canceled w"
  "op_owner (upd_loop l f w) = op_owner w" "op_active (upd_loop l f w) = op_active w"
  "op_handle (upd_loop l f w) = op_handle w" "r_next (upd_loop l f w) = r_next w"
  "m_next (upd_loop l f w) = m_next w" "wt_hook (upd_loop l f w) = wt_hook w"
  "wt_interruptible (upd_loop l f w) = wt_interruptible w" "stop_flag (upd_loop l f w) = stop_flag w"
  "current_loop (upd_loop l f w) = current_loop w" "loops (upd_loop l f w) l = f (loops w l)"
  "wt_prev (upd_loop l f w) = wt_prev w" "wt_next (upd_loop l f w) = wt_next w" "op_token (upd_loop l f w) = op_token w"
  by (simp_all add: upd_loop_def)

end
