(* ===== verification/Loop_Run.thy ===== *)
theory Loop_Run
  imports Loop_Inv
begin

text \<open>
  Scheduling (\<^verbatim>\<open>loop::expire\<close> and \<^verbatim>\<open>loop::run\<close> of \<^verbatim>\<open>loop.cpp\<close>).  What the loop calls and the
  source does not fix, posted functions, message bodies, coroutine resumption, and the
  native backend, are the fields of an environment record, so the scheduler is one set of
  definitions for all backends.  Loops that follow pointers are partial functions: a list
  that does not end makes the result \<^const>\<open>None\<close>; the lemmas show that well-formed lists end.
\<close>

subsection \<open>Definitions\<close>

record 'w env =
  env_call :: "nat \<Rightarrow> 'w \<Rightarrow> exn option \<times> 'w"
  env_deliver :: "addr \<Rightarrow> 'w \<Rightarrow> 'w"
  env_resume :: "handle_id \<Rightarrow> 'w \<Rightarrow> 'w"
  env_hook :: "addr \<Rightarrow> 'w \<Rightarrow> 'w"
  env_cancel :: "addr \<Rightarrow> 'w \<Rightarrow> (unit, 'w) result"
  env_poll :: "loop_id \<Rightarrow> int \<Rightarrow> 'w \<Rightarrow> (unit, 'w) result"

text \<open>The \<^verbatim>\<open>std::remove_if\<close> of \<^verbatim>\<open>expire\<close>: finish canceled timers, keep the others in order.\<close>

primrec cancel_timers :: "bool \<Rightarrow> loop_id \<Rightarrow> addr list \<Rightarrow> 'z world_scheme \<Rightarrow> addr list \<times> 'z world_scheme" where
  "cancel_timers all l [] w = ([], w)"
| "cancel_timers all l (t # ts) w =
     (if \<not> all \<and> \<not> op_canceled w t
      then (case cancel_timers all l ts w of (ks, w') \<Rightarrow> (t # ks, w'))
      else cancel_timers all l ts (loop_finish l t (set_error t (Some Operation_Canceled) w)))"

partial_function (option) cancel_ios ::
    "(addr \<Rightarrow> 'z world_scheme \<Rightarrow> (unit, 'z world_scheme) result) \<Rightarrow> bool \<Rightarrow> ptr \<Rightarrow> 'z world_scheme \<Rightarrow> (unit, 'z world_scheme) result option" where
  "cancel_ios cancel all p w =
     (case p of
        None \<Rightarrow> Some (Inr (), w)
      | Some a \<Rightarrow>
          (let nxt = io_next w a in
           if \<not> io_cancel_sent w a \<and> (all \<or> op_canceled w a)
           then (case cancel a w of
                   (r, w') \<Rightarrow> (case r of Inl e \<Rightarrow> Some (Inl e, w') | Inr u \<Rightarrow> cancel_ios cancel all nxt w'))
           else cancel_ios cancel all nxt w))"

definition cancel_wait :: "(addr \<Rightarrow> 'z world_scheme \<Rightarrow> 'z world_scheme) \<Rightarrow> bool \<Rightarrow> addr \<Rightarrow> 'z world_scheme \<Rightarrow> 'z world_scheme" where
  "cancel_wait hook all a w =
     (if wt_interruptible w a \<and> (all \<or> op_canceled w a)
      then (if wt_hook w a then hook a w
            else wait_notify a (set_error a (Some Operation_Canceled) w))
      else w)"

partial_function (option) cancel_waits ::
    "(addr \<Rightarrow> 'z world_scheme \<Rightarrow> 'z world_scheme) \<Rightarrow> bool \<Rightarrow> ptr \<Rightarrow> 'z world_scheme \<Rightarrow> 'z world_scheme option" where
  "cancel_waits hook all p w =
     (case p of
        None \<Rightarrow> Some w
      | Some a \<Rightarrow> (let nxt = wt_next w a in cancel_waits hook all nxt (cancel_wait hook all a w)))"

lemma pop_heap_length [simp]: "length (pop_heap k xs) = length xs"
  by (simp add: pop_heap_def)

text \<open>The last loop of \<^verbatim>\<open>expire\<close>: timers whose deadline has come, earliest first.\<close>

function expire_due :: "loop_id \<Rightarrow> int \<Rightarrow> 'z world_scheme \<Rightarrow> 'z world_scheme" where
  "expire_due l now w =
     (case lp_timers (loops w l) of
        [] \<Rightarrow> w
      | t # _ \<Rightarrow>
          if tm_due w t \<le> now
          then expire_due l now (loop_finish l t
                 (upd_loop l (\<lambda>L. L\<lparr>lp_timers := butlast (pop_heap (tm_due w) (lp_timers L))\<rparr>) w))
          else w)"
  by pat_completeness auto
termination
  by (relation "measure (\<lambda>(l, now, w). length (lp_timers (loops w l)))") (auto simp: upd_loop_def)

declare expire_due.simps [simp del]

definition loop_expire :: "'z world_scheme env \<Rightarrow> loop_id \<Rightarrow> 'z world_scheme \<Rightarrow> (unit, 'z world_scheme) result option" where
  "loop_expire env l w =
     (if lp_cancel (loops w l) then
        (let w0 = upd_loop l (\<lambda>L. L\<lparr>lp_cancel := False\<rparr>) w;
             all = lp_stopping (loops w0 l) in
         case cancel_timers all l (lp_timers (loops w0 l)) w0 of (ks, w1) \<Rightarrow>
           (let w2 = upd_loop l (\<lambda>L. L\<lparr>lp_timers := make_heap (tm_due w1) ks\<rparr>) w1 in
            case cancel_ios (env_cancel env) all (lp_io (loops w2 l)) w2 of
              None \<Rightarrow> None
            | Some (Inl e, w3) \<Rightarrow> Some (Inl e, w3)
            | Some (Inr _, w3) \<Rightarrow>
                (case cancel_waits (env_hook env) all (lp_waits (loops w3 l)) w3 of
                   None \<Rightarrow> None
                 | Some w4 \<Rightarrow> Some (Inr (), expire_due l (clock_now w4) w4))))
      else Some (Inr (), expire_due l (clock_now w) w))"

text \<open>Detach up to \<open>n\<close> messages into a local queue, under the post lock.\<close>

primrec take_messages :: "nat \<Rightarrow> loop_id \<Rightarrow> ready_queue \<Rightarrow> 'z world_scheme \<Rightarrow> ready_queue \<times> 'z world_scheme" where
  "take_messages 0 l q w = (q, w)"
| "take_messages (Suc n) l q w =
     (case rq_pop (m_next w, lp_messages (loops w l)) of (p, mx, mq) \<Rightarrow>
        (case p of
           None \<Rightarrow> (q, w)
         | Some a \<Rightarrow>
             (case rq_push a (mx, q) of (mx', q') \<Rightarrow>
                take_messages n l q' (upd_loop l (\<lambda>L. L\<lparr>lp_messages := mq\<rparr>) (w\<lparr>m_next := mx'\<rparr>)))))"

primrec run_posts :: "(nat \<Rightarrow> 'z world_scheme \<Rightarrow> exn option \<times> 'z world_scheme) \<Rightarrow> loop_id \<Rightarrow> nat list \<Rightarrow> 'z world_scheme \<Rightarrow> 'z world_scheme" where
  "run_posts call l [] w = w"
| "run_posts call l (f # fs) w =
     (case call f w of (r, w') \<Rightarrow>
        run_posts call l fs (case r of None \<Rightarrow> w' | Some e \<Rightarrow> loop_fail l e w'))"

partial_function (option) run_messages ::
    "(addr \<Rightarrow> 'z world_scheme \<Rightarrow> 'z world_scheme) \<Rightarrow> ready_queue \<Rightarrow> 'z world_scheme \<Rightarrow> 'z world_scheme option" where
  "run_messages deliver q w =
     (case rq_pop (m_next w, q) of (p, mx, q') \<Rightarrow>
        (case p of
           None \<Rightarrow> Some w
         | Some a \<Rightarrow> run_messages deliver q' (deliver a (w\<lparr>m_next := mx\<rparr>))))"

text \<open>Resume up to \<open>n\<close> ready coroutines.\<close>

primrec run_ready :: "nat \<Rightarrow> (handle_id \<Rightarrow> 'z world_scheme \<Rightarrow> 'z world_scheme) \<Rightarrow> loop_id \<Rightarrow> 'z world_scheme \<Rightarrow> 'z world_scheme" where
  "run_ready 0 resume l w = w"
| "run_ready (Suc n) resume l w =
     (case rq_pop (r_next w, lp_ready (loops w l)) of (p, rx, q) \<Rightarrow>
        (case p of
           None \<Rightarrow> w
         | Some a \<Rightarrow>
             run_ready n resume l
               (resume (op_handle w a) (upd_loop l (\<lambda>L. L\<lparr>lp_ready := q\<rparr>) (w\<lparr>r_next := rx\<rparr>)))))"

definition loop_posted :: "loop_state \<Rightarrow> bool" where
  "loop_posted L \<longleftrightarrow> lp_posts L \<noteq> [] \<or> \<not> rq_empty (lp_messages L)"

text \<open>The condition under which \<^verbatim>\<open>run\<close> leaves its loop.\<close>

definition loop_idle :: "loop_state \<Rightarrow> bool" where
  "loop_idle L \<longleftrightarrow>
     lp_roots L = 0 \<and> lp_io L = None \<and> lp_waits L = None \<and> lp_timers L = [] \<and>
     rq_empty (lp_ready L) \<and> \<not> loop_posted L \<and> (lp_holds L = 0 \<or> lp_stopping L)"

text \<open>The difference of two 64-bit time points, as the machine subtracts them.\<close>

definition time_diff :: "int \<Rightarrow> int \<Rightarrow> int" where
  "time_diff a b = sint (word_of_int (a - b) :: 64 word)"

text \<open>The time to block in the backend; \<open>-1\<close> blocks until an event.\<close>

definition poll_delay :: "loop_state \<Rightarrow> (addr \<Rightarrow> int) \<Rightarrow> int \<Rightarrow> int" where
  "poll_delay L due now =
     (if \<not> rq_empty (lp_ready L) \<or> loop_posted L then 0
      else case lp_timers L of [] \<Rightarrow> -1 | t # _ \<Rightarrow> max 0 (time_diff (due t) now))"

datatype tick = Tick_Break | Tick_Continue | Tick_Poll int

text \<open>The part of one iteration that follows the work: leave, go on, or block.\<close>

definition tick_next :: "loop_id \<Rightarrow> 'z world_scheme \<Rightarrow> tick" where
  "tick_next l w =
     (let L = loops w l in
      if loop_idle L then Tick_Break
      else if lp_io L = None \<and> (\<not> rq_empty (lp_ready L) \<or> loop_posted L) then Tick_Continue
      else Tick_Poll (poll_delay L (tm_due w) (clock_now w)))"

definition loop_tick :: "'z world_scheme env \<Rightarrow> loop_id \<Rightarrow> 'z world_scheme \<Rightarrow> (tick, 'z world_scheme) result option" where
  "loop_tick env l w =
     (let batch = lp_posts (loops w l);
          w1 = upd_loop l (\<lambda>L. L\<lparr>lp_posts := []\<rparr>) w in
      case take_messages (lp_budget (loops w1 l)) l rq_init w1 of (q, w2) \<Rightarrow>
        (let w3 = run_posts (env_call env) l batch w2 in
         case run_messages (env_deliver env) q w3 of
           None \<Rightarrow> None
         | Some w4 \<Rightarrow>
             (case loop_expire env l w4 of
                None \<Rightarrow> None
              | Some (Inl e, w5) \<Rightarrow> Some (Inl e, w5)
              | Some (Inr _, w5) \<Rightarrow>
                  (let w6 = run_ready (lp_budget (loops w5 l)) (env_resume env) l w5
                   in Some (Inr (tick_next l w6), w6)))))"

partial_function (option) run_loop :: "'z world_scheme env \<Rightarrow> loop_id \<Rightarrow> 'z world_scheme \<Rightarrow> (unit, 'z world_scheme) result option" where
  "run_loop env l w =
     (case loop_tick env l w of
        None \<Rightarrow> None
      | Some rw \<Rightarrow>
          (case rw of (r, w1) \<Rightarrow>
             (case r of
                Inl e \<Rightarrow> Some (Inl e, w1)
              | Inr tk \<Rightarrow>
                  (case tk of
                     Tick_Break \<Rightarrow> Some (Inr (), w1)
                   | Tick_Continue \<Rightarrow> run_loop env l w1
                   | Tick_Poll d \<Rightarrow>
                       (case env_poll env l d w1 of
                          (pr, w2) \<Rightarrow>
                            (case pr of Inl e \<Rightarrow> Some (Inl e, w2) | Inr u \<Rightarrow> run_loop env l w2))))))"

text \<open>Restore the thread's current loop and the running flag, on every way out.\<close>

definition run_leave :: "thread_id \<Rightarrow> loop_id \<Rightarrow> loop_id option \<Rightarrow> 'z world_scheme \<Rightarrow> 'z world_scheme" where
  "run_leave t l prev w =
     upd_loop l (\<lambda>L. L\<lparr>lp_running := False\<rparr>) (w\<lparr>current_loop := (current_loop w)(t := prev)\<rparr>)"

definition loop_run :: "'z world_scheme env \<Rightarrow> thread_id \<Rightarrow> loop_id \<Rightarrow> 'z world_scheme \<Rightarrow> (unit, 'z world_scheme) result option" where
  "loop_run env t l w =
     (if \<not> loop_check t l w then Some (Inl wrong_thread, w)
      else if lp_running (loops w l) then Some (Inl (Logic_Error ''nested loop.run''), w)
      else
        (let prev = current_loop w t;
             w1 = upd_loop l (\<lambda>L. L\<lparr>lp_running := True\<rparr>) (w\<lparr>current_loop := (current_loop w)(t := Some l)\<rparr>) in
         case run_loop env l w1 of
           None \<Rightarrow> None
         | Some (Inl e, w2) \<Rightarrow> Some (Inl e, run_leave t l prev w2)
         | Some (Inr _, w2) \<Rightarrow>
             (let w3 = run_leave t l prev w2 in
              case lp_error (loops w3 l) of
                None \<Rightarrow> Some (Inr (), w3)
              | Some e \<Rightarrow> Some (Inl e, upd_loop l (\<lambda>L. L\<lparr>lp_error := None\<rparr>) w3))))"

end
