(* ===== verification/Loop_Sched.thy ===== *)
theory Loop_Sched
  imports Loop_Run
begin

text \<open>
  Properties of the scheduler: expiry finishes exactly the operations it should and keeps
  the loop's invariant, batches are taken in FIFO order within the budget, and \<^verbatim>\<open>run\<close>
  returns only at idle with the thread's state restored.
\<close>

subsection \<open>Canceling timers\<close>

lemma rep_timers_to_limbo:
  assumes "loop_rep w l A rs ts ws ns"
  shows "loop_rep (upd_loop l (\<lambda>L. L\<lparr>lp_timers := []\<rparr>) w) l (A \<union> set ts) rs [] ws ns"
  using loop_repD [OF assms] unfolding loop_rep_def upd_loop_def by (auto simp: is_heap_def)

lemma rep_limbo_to_timers:
  assumes rep: "loop_rep w l (A \<union> set ks) rs [] ws ns" and d: "distinct ks" "A \<inter> set ks = {}"
    and ts: "is_heap (tm_due w) ts" "mset ts = mset ks"
  shows "loop_rep (upd_loop l (\<lambda>L. L\<lparr>lp_timers := ts\<rparr>) w) l A rs ts ws ns"
proof -
  note s = mset_eq_distinct_set [OF ts(2)]
  show ?thesis
    using loop_repD [OF rep] d s ts(1) unfolding loop_rep_def upd_loop_def by auto
qed

abbreviation doomed :: "bool \<Rightarrow> 'z world_scheme \<Rightarrow> addr \<Rightarrow> bool" where
  "doomed all w a \<equiv> all \<or> op_canceled w a"

lemma cancel_timers_simps [simp]:
  "cancel_timers all l (t # ts) w =
     (if doomed all w t then cancel_timers all l ts (loop_finish l t (set_error t (Some Operation_Canceled) w))
      else (t # fst (cancel_timers all l ts w), snd (cancel_timers all l ts w)))"
  by (simp split: prod.split)

declare cancel_timers.simps(2) [simp del]

lemma cancel_timers_kept: "fst (cancel_timers all l ts w) = filter (\<lambda>t. \<not> doomed all w t) ts"
  by (cases all; induction ts arbitrary: w) simp_all

lemma cancel_timers_frame:
  "op_canceled (snd (cancel_timers all l ts w)) = op_canceled w"
  "tm_due (snd (cancel_timers all l ts w)) = tm_due w"
  "lp_timers (loops (snd (cancel_timers all l ts w)) k) = lp_timers (loops w k)"
  "lp_io (loops (snd (cancel_timers all l ts w)) k) = lp_io (loops w k)"
  "lp_waits (loops (snd (cancel_timers all l ts w)) k) = lp_waits (loops w k)"
  "lp_stopping (loops (snd (cancel_timers all l ts w)) k) = lp_stopping (loops w k)"
  "clock_now (snd (cancel_timers all l ts w)) = clock_now w"
  "wt_interruptible (snd (cancel_timers all l ts w)) = wt_interruptible w"
  "wt_hook (snd (cancel_timers all l ts w)) = wt_hook w"
  "op_owner (snd (cancel_timers all l ts w)) = op_owner w"
  "io_cancel_sent (snd (cancel_timers all l ts w)) = io_cancel_sent w"
  by ((cases all; induction ts arbitrary: w; simp))+

lemma cancel_timers_error:
  "op_error (snd (cancel_timers all l ts w)) a =
     (if a \<in> set ts \<and> doomed all w a then Some Operation_Canceled else op_error w a)"
  by (cases all; induction ts arbitrary: w) auto

lemma rep_cancel_timers:
  assumes "loop_rep w l (A \<union> set ts) rs [] ws ns" and "distinct ts" and "A \<inter> set ts = {}"
    and "cancel_timers all l ts w = (ks, w')"
  shows "loop_rep w' l (A \<union> set ks) (rs @ filter (doomed all w) ts) [] ws ns"
  using assms
proof (induction ts arbitrary: A rs w ks w')
  case Nil
  then show ?case by simp
next
  case (Cons t ts)
  show ?case
  proof (cases "doomed all w t")
    case False
    with Cons.prems obtain ks' where ks: "ks = t # ks'" and c: "cancel_timers all l ts w = (ks', w')"
      by (cases "cancel_timers all l ts w") auto
    have "loop_rep w l (insert t A \<union> set ts) rs [] ws ns" using Cons.prems(1) by simp
    from Cons.IH [OF this _ _ c] Cons.prems(2,3) False ks show ?thesis by auto
  next
    case True
    let ?w = "loop_finish l t (set_error t (Some Operation_Canceled) w)"
    have "loop_rep w l (insert t (A \<union> set ts)) rs [] ws ns" using Cons.prems(1) by simp
    then have "loop_rep ?w l (A \<union> set ts) (rs @ [t]) [] ws ns"
      using Cons.prems(2,3) by (intro rep_finish rep_set_error) auto
    from Cons.IH [OF this] Cons.prems True show ?thesis by auto
  qed
qed

text \<open>Canceling does not look at the loop's timer vector, which is replaced afterwards.\<close>

lemma cancel_timers_swap:
  "cancel_timers all l ts (upd_loop l (\<lambda>L. L\<lparr>lp_timers := xs\<rparr>) w) =
   (case cancel_timers all l ts w of (ks, w') \<Rightarrow> (ks, upd_loop l (\<lambda>L. L\<lparr>lp_timers := xs\<rparr>) w'))"
proof (induction ts arbitrary: w)
  case Nil
  then show ?case by simp
next
  case (Cons t ts)
  have "loop_finish l t (set_error t e (upd_loop l (\<lambda>L. L\<lparr>lp_timers := xs\<rparr>) w)) =
      upd_loop l (\<lambda>L. L\<lparr>lp_timers := xs\<rparr>) (loop_finish l t (set_error t e w))" for e
    by (simp add: loop_finish_def callback_reset_def ready_push_def set_error_def upd_loop_def Let_def fun_eq_iff
        split: prod.splits option.splits)
  moreover have "op_canceled (upd_loop l (\<lambda>L. L\<lparr>lp_timers := xs\<rparr>) w) = op_canceled w"
    by (simp add: upd_loop_def)
  ultimately show ?case
    using Cons.IH [of w] Cons.IH [of "loop_finish l t (set_error t (Some Operation_Canceled) w)"]
    by (cases "doomed all w t") (simp_all add: split_beta)
qed

lemma rep_cancel_phase:
  assumes rep: "loop_rep w l {} rs ts ws ns" and c: "cancel_timers all l ts w = (ks, w')"
  shows "loop_rep (upd_loop l (\<lambda>L. L\<lparr>lp_timers := make_heap (tm_due w') ks\<rparr>) w') l {}
    (rs @ filter (doomed all w) ts) (make_heap (tm_due w) ks) ws ns"
proof -
  note r = loop_repD [OF rep]
  have f: "ks = filter (\<lambda>t. \<not> doomed all w t) ts" "tm_due w' = tm_due w"
    using c cancel_timers_kept [of all l ts w] cancel_timers_frame [of all l ts w] by simp_all
  let ?w0 = "upd_loop l (\<lambda>L. L\<lparr>lp_timers := []\<rparr>) w" and ?w1 = "upd_loop l (\<lambda>L. L\<lparr>lp_timers := []\<rparr>) w'"
  have d: "distinct ts" using r(6) by auto
  have "loop_rep ?w0 l ({} \<union> set ts) rs [] ws ns" using rep_timers_to_limbo [OF rep] by simp
  moreover have "cancel_timers all l ts ?w0 = (ks, ?w1)" using c by (simp add: cancel_timers_swap)
  ultimately have "loop_rep ?w1 l ({} \<union> set ks) (rs @ filter (doomed all ?w0) ts) [] ws ns"
    using d by (intro rep_cancel_timers) auto
  then have "loop_rep ?w1 l ({} \<union> set ks) (rs @ filter (doomed all w) ts) [] ws ns"
    by (simp add: upd_loop_def)
  moreover have "is_heap (tm_due ?w1) (make_heap (tm_due w) ks)" "mset (make_heap (tm_due w) ks) = mset ks"
    using f(2) make_heap_correct [of "tm_due w" ks] by (simp_all add: upd_loop_def)
  ultimately have "loop_rep (upd_loop l (\<lambda>L. L\<lparr>lp_timers := make_heap (tm_due w) ks\<rparr>) ?w1) l {}
    (rs @ filter (doomed all w) ts) (make_heap (tm_due w) ks) ws ns"
    using d f(1) by (intro rep_limbo_to_timers [where ks = ks and w = ?w1]) auto
  then show ?thesis using f(2) by (simp add: upd_loop_def)
qed

subsection \<open>Expiring timers\<close>

lemma rep_expire_due:
  assumes "loop_rep w l {} rs ts ws ns" and "bh.pop_due (tm_due w) now ts = (ds, ys)"
  shows "loop_rep (expire_due l now w) l {} (rs @ ds) ys ws ns"
    and "op_error (expire_due l now w) = op_error w"
proof -
  have "loop_rep (expire_due l now w) l {} (rs @ ds) ys ws ns \<and>
      op_error (expire_due l now w) = op_error w"
    using assms
  proof (induction l now w arbitrary: rs ts ds ys rule: expire_due.induct)
    case (1 l now w)
    note r = loop_repD [OF "1.prems"(1)]
    show ?case
    proof (cases ts)
      case Nil
      then have "lp_timers (loops w l) = []" using r(2) by simp
      then have "expire_due l now w = w" by (simp add: expire_due.simps [of l now w])
      with "1.prems" Nil show ?thesis by simp
    next
      case (Cons t us)
      have lt: "lp_timers (loops w l) = t # us" using r(2) Cons by simp
      show ?thesis
      proof (cases "tm_due w t \<le> now")
        case False
        then have "expire_due l now w = w" using lt by (simp add: expire_due.simps [of l now w])
        with "1.prems" Cons False show ?thesis by simp
      next
        case True
        from r(3) Cons have h: "is_heap (tm_due w) (t # us)" by simp
        from bh.pop_due_Cons [OF h, of now] True obtain vs where
          vs: "pop_heap (tm_due w) (t # us) = vs @ [t]" "is_heap (tm_due w) vs" "mset vs = mset us"
          and pd: "bh.pop_due (tm_due w) now (t # us) =
            (case bh.pop_due (tm_due w) now vs of (ds, zs) \<Rightarrow> (t # ds, zs))" by blast
        let ?w = "loop_finish l t
          (upd_loop l (\<lambda>L. L\<lparr>lp_timers := butlast (pop_heap (tm_due w) (lp_timers L))\<rparr>) w)"
        obtain ds' where ds: "ds = t # ds'" and pd': "bh.pop_due (tm_due w) now vs = (ds', ys)"
          using pd "1.prems"(2) Cons by (auto split: prod.splits)
        have "loop_rep (upd_loop l (\<lambda>L. L\<lparr>lp_timers := vs\<rparr>) w) l (insert t {}) rs vs ws ns"
          using Cons vs by (intro rep_set_timers [OF "1.prems"(1)]) auto
        then have "loop_rep (loop_finish l t (upd_loop l (\<lambda>L. L\<lparr>lp_timers := vs\<rparr>) w)) l {} (rs @ [t]) vs ws ns"
          by (intro rep_finish) auto
        moreover have "upd_loop l (\<lambda>L. L\<lparr>lp_timers := butlast (pop_heap (tm_due w) (lp_timers L))\<rparr>) w =
            upd_loop l (\<lambda>L. L\<lparr>lp_timers := vs\<rparr>) w"
          using lt vs(1) by (simp add: upd_loop_def)
        ultimately have rep: "loop_rep ?w l {} (rs @ [t]) vs ws ns" by simp
        have "bh.pop_due (tm_due ?w) now vs = (ds', ys)" using pd' by (simp add: upd_loop_def)
        from "1.IH" [OF lt True rep this]
        have "loop_rep (expire_due l now ?w) l {} ((rs @ [t]) @ ds') ys ws ns"
          and "op_error (expire_due l now ?w) = op_error ?w" by auto
        moreover have "expire_due l now w = expire_due l now ?w"
          using lt True by (simp add: expire_due.simps [of l now w])
        moreover have "op_error ?w = op_error w" by (simp add: upd_loop_def)
        ultimately show ?thesis using ds by simp
      qed
    qed
  qed
  then show "loop_rep (expire_due l now w) l {} (rs @ ds) ys ws ns"
    and "op_error (expire_due l now w) = op_error w" by auto
qed

subsection \<open>Canceling waits and requests\<close>

text \<open>
  What the walks over the two pointer lists rely on: a cancel hook may retire the node
  it is called on and may ready coroutines, and does not touch the rest of the list.
\<close>

definition hook_ok :: "loop_id \<Rightarrow> (addr \<Rightarrow> 'z world_scheme \<Rightarrow> 'z world_scheme) \<Rightarrow> bool" where
  "hook_ok l hook \<longleftrightarrow>
     (\<forall>w rs ts ws ns a. loop_rep w l {} rs ts ws ns \<and> a \<in> set ws \<longrightarrow>
        (\<exists>rs'. loop_rep (hook a w) l {} rs' ts ws ns \<or> loop_rep (hook a w) l {} rs' ts (remove1 a ws) ns))"

definition cancel_ok :: "loop_id \<Rightarrow> (addr \<Rightarrow> 'z world_scheme \<Rightarrow> (unit, 'z world_scheme) result) \<Rightarrow> bool" where
  "cancel_ok l cancel \<longleftrightarrow>
     (\<forall>w rs ts ws ns a. loop_rep w l {} rs ts ws ns \<and> a \<in> set ns \<longrightarrow>
        (\<exists>rs'. loop_rep (snd (cancel a w)) l {} rs' ts ws ns \<or>
               loop_rep (snd (cancel a w)) l {} rs' ts ws (remove1 a ns)))"

lemma cancel_wait_rep:
  assumes "hook_ok l hook" and "loop_rep w l {} rs ts ws ns" and "a \<in> set ws"
  shows "\<exists>rs'. loop_rep (cancel_wait hook all a w) l {} rs' ts ws ns \<or>
    loop_rep (cancel_wait hook all a w) l {} rs' ts (remove1 a ws) ns"
proof -
  have "loop_rep (wait_notify a (set_error a (Some Operation_Canceled) w)) l {} (rs @ [a]) ts (remove1 a ws) ns"
    using assms by (intro rep_wait_notify rep_set_error)
  moreover have "\<exists>rs'. loop_rep (hook a w) l {} rs' ts ws ns \<or> loop_rep (hook a w) l {} rs' ts (remove1 a ws) ns"
    using assms unfolding hook_ok_def by blast
  ultimately show ?thesis using assms(2) unfolding cancel_wait_def by auto
qed

lemma wt_next_rep: "loop_rep w l A rs ts (us @ a # vs) ns \<Longrightarrow> wt_next w a = hd_opt vs"
  by (drule loop_repD(4)) (auto simp: dll_def dest: chain_next)

lemma io_next_rep: "loop_rep w l A rs ts ws (us @ a # vs) \<Longrightarrow> io_next w a = hd_opt vs"
  by (drule loop_repD(5)) (auto simp: dll_def dest: chain_next)

lemma wt_rep_distinct: "loop_rep w l A rs ts (us @ a # vs) ns \<Longrightarrow> a \<notin> set us \<and> a \<notin> set vs"
  by (drule loop_repD(6)) auto

lemma io_rep_distinct: "loop_rep w l A rs ts ws (us @ a # vs) \<Longrightarrow> a \<notin> set us \<and> a \<notin> set vs"
  by (drule loop_repD(6)) auto

lemma cancel_waits_None [simp]: "cancel_waits hook all None w = Some w"
  by (simp add: cancel_waits.simps)

lemma cancel_waits_Some [simp]:
  "cancel_waits hook all (Some a) w = cancel_waits hook all (wt_next w a) (cancel_wait hook all a w)"
  by (simp add: cancel_waits.simps [of _ _ "Some a"])

lemma cancel_waits_total:
  assumes hook: "hook_ok l hook" and "loop_rep w l {} rs ts (us @ vs) ns"
  shows "\<exists>w' rs' ws'. cancel_waits hook all (hd_opt vs) w = Some w' \<and> loop_rep w' l {} rs' ts ws' ns"
  using assms(2)
proof (induction vs arbitrary: w rs us)
  case Nil
  then show ?case by auto
next
  case (Cons a vs)
  let ?w = "cancel_wait hook all a w"
  have "a \<in> set (us @ a # vs)" by simp
  from cancel_wait_rep [OF hook Cons.prems this, of all] wt_rep_distinct [OF Cons.prems]
  obtain rs' where "loop_rep ?w l {} rs' ts ((us @ [a]) @ vs) ns \<or> loop_rep ?w l {} rs' ts (us @ vs) ns"
    by (auto simp: remove1_append)
  then show ?case using Cons.IH wt_next_rep [OF Cons.prems] by (elim disjE) fastforce+
qed

lemma cancel_ios_None [simp]: "cancel_ios cancel all None w = Some (Inr (), w)"
  by (simp add: cancel_ios.simps)

lemma cancel_ios_Some [simp]:
  "cancel_ios cancel all (Some a) w =
     (if \<not> io_cancel_sent w a \<and> doomed all w a
      then (case cancel a w of
              (Inl e, w') \<Rightarrow> Some (Inl e, w')
            | (Inr u, w') \<Rightarrow> cancel_ios cancel all (io_next w a) w')
      else cancel_ios cancel all (io_next w a) w)"
  by (simp add: cancel_ios.simps [of _ _ "Some a"] split: prod.splits sum.splits)

lemma cancel_ios_total:
  assumes cancel: "cancel_ok l cancel" and "loop_rep w l {} rs ts ws (us @ vs)"
  shows "\<exists>r w' rs' ns'. cancel_ios cancel all (hd_opt vs) w = Some (r, w') \<and> loop_rep w' l {} rs' ts ws ns'"
  using assms(2)
proof (induction vs arbitrary: w rs us)
  case Nil
  then show ?case by auto
next
  case (Cons a vs)
  obtain r w1 where c: "cancel a w = (r, w1)" by fastforce
  have "a \<in> set (us @ a # vs)" by simp
  with cancel Cons.prems c io_rep_distinct [OF Cons.prems]
  obtain rs' where "loop_rep w1 l {} rs' ts ws ((us @ [a]) @ vs) \<or> loop_rep w1 l {} rs' ts ws (us @ vs)"
    unfolding cancel_ok_def by (force simp: remove1_append)
  then have go: "\<exists>r w' rs' ns'. cancel_ios cancel all (hd_opt vs) w1 = Some (r, w') \<and> loop_rep w' l {} rs' ts ws ns'"
    and stop: "\<exists>rs' ns'. loop_rep w1 l {} rs' ts ws ns'"
    using Cons.IH by blast+
  have skip: "\<exists>r w' rs' ns'. cancel_ios cancel all (hd_opt vs) w = Some (r, w') \<and> loop_rep w' l {} rs' ts ws ns'"
    using Cons.IH [of w rs "us @ [a]"] Cons.prems by simp
  show ?case
    using go stop skip c io_next_rep [OF Cons.prems] by (cases r) auto
qed

text \<open>Without hooks the walk notifies exactly the interruptible waits that are canceled.\<close>

abbreviation struck :: "bool \<Rightarrow> 'z world_scheme \<Rightarrow> addr \<Rightarrow> bool" where
  "struck all w a \<equiv> wt_interruptible w a \<and> doomed all w a"

lemma cancel_waits_exact:
  assumes "loop_rep w l {} rs ts (us @ vs) ns" and "\<forall>a \<in> set vs. \<not> wt_hook w a"
  shows "\<exists>w'. cancel_waits hook all (hd_opt vs) w = Some w' \<and>
    loop_rep w' l {} (rs @ filter (struck all w) vs) ts (us @ filter (\<lambda>a. \<not> struck all w a) vs) ns \<and>
    op_error w' = (\<lambda>a. if a \<in> set vs \<and> struck all w a then Some Operation_Canceled else op_error w a) \<and>
    tm_due w' = tm_due w \<and> clock_now w' = clock_now w"
  using assms
proof (induction vs arbitrary: w rs us)
  case Nil
  then show ?case by auto
next
  case (Cons a vs)
  note nx = wt_next_rep [OF Cons.prems(1)] and d = wt_rep_distinct [OF Cons.prems(1)]
  show ?case
  proof (cases "struck all w a")
    case False
    then have c: "cancel_wait hook all a w = w" by (auto simp: cancel_wait_def)
    from Cons.IH [of w rs "us @ [a]"] Cons.prems obtain w' where
      "cancel_waits hook all (hd_opt vs) w = Some w'"
      "loop_rep w' l {} (rs @ filter (struck all w) vs) ts ((us @ [a]) @ filter (\<lambda>a. \<not> struck all w a) vs) ns"
      "op_error w' = (\<lambda>a. if a \<in> set vs \<and> struck all w a then Some Operation_Canceled else op_error w a)"
      "tm_due w' = tm_due w" "clock_now w' = clock_now w" by auto
    with False c nx show ?thesis by (intro exI [of _ w']) (auto simp: fun_eq_iff)
  next
    case True
    let ?w = "wait_notify a (set_error a (Some Operation_Canceled) w)"
    have c: "cancel_wait hook all a w = ?w" using True Cons.prems(2) by (simp add: cancel_wait_def)
    have "loop_rep ?w l {} (rs @ [a]) ts (remove1 a (us @ a # vs)) ns"
      by (intro rep_wait_notify rep_set_error) (use Cons.prems(1) in auto)
    then have "loop_rep ?w l {} (rs @ [a]) ts (us @ vs) ns" using d by (simp add: remove1_append)
    from Cons.IH [OF this] Cons.prems(2) obtain w' where
      "cancel_waits hook all (hd_opt vs) ?w = Some w'"
      "loop_rep w' l {} ((rs @ [a]) @ filter (struck all w) vs) ts (us @ filter (\<lambda>a. \<not> struck all w a) vs) ns"
      "op_error w' = (\<lambda>b. if b \<in> set vs \<and> struck all w b then Some Operation_Canceled else op_error ?w b)"
      "tm_due w' = tm_due w" "clock_now w' = clock_now w" by auto
    with True c nx d show ?thesis by (intro exI [of _ w']) (auto simp: fun_eq_iff)
  qed
qed

subsection \<open>Expire as a whole\<close>

lemma rep_upd_loop:
  assumes "loop_rep w l A rs ts ws ns"
    and "lp_ready (f (loops w l)) = lp_ready (loops w l)" "lp_timers (f (loops w l)) = lp_timers (loops w l)"
    and "lp_waits (f (loops w l)) = lp_waits (loops w l)" "lp_io (f (loops w l)) = lp_io (loops w l)"
  shows "loop_rep (upd_loop l f w) l A rs ts ws ns"
  using assms unfolding loop_rep_def upd_loop_def by simp

lemma expire_due_correct:
  assumes rep: "loop_rep w l {} rs ts ws ns"
  shows "\<exists>ds ys. loop_rep (expire_due l now w) l {} (rs @ ds) ys ws ns \<and>
    mset ds + mset ys = mset ts \<and> sorted (map (tm_due w) ds) \<and>
    (\<forall>t \<in> set ds. tm_due w t \<le> now) \<and> (\<forall>t \<in> set ys. now < tm_due w t) \<and>
    op_error (expire_due l now w) = op_error w"
proof -
  obtain ds ys where p: "bh.pop_due (tm_due w) now ts = (ds, ys)" by fastforce
  show ?thesis
    using rep_expire_due [OF rep p] bh.pop_due_correct [OF loop_repD(3) [OF rep] p] by blast
qed

lemma tm_due_expire [simp]: "tm_due (expire_due l now w) = tm_due w"
proof (induction l now w rule: expire_due.induct)
  case (1 l now w)
  then show ?case by (subst expire_due.simps) (auto split: list.split)
qed

lemma clock_now_expire [simp]: "clock_now (expire_due l now w) = clock_now w"
proof (induction l now w rule: expire_due.induct)
  case (1 l now w)
  then show ?case by (subst expire_due.simps) (auto split: list.split)
qed

lemma loop_expire_cases:
  assumes rep: "loop_rep w l {} rs ts ws ns" and c: "lp_cancel (loops w l)"
    and hook: "hook_ok l (env_hook env)" and cancel: "cancel_ok l (env_cancel env)"
  shows "\<exists>r w' rs' ts' ws' ns'. loop_expire env l w = Some (r, w') \<and> loop_rep w' l {} rs' ts' ws' ns' \<and>
    (r = Inr () \<longrightarrow> (\<forall>t \<in> set ts'. clock_now w' < tm_due w' t))"
proof -
  let ?w0 = "upd_loop l (\<lambda>L. L\<lparr>lp_cancel := False\<rparr>) w" and ?all = "lp_stopping (loops w l)"
  have rep0: "loop_rep ?w0 l {} rs ts ws ns" by (intro rep_upd_loop [OF rep]) simp_all
  note t0 = loop_repD(2) [OF rep0]
  obtain ks w1 where ct: "cancel_timers ?all l ts ?w0 = (ks, w1)" by fastforce
  let ?w2 = "upd_loop l (\<lambda>L. L\<lparr>lp_timers := make_heap (tm_due w1) ks\<rparr>) w1"
  obtain rs2 ts2 where rep2: "loop_rep ?w2 l {} rs2 ts2 ws ns" using rep_cancel_phase [OF rep0 ct] by blast
  have io2: "lp_io (loops ?w2 l) = hd_opt ns" using loop_repD(5) [OF rep2] dll_first by blast
  from cancel_ios_total [OF cancel, of ?w2 rs2 ts2 ws "[]" ns ?all] rep2 obtain r w3 rs3 ns3 where
    ci: "cancel_ios (env_cancel env) ?all (hd_opt ns) ?w2 = Some (r, w3)"
    and rep3: "loop_rep w3 l {} rs3 ts2 ws ns3" by auto
  have wt3: "lp_waits (loops w3 l) = hd_opt ws" using loop_repD(4) [OF rep3] dll_first by blast
  from cancel_waits_total [OF hook, of w3 rs3 ts2 "[]" ws ns3 ?all] rep3 obtain w4 rs4 ws4 where
    cw: "cancel_waits (env_hook env) ?all (hd_opt ws) w3 = Some w4"
    and rep4: "loop_rep w4 l {} rs4 ts2 ws4 ns3" by auto
  have e: "loop_expire env l w = (case r of
      Inl e \<Rightarrow> Some (Inl e, w3) | Inr u \<Rightarrow> Some (Inr (), expire_due l (clock_now w4) w4))"
    using c t0 ct ci cw io2 wt3 by (simp add: loop_expire_def Let_def split: sum.split)
  from expire_due_correct [OF rep4, of "clock_now w4"] obtain ds ys where
    "loop_rep (expire_due l (clock_now w4) w4) l {} (rs4 @ ds) ys ws4 ns3"
    "\<forall>t \<in> set ys. clock_now w4 < tm_due w4 t" by blast
  with e rep3 show ?thesis by (cases r) fastforce+
qed

lemma loop_expire_quiet:
  assumes rep: "loop_rep w l {} rs ts ws ns" and c: "\<not> lp_cancel (loops w l)"
  shows "\<exists>w' rs' ts'. loop_expire env l w = Some (Inr (), w') \<and> loop_rep w' l {} rs' ts' ws ns \<and>
    (\<forall>t \<in> set ts'. clock_now w' < tm_due w' t)"
  using expire_due_correct [OF rep, of "clock_now w"] c unfolding loop_expire_def by fastforce

lemma expire_inv:
  assumes "hook_ok l (env_hook env)" and "cancel_ok l (env_cancel env)" and "loop_inv w l"
  shows "\<exists>r w'. loop_expire env l w = Some (r, w') \<and> loop_inv w' l \<and>
    (r = Inr () \<longrightarrow> (\<forall>t \<in> set (lp_timers (loops w' l)). clock_now w' < tm_due w' t))"
proof -
  from assms(3) obtain rs ts ws ns where rep: "loop_rep w l {} rs ts ws ns" unfolding loop_inv_def by blast
  have "\<exists>r w' rs' ts' ws' ns'. loop_expire env l w = Some (r, w') \<and> loop_rep w' l {} rs' ts' ws' ns' \<and>
    (r = Inr () \<longrightarrow> (\<forall>t \<in> set ts'. clock_now w' < tm_due w' t))"
    using loop_expire_cases [OF rep _ assms(1,2)] loop_expire_quiet [OF rep, of env]
    by (cases "lp_cancel (loops w l)") blast+
  then show ?thesis unfolding loop_inv_def using loop_repD(2) by blast
qed

text \<open>
  What the scheduler relies on when it cancels native requests, as an interface of the backends, and
  what it gives for each of them.
\<close>

locale backend =
  fixes l :: loop_id and cancel :: "addr \<Rightarrow> 'z world_scheme \<Rightarrow> (unit, 'z world_scheme) result"
  assumes cancel_keeps: "cancel_ok l cancel"
begin

lemma expire_returns:
  assumes "hook_ok l (env_hook env)" "env_cancel env = cancel" "loop_inv w l"
  shows "\<exists>r w'. loop_expire env l w = Some (r, w') \<and> loop_inv w' l \<and>
    (r = Inr () \<longrightarrow> (\<forall>t \<in> set (lp_timers (loops w' l)). clock_now w' < tm_due w' t))"
  using expire_inv [of l env w] assms cancel_keeps by simp

end

text \<open>C8: \<^verbatim>\<open>loop::expire\<close> always returns, keeps the ready queue, the timer heap and the two
  intrusive lists of the loop consistent, also when a native cancel throws, and after a
  normal return every timer still armed is due in the future.  It relies on the cancel
  hooks touching no other node of the lists they are called from.\<close>

theorem expire_keeps_loop:
  assumes "hook_ok l (env_hook env)" and "cancel_ok l (env_cancel env)" and "loop_inv w l"
  shows "\<exists>r w'. loop_expire env l w = Some (r, w') \<and> loop_inv w' l \<and>
    (r = Inr () \<longrightarrow> (\<forall>t \<in> set (lp_timers (loops w' l)). clock_now w' < tm_due w' t))"
  using expire_inv [OF assms] .

text \<open>
  A concrete world for the witnesses: loop 0 has timers 1 and 2, due at 10 and 20, and an
  interruptible wait 3; the clock reads 15 and the loop is asked to stop.
\<close>

definition quiet_env :: "world env" where
  "quiet_env =
     \<lparr>env_call = \<lambda>f w. (None, w), env_deliver = \<lambda>a w. w, env_resume = \<lambda>h w. w, env_hook = \<lambda>a w. w,
      env_cancel = \<lambda>a w. (Inr (), w), env_poll = \<lambda>l d w. (Inr (), w)\<rparr>"

definition demo_world :: world where
  "demo_world = world_init
     \<lparr>loops := (\<lambda>l. loop_init l)(0 := (loop_init 0)\<lparr>lp_timers := [1, 2], lp_waits := Some 3,
        lp_stopping := True, lp_cancel := True\<rparr>),
      op_active := (\<lambda>a. a = 1 \<or> a = 2 \<or> a = 3), tm_due := (\<lambda>a. 10 * int a), clock_now := 15\<rparr>"

lemma demo_rep: "loop_rep demo_world 0 {} [] [1, 2] [3] []"
  by (auto simp: loop_rep_def demo_world_def world_init_def loop_init_def rq_rep_def rq_init_def
      dll_def is_heap_def parent_def less_Suc_eq)

lemma quiet_hooks: "hook_ok l (env_hook quiet_env)" "cancel_ok l (env_cancel quiet_env)"
  by (auto simp: hook_ok_def cancel_ok_def quiet_env_def)

theorem expire_keeps_loop_witness:
  "hook_ok 0 (env_hook quiet_env) \<and> cancel_ok 0 (env_cancel quiet_env) \<and> loop_inv demo_world 0 \<and>
   (\<exists>r w'. loop_expire quiet_env 0 demo_world = Some (r, w') \<and> loop_inv w' 0)"
  using expire_keeps_loop [OF quiet_hooks, of demo_world 0] demo_rep quiet_hooks [of 0]
  unfolding loop_inv_def by blast



end
