(* ===== verification/Loop_Progress.thy ===== *)
theory Loop_Progress
  imports Loop_Sched
begin

text \<open>
  Batches and progress of \<^verbatim>\<open>loop::run\<close>: messages are delivered and coroutines resumed in FIFO
  order, at most the budget per turn; \<^verbatim>\<open>run\<close> leaves only at idle and restores the thread's
  state on every way out; the time it blocks never passes the next deadline.
\<close>

subsection \<open>Message batches\<close>

lemma rq_rep_agree:
  assumes "rq_rep (nx, q) xs" and "\<And>a. a \<in> set xs \<Longrightarrow> nx' a = nx a"
  shows "rq_rep (nx', q) xs"
proof -
  have "chain nx (rq_head q) xs = chain nx' (rq_head q) xs" using assms(2) by (intro seg_cong) simp
  with assms(1) show ?thesis by (simp add: rq_rep_def)
qed

lemma take_messages_rep:
  assumes "rq_rep (m_next w, lp_messages (loops w l)) xs" and "rq_rep (m_next w, q) ys"
    and "set xs \<inter> set ys = {}"
  shows "\<exists>q' w'. take_messages n l q w = (q', w') \<and> rq_rep (m_next w', q') (ys @ take n xs) \<and>
    rq_rep (m_next w', lp_messages (loops w' l)) (drop n xs) \<and>
    (\<forall>a. a \<notin> set xs \<union> set ys \<longrightarrow> m_next w' a = m_next w a)"
  using assms
proof (induction n arbitrary: w q xs ys)
  case 0
  then show ?case by simp
next
  case (Suc n)
  show ?case
  proof (cases xs)
    case Nil
    with Suc.prems show ?thesis by (simp add: rq_pop_Nil)
  next
    case (Cons x us)
    let ?nx = "(m_next w)(x := None)"
    from Suc.prems(1) [unfolded Cons] obtain mq where
      p: "rq_pop (m_next w, lp_messages (loops w l)) = (Some x, ?nx, mq)" "rq_rep (?nx, mq) us"
      by (rule rq_rep_pop_Cons)
    have nx: "x \<notin> set us" "x \<notin> set ys" "set us \<inter> set ys = {}"
      using Suc.prems(1,3) Cons by (auto dest: rq_rep_distinct)
    have q: "rq_rep (?nx, q) ys" using nx by (intro rq_rep_agree [OF Suc.prems(2)]) auto
    obtain nx' q' where u: "rq_push x (?nx, q) = (nx', q')" by fastforce
    have fr: "nx' a = ?nx a" if "a \<notin> set ys" for a using rq_push_frame [OF q u that] .
    let ?w = "upd_loop l (\<lambda>L. L\<lparr>lp_messages := mq\<rparr>) (w\<lparr>m_next := nx'\<rparr>)"
    have "rq_rep (m_next ?w, lp_messages (loops ?w l)) us"
      using rq_rep_agree [OF p(2), of nx'] nx fr by auto
    moreover have "rq_rep (m_next ?w, q') (ys @ [x])"
      using rq_rep_push [OF q nx(2)] u by (simp add: rq_push_assert_def)
    moreover have "set us \<inter> set (ys @ [x]) = {}" using nx by simp
    ultimately obtain q2 w2 where
      t: "take_messages n l q' ?w = (q2, w2)"
        "rq_rep (m_next w2, q2) ((ys @ [x]) @ take n us)" "rq_rep (m_next w2, lp_messages (loops w2 l)) (drop n us)"
        "\<forall>a. a \<notin> set us \<union> set (ys @ [x]) \<longrightarrow> m_next w2 a = m_next ?w a"
      using Suc.IH by blast
    have "take_messages (Suc n) l q w = (q2, w2)"
      unfolding take_messages.simps p(1) by (simp only: prod.case option.case u t(1))
    moreover have "m_next w2 a = m_next w a" if "a \<notin> set xs \<union> set ys" for a
      using that t(4) fr [of a] Cons by simp
    ultimately show ?thesis using t(2,3) Cons by (intro exI [of _ q2] exI [of _ w2]) simp
  qed
qed

lemma take_messages_none:
  "rq_rep (m_next w, lp_messages (loops w l)) [] \<Longrightarrow> take_messages n l q w = (q, w)"
  by (cases n) (simp_all add: rq_pop_Nil)

text \<open>Deliver a list of messages in order, each unlinked first.\<close>

definition deliver_all :: "(addr \<Rightarrow> 'z world_scheme \<Rightarrow> 'z world_scheme) \<Rightarrow> addr list \<Rightarrow> 'z world_scheme \<Rightarrow> 'z world_scheme" where
  "deliver_all deliver xs w = fold (\<lambda>a w. deliver a (w\<lparr>m_next := (m_next w)(a := None)\<rparr>)) xs w"

text \<open>A message body does not touch the links of the other messages of its batch.\<close>

definition deliver_ok :: "(addr \<Rightarrow> 'z world_scheme \<Rightarrow> 'z world_scheme) \<Rightarrow> addr set \<Rightarrow> bool" where
  "deliver_ok deliver S \<longleftrightarrow> (\<forall>a b w. a \<in> S \<and> b \<in> S \<and> b \<noteq> a \<longrightarrow> m_next (deliver a w) b = m_next w b)"

lemma run_messages_stop: "rq_rep (m_next w, q) [] \<Longrightarrow> run_messages deliver q w = Some w"
  by (subst run_messages.simps) (simp add: rq_pop_Nil)

lemma run_messages_all:
  assumes "rq_rep (m_next w, q) xs" and "deliver_ok deliver (set xs)"
  shows "run_messages deliver q w = Some (deliver_all deliver xs w)"
  using assms
proof (induction xs arbitrary: q w)
  case Nil
  then show ?case by (simp add: run_messages_stop deliver_all_def)
next
  case (Cons x xs)
  let ?w = "w\<lparr>m_next := (m_next w)(x := None)\<rparr>"
  from Cons.prems(1) obtain q' where p: "rq_pop (m_next w, q) = (Some x, (m_next w)(x := None), q')"
    "rq_rep ((m_next w)(x := None), q') xs" by (rule rq_rep_pop_Cons)
  have "x \<notin> set xs" using Cons.prems(1) by (auto dest: rq_rep_distinct)
  then have "rq_rep (m_next (deliver x ?w), q') xs"
    using Cons.prems(2) by (intro rq_rep_agree [OF p(2)]) (auto simp: deliver_ok_def)
  moreover have "deliver_ok deliver (set xs)" using Cons.prems(2) by (auto simp: deliver_ok_def)
  ultimately have "run_messages deliver q' (deliver x ?w) = Some (deliver_all deliver xs (deliver x ?w))"
    by (rule Cons.IH)
  then show ?case using p(1) by (subst run_messages.simps) (simp add: deliver_all_def)
qed

text \<open>C12: one turn of \<^verbatim>\<open>run\<close> takes the oldest messages, at most the budget, out of the loop's queue
  and delivers each exactly once in the order they were sent, and delivery ends; the messages
  beyond the budget stay queued in order.\<close>

theorem message_turn:
  assumes rep: "rq_rep (m_next w, lp_messages (loops w l)) xs" and ok: "deliver_ok deliver (set xs)"
  shows "\<exists>q w'. take_messages n l rq_init w = (q, w') \<and>
    rq_rep (m_next w', lp_messages (loops w' l)) (drop n xs) \<and>
    run_messages deliver q w' = Some (deliver_all deliver (take n xs) w')"
proof -
  from take_messages_rep [OF rep rq_rep_init, of n] obtain q w' where
    t: "take_messages n l rq_init w = (q, w')" "rq_rep (m_next w', q) (take n xs)"
      "rq_rep (m_next w', lp_messages (loops w' l)) (drop n xs)" by auto
  have "deliver_ok deliver (set (take n xs))" using ok set_take_subset [of n xs] by (auto simp: deliver_ok_def)
  with t run_messages_all show ?thesis by blast
qed

definition chatty_world :: world where
  "chatty_world = world_init
     \<lparr>loops := (\<lambda>l. loop_init l)(0 := (loop_init 0)\<lparr>lp_messages := \<lparr>rq_head = Some 4, rq_tail = Some 6\<rparr>\<rparr>),
      m_next := (\<lambda>a. None)(4 := Some 5, 5 := Some 6)\<rparr>"

theorem message_turn_witness:
  "\<exists>q w'. rq_rep (m_next chatty_world, lp_messages (loops chatty_world 0)) [4, 5, 6] \<and>
    deliver_ok (\<lambda>a w :: world. w\<lparr>op_error := (op_error w)(a := None)\<rparr>) (set [4, 5, 6]) \<and>
    take_messages 2 0 rq_init chatty_world = (q, w') \<and>
    rq_rep (m_next w', lp_messages (loops w' 0)) [6] \<and>
    run_messages (\<lambda>a w :: world. w\<lparr>op_error := (op_error w)(a := None)\<rparr>) q w' =
      Some (deliver_all (\<lambda>a w :: world. w\<lparr>op_error := (op_error w)(a := None)\<rparr>) [4, 5] w')"
proof -
  have r: "rq_rep (m_next chatty_world, lp_messages (loops chatty_world 0)) [4, 5, 6]"
    by (simp add: rq_rep_def chatty_world_def last_opt_def)
  have d: "deliver_ok (\<lambda>a w :: world. w\<lparr>op_error := (op_error w)(a := None)\<rparr>) (set [4, 5, 6])"
    by (simp add: deliver_ok_def)
  show ?thesis using message_turn [OF r d, of 2] r d by (simp add: numeral_2_eq_2)
qed

subsection \<open>Resuming coroutines\<close>

text \<open>A world with an observer that records which coroutines were resumed.\<close>

record traced = world +
  trace :: "handle_id list"

text \<open>
  What a resumed coroutine may do to its loop's ready queue: add work at the end.  The
  observer records every resumption.
\<close>

definition resume_ok :: "loop_id \<Rightarrow> (handle_id \<Rightarrow> 'z traced_scheme \<Rightarrow> 'z traced_scheme) \<Rightarrow> bool" where
  "resume_ok l resume \<longleftrightarrow>
     (\<forall>h w rs. rq_rep (r_next w, lp_ready (loops w l)) rs \<longrightarrow>
        (\<exists>zs. rq_rep (r_next (resume h w), lp_ready (loops (resume h w) l)) (rs @ zs)) \<and>
        (\<forall>a \<in> set rs. op_handle (resume h w) a = op_handle w a) \<and> trace (resume h w) = trace w @ [h])"

text \<open>C14: one turn of \<^verbatim>\<open>run\<close> resumes the ready coroutines in FIFO order and at most \<^verbatim>\<open>budget_\<close> of
  them, whatever the coroutines queue meanwhile: those already queued come first, the ones
  beyond the budget keep their place at the front of the queue.\<close>

theorem ready_turn:
  assumes "rq_rep (r_next w, lp_ready (loops w l)) rs" and ok: "resume_ok l resume"
  shows "\<exists>hs zs. trace (run_ready n resume l w) = trace w @ map (op_handle w) (take n rs) @ hs \<and>
    length (take n rs) + length hs \<le> n \<and>
    rq_rep (r_next (run_ready n resume l w), lp_ready (loops (run_ready n resume l w) l)) (drop n rs @ zs)"
  using assms(1)
proof (induction n arbitrary: w rs)
  case 0
  then show ?case by (auto intro: exI [of _ "[]"])
next
  case (Suc n)
  show ?case
  proof (cases rs)
    case Nil
    with Suc.prems show ?thesis by (auto simp: rq_pop_Nil intro: exI [of _ "[]"])
  next
    case (Cons a us)
    from Suc.prems [unfolded Cons] obtain q where
      p: "rq_pop (r_next w, lp_ready (loops w l)) = (Some a, (r_next w)(a := None), q)"
        "rq_rep ((r_next w)(a := None), q) us" by (rule rq_rep_pop_Cons)
    let ?v = "upd_loop l (\<lambda>L. L\<lparr>lp_ready := q\<rparr>) (w\<lparr>r_next := (r_next w)(a := None)\<rparr>)"
    let ?w = "resume (op_handle w a) ?v"
    have "rq_rep (r_next ?v, lp_ready (loops ?v l)) us" using p(2) by simp
    with ok obtain ys where y: "rq_rep (r_next ?w, lp_ready (loops ?w l)) (us @ ys)"
      and h: "\<forall>a \<in> set us. op_handle ?w a = op_handle w a" and t: "trace ?w = trace w @ [op_handle w a]"
      unfolding resume_ok_def by (fastforce simp: upd_loop_def)
    from Suc.IH [OF y] obtain hs zs where
      ih: "trace (run_ready n resume l ?w) = trace ?w @ map (op_handle ?w) (take n (us @ ys)) @ hs"
        "length (take n (us @ ys)) + length hs \<le> n"
        "rq_rep (r_next (run_ready n resume l ?w), lp_ready (loops (run_ready n resume l ?w) l)) (drop n (us @ ys) @ zs)"
      by blast
    have e: "run_ready (Suc n) resume l w = run_ready n resume l ?w" using p(1) by simp
    let ?hs = "map (op_handle ?w) (take (n - length us) ys) @ hs"
    have "map (op_handle ?w) (take n us) = map (op_handle w) (take n us)"
      using h by (auto dest: in_set_takeD)
    then have "trace (run_ready (Suc n) resume l w) = trace w @ map (op_handle w) (take (Suc n) rs) @ ?hs"
      using ih(1) t Cons unfolding e by simp
    moreover have "length (take (Suc n) rs) + length ?hs \<le> Suc n" using ih(2) Cons by simp
    ultimately show ?thesis using ih(3) Cons unfolding e
      by (intro exI [of _ ?hs] exI [of _ "drop (n - length us) ys @ zs"]) simp
  qed
qed

definition observe :: "handle_id \<Rightarrow> 'z traced_scheme \<Rightarrow> 'z traced_scheme" where
  "observe h w = w\<lparr>trace := trace w @ [h]\<rparr>"

lemma observe_frame [simp]:
  "loops (observe h w) = loops w" "r_next (observe h w) = r_next w" "op_handle (observe h w) = op_handle w"
  "trace (observe h w) = trace w @ [h]" "tm_due (observe h w) = tm_due w" "clock_now (observe h w) = clock_now w"
  "m_next (observe h w) = m_next w"
  by (simp_all add: observe_def)

lemma observe_ok: "resume_ok l observe"
  by (auto simp: resume_ok_def intro: exI [of _ "[]"])

definition busy_world :: traced where
  "busy_world = world.extend (world_init
     \<lparr>loops := (\<lambda>l. loop_init l)(0 := (loop_init 0)\<lparr>lp_ready := \<lparr>rq_head = Some 4, rq_tail = Some 6\<rparr>\<rparr>),
      r_next := (\<lambda>a. None)(4 := Some 5, 5 := Some 6)\<rparr>) \<lparr>trace = []\<rparr>"

theorem ready_turn_witness:
  "rq_rep (r_next busy_world, lp_ready (loops busy_world 0)) [4, 5, 6] \<and> resume_ok 0 (observe :: handle_id \<Rightarrow> traced \<Rightarrow> traced) \<and>
   (\<exists>hs. trace (run_ready 2 observe 0 busy_world) = trace busy_world @ map (op_handle busy_world) [4, 5] @ hs \<and> length hs = 0)"
proof -
  have r: "rq_rep (r_next busy_world, lp_ready (loops busy_world 0)) [4, 5, 6]"
    by (simp add: rq_rep_def busy_world_def world.defs last_opt_def)
  show ?thesis using ready_turn [OF r observe_ok, of 2] r observe_ok by (auto simp: numeral_2_eq_2)
qed

subsection \<open>Leaving the loop\<close>

lemma loop_tick_break:
  assumes "loop_tick env l w = Some (Inr Tick_Break, w')"
  shows "loop_idle (loops w' l)"
  using assms unfolding loop_tick_def Let_def tick_next_def
  by (auto split: prod.splits option.splits sum.splits if_splits)

lemma run_loop_idle:
  assumes "run_loop env l w = Some (Inr u, w')"
  shows "loop_idle (loops w' l)"
proof -
  have "\<forall>u w'. rw = (Inr u, w') \<longrightarrow> loop_idle (loops w' l)" if "run_loop env l w = Some rw" for rw
    using that
  proof (induction rule: run_loop.raw_induct [rotated, consumes 1, case_names step])
    case (step run env l w y)
    show ?case
    proof (intro allI impI)
      fix u w'
      assume y: "y = (Inr u, w')"
      from step.hyps y show "loop_idle (loops w' l)"
        by (auto split: option.splits prod.splits sum.splits tick.splits dest: loop_tick_break dest!: step.IH)
    qed
  qed
  with assms show ?thesis by blast
qed

lemma run_loop_step:
  assumes "loop_tick env l w = Some (Inr tk, w1)"
  shows "tk = Tick_Break \<Longrightarrow> run_loop env l w = Some (Inr (), w1)"
    and "tk = Tick_Continue \<Longrightarrow> run_loop env l w = run_loop env l w1"
    and "tk = Tick_Poll d \<Longrightarrow> env_poll env l d w1 = (Inr u, w2) \<Longrightarrow> run_loop env l w = run_loop env l w2"
  using assms by (simp_all add: run_loop.simps [of env l w])

lemma run_leave_simps [simp]:
  "current_loop (run_leave t l p w) t = p" "\<not> lp_running (loops (run_leave t l p w) l)"
  "lp_error (loops (run_leave t l p w) l) = lp_error (loops w l)"
  "loop_idle (loops (run_leave t l p w) l) = loop_idle (loops w l)"
  by (simp_all add: run_leave_def loop_idle_def loop_posted_def)

lemma loop_idle_error [simp]: "loop_idle (L\<lparr>lp_error := e\<rparr>) = loop_idle L"
  by (simp add: loop_idle_def loop_posted_def)

text \<open>C11: \<^verbatim>\<open>loop::run\<close> on the owner thread, not nested, restores the thread's current loop and
  clears the running flag on every way out; if it returns normally the loop is idle and no task
  error is pending; if it throws, either the first recorded task error is thrown, at idle, and is
  cleared, or the exception came out of the scheduler itself.\<close>

theorem run_returns_idle:
  assumes run: "loop_run env t l w = Some (r, w')" and t: "loop_check t l w" and n: "\<not> lp_running (loops w l)"
  shows "current_loop w' t = current_loop w t \<and> \<not> lp_running (loops w' l) \<and>
    (r = Inr () \<longrightarrow> loop_idle (loops w' l) \<and> lp_error (loops w' l) = None) \<and>
    (\<forall>e. r = Inl e \<longrightarrow> loop_idle (loops w' l) \<and> lp_error (loops w' l) = None \<or>
       (\<exists>w1 w2. run_loop env l w1 = Some (Inl e, w2) \<and> w' = run_leave t l (current_loop w t) w2))"
proof -
  let ?v = "upd_loop l (\<lambda>L. L\<lparr>lp_running := True\<rparr>) (w\<lparr>current_loop := (current_loop w)(t := Some l)\<rparr>)"
  from run t n obtain s w2 where v: "run_loop env l ?v = Some (s, w2)"
    by (auto simp: loop_run_def Let_def split: option.splits)
  let ?u = "run_leave t l (current_loop w t) w2"
  show ?thesis
  proof (cases s)
    case (Inl e)
    then have "r = Inl e" "w' = ?u" using run v t n by (simp_all add: loop_run_def Let_def)
    with v Inl show ?thesis by auto
  next
    case (Inr u)
    with v have "run_loop env l ?v = Some (Inr u, w2)" by simp
    then have "loop_idle (loops w2 l)" by (rule run_loop_idle)
    then show ?thesis using run v t n Inr
      by (auto simp: loop_run_def Let_def split: option.splits)
  qed
qed

lemma run_empty_loop: "\<exists>w'. loop_run quiet_env 0 0 world_init = Some (Inr (), w')"
proof -
  let ?v = "upd_loop 0 (\<lambda>L. L\<lparr>lp_running := True\<rparr>) (world_init\<lparr>current_loop := (current_loop world_init)(0 := Some 0)\<rparr>)"
  have l: "loops ?v 0 = (loop_init 0)\<lparr>lp_running := True\<rparr>" by (simp add: world_init_def)
  have p: "upd_loop 0 (\<lambda>L. L\<lparr>lp_posts := []\<rparr>) ?v = ?v" by (simp add: upd_loop_def world_init_def loop_init_def)
  have m: "take_messages n 0 rq_init ?v = (rq_init, ?v)" for n
    by (rule take_messages_none) (simp only: l, simp add: loop_init_def rq_rep_init)
  have d: "run_messages (env_deliver quiet_env) rq_init ?v = Some ?v" by (intro run_messages_stop rq_rep_init)
  have x: "loop_expire quiet_env 0 ?v = Some (Inr (), ?v)"
    using expire_due.simps [of 0 "clock_now ?v" ?v] unfolding loop_expire_def l by (simp add: loop_init_def)
  have r: "run_ready n (env_resume quiet_env) 0 ?v = ?v" for n
    by (cases n) (simp_all add: world_init_def loop_init_def rq_pop_Nil rq_rep_init)
  have e: "lp_posts (loops ?v 0) = []" by (simp only: l) (simp add: loop_init_def)
  have n: "tick_next 0 ?v = Tick_Break"
    by (simp only: tick_next_def l)
      (simp add: loop_init_def loop_idle_def loop_posted_def rq_empty_def rq_init_def)
  have "loop_tick quiet_env 0 ?v = Some (Inr Tick_Break, ?v)"
    unfolding loop_tick_def p m Let_def using d x r n by (simp only: e run_posts.simps prod.case option.case sum.case)
  from run_loop_step(1) [OF this refl] show ?thesis
    by (simp add: loop_run_def loop_check_def run_leave_def Let_def) (simp add: loop_init_def world_init_def)
qed

theorem run_returns_idle_witness:
  "\<exists>w'. loop_run quiet_env 0 0 world_init = Some (Inr (), w') \<and>
     current_loop w' 0 = None \<and> \<not> lp_running (loops w' 0) \<and> loop_idle (loops w' 0)"
proof -
  obtain w' where r: "loop_run quiet_env 0 0 world_init = Some (Inr (), w')" using run_empty_loop by blast
  have "loop_check 0 0 world_init" "\<not> lp_running (loops world_init 0)" "current_loop world_init 0 = None"
    by (simp_all add: loop_check_def loop_init_def world_init_def)
  with run_returns_idle [OF r] r show ?thesis by auto
qed

end
