(* ===== verification/Loop_Timers.thy ===== *)
theory Loop_Timers
  imports Loop_Progress
begin

text \<open>
  Deadlines: the arithmetic of \<^verbatim>\<open>sleep\<close> and of the blocking time, and the liveness of a loop
  that only sleeps: \<^verbatim>\<open>run\<close> returns, and every sleeper was resumed, in order of the deadlines.
\<close>

subsection \<open>The blocking time\<close>

lemma time_diff_exact: "- (2 ^ 63) \<le> a - b \<Longrightarrow> a - b < 2 ^ 63 \<Longrightarrow> time_diff a b = a - b"
  unfolding time_diff_def by (subst sint_sbintrunc') (simp add: signed_take_bit_int_eq_self)

text \<open>\<^verbatim>\<open>loop::sleep\<close> saturates instead of overflowing: for a clock reading \<open>now\<close> in range the
  deadline is the mathematical sum \<open>now + delay\<close> cut at the largest time point (and \<open>now\<close> itself for
  a nonpositive delay), and at any later reading the machine subtraction \<^verbatim>\<open>due - now\<close> of \<^verbatim>\<open>run\<close>
  is exact.\<close>

theorem sleep_saturates:
  assumes "0 \<le> now" and "now \<le> time_max" and "0 \<le> later" and "later \<le> time_max"
  shows "sleep_due now delay = min time_max (now + max 0 delay) \<and>
    time_diff (sleep_due now delay) later = sleep_due now delay - later"
proof -
  have e: "sleep_due now delay = min time_max (now + max 0 delay)"
    using assms by (auto simp: sleep_due_def Let_def)
  moreover have "0 \<le> sleep_due now delay" "sleep_due now delay \<le> time_max" using e assms by auto
  ultimately show ?thesis using assms by (simp add: time_diff_exact time_max_def)
qed

theorem sleep_saturates_witness:
  "sleep_due 5 time_max = time_max \<and> time_diff (sleep_due 5 time_max) 7 = time_max - 7"
proof -
  have "min time_max (5 + max 0 time_max) = time_max" "5 \<le> time_max" "7 \<le> time_max"
    by (simp_all add: time_max_def)
  with sleep_saturates [of 5 7 time_max] show ?thesis by auto
qed

text \<open>C16: the time \<^verbatim>\<open>run\<close> blocks: zero while anything is ready or posted, without limit if no timer
  is armed, and otherwise the time to the earliest deadline, so that it never sleeps past any timer's
  deadline.  Deadlines are those \<^verbatim>\<open>sleep\<close> makes, not before the clock's epoch.\<close>

theorem poll_delay_bounds:
  assumes heap: "is_heap due (lp_timers L)" and now: "0 \<le> now" "now \<le> time_max"
    and range: "\<forall>t \<in> set (lp_timers L). 0 \<le> due t \<and> due t \<le> time_max"
  shows "(\<not> rq_empty (lp_ready L) \<or> loop_posted L \<longrightarrow> poll_delay L due now = 0) \<and>
    (rq_empty (lp_ready L) \<and> \<not> loop_posted L \<and> lp_timers L = [] \<longrightarrow> poll_delay L due now = -1) \<and>
    (rq_empty (lp_ready L) \<and> \<not> loop_posted L \<and> lp_timers L \<noteq> [] \<longrightarrow>
       (\<exists>t \<in> set (lp_timers L). poll_delay L due now = max 0 (due t - now)) \<and>
       (\<forall>t \<in> set (lp_timers L). 0 \<le> poll_delay L due now \<and> poll_delay L due now \<le> max 0 (due t - now)))"
proof (cases "lp_timers L")
  case Nil
  then show ?thesis by (simp add: poll_delay_def)
next
  case (Cons t ts)
  have d: "time_diff (due t) now = due t - now"
    using range now Cons by (intro time_diff_exact) (simp_all add: time_max_def)
  have least: "due t \<le> due u" if "u \<in> set (lp_timers L)" for u
    using heap_front_least [OF heap] that Cons by (metis in_set_conv_nth nth_Cons_0)
  have "max 0 (due t - now) \<le> max 0 (due u - now)" if "u \<in> set (lp_timers L)" for u
    using least [OF that] by simp
  then show ?thesis using Cons d by (auto simp: poll_delay_def)
qed

theorem poll_delay_bounds_witness:
  "poll_delay ((loop_init 0)\<lparr>lp_timers := [1, 2]\<rparr>) (\<lambda>a. 10 * int a) 4 \<le> 6"
proof -
  let ?L = "(loop_init 0)\<lparr>lp_timers := [1, 2]\<rparr>" and ?due = "\<lambda>a. 10 * int a"
  have "is_heap ?due (lp_timers ?L)" "\<forall>t \<in> set (lp_timers ?L). 0 \<le> ?due t \<and> ?due t \<le> time_max"
    "(4 :: int) \<le> time_max"
    by (auto simp: is_heap_def parent_def less_Suc_eq time_max_def)
  from poll_delay_bounds [OF this(1) _ this(3,2)]
  have "\<forall>t \<in> set [1, 2]. poll_delay ?L ?due 4 \<le> max 0 (?due t - 4)"
    by (simp add: loop_init_def rq_empty_def rq_init_def loop_posted_def)
  then show ?thesis by simp
qed

text \<open>A deadline far before the epoch, such as \<^verbatim>\<open>sleep_until(time_point::min())\<close>, makes the
  subtraction \<^verbatim>\<open>due - now\<close> wrap: instead of not blocking at all, \<^verbatim>\<open>run\<close> then blocks for almost the
  whole range of the clock.\<close>

theorem poll_delay_wraps:
  assumes "rq_empty (lp_ready L)" and "\<not> loop_posted L" and "lp_timers L = t # ts"
    and "due t = - (2 ^ 63)" and "0 < now" and "now \<le> time_max"
  shows "poll_delay L due now = 2 ^ 63 - now"
proof -
  have "- (2 ^ 63) - now = (2 ^ 63 - now) - 2 ^ 64" by simp
  then have "(word_of_int (- (2 ^ 63) - now) :: 64 word) = word_of_int (2 ^ 63 - now)"
    by (simp add: word_of_int_eq_iff take_bit_eq_mod mod_diff_right_eq)
  then have "time_diff (- (2 ^ 63)) now = sint (word_of_int (2 ^ 63 - now) :: 64 word)"
    by (simp only: time_diff_def)
  also have "\<dots> = 2 ^ 63 - now"
    using assms by (subst sint_sbintrunc') (simp add: signed_take_bit_int_eq_self time_max_def)
  finally show ?thesis using assms by (simp add: poll_delay_def time_max_def)
qed

theorem poll_delay_wraps_witness:
  "poll_delay ((loop_init 0)\<lparr>lp_timers := [1]\<rparr>) (\<lambda>a. - (2 ^ 63)) 1 = 2 ^ 63 - 1"
  by (rule poll_delay_wraps) (simp_all add: loop_init_def rq_empty_def rq_init_def loop_posted_def time_max_def)

subsection \<open>A loop that only sleeps\<close>

text \<open>The fields that expiring timers and resuming observers leave alone.\<close>

definition calm :: "loop_id \<Rightarrow> 'z traced_scheme \<Rightarrow> nat list \<times> ready_queue \<times> nat \<times> nat \<times> bool \<times> nat \<times> field_ptr \<times> (addr \<Rightarrow> handle_id) \<times> (addr \<Rightarrow> int) \<times> int \<times> exn option" where
  "calm l w =
     (let L = loops w l in
      (lp_posts L, lp_messages L, lp_roots L, lp_holds L, lp_cancel L, lp_budget L,
       m_next w, op_handle w, tm_due w, clock_now w, lp_error L))"

lemma trace_finish [simp]: "trace (loop_finish l a w) = trace w"
  by (simp add: loop_finish_def callback_reset_def ready_push_def upd_loop_def Let_def
      split: prod.split option.split)

lemma trace_upd_loop [simp]: "trace (upd_loop l f w) = trace w"
  by (simp add: upd_loop_def)

lemma expire_due_keeps:
  assumes "\<And>t F w. g (loop_finish l t (upd_loop l (\<lambda>L. L\<lparr>lp_timers := F L\<rparr>) w)) = g w"
  shows "g (expire_due l now w) = g w"
  using assms
proof (induction l now w rule: expire_due.induct)
  case (1 l now w)
  show ?case
  proof (cases "lp_timers (loops w l)")
    case Nil
    then show ?thesis by (subst expire_due.simps) simp
  next
    case (Cons t ts)
    show ?thesis
    proof (cases "tm_due w t \<le> now")
      case True
      from "1.IH" [OF Cons True "1.prems"] "1.prems" Cons True show ?thesis
        by (subst expire_due.simps) simp
    qed (use Cons in \<open>subst expire_due.simps, simp\<close>)
  qed
qed

lemma calm_expire [simp]: "calm l (expire_due l now w) = calm l w"
  by (rule expire_due_keeps) (simp add: calm_def Let_def)

lemma trace_expire [simp]: "trace (expire_due l now w) = trace w"
  by (rule expire_due_keeps) simp

lemma rep_ready_pop:
  assumes rep: "loop_rep w l {} (a # rs) ts ws ns"
  obtains q where "rq_pop (r_next w, lp_ready (loops w l)) = (Some a, (r_next w)(a := None), q)"
    and "loop_rep (upd_loop l (\<lambda>L. L\<lparr>lp_ready := q\<rparr>) (w\<lparr>r_next := (r_next w)(a := None)\<rparr>)) l {} rs ts ws ns"
proof -
  note r = loop_repD [OF rep]
  from r(1) obtain q where q: "rq_pop (r_next w, lp_ready (loops w l)) = (Some a, (r_next w)(a := None), q)"
    "rq_rep ((r_next w)(a := None), q) rs" by (rule rq_rep_pop_Cons)
  have "loop_rep (upd_loop l (\<lambda>L. L\<lparr>lp_ready := q\<rparr>) (w\<lparr>r_next := (r_next w)(a := None)\<rparr>)) l {} rs ts ws ns"
    using r q(2) unfolding loop_rep_def upd_loop_def by auto
  with q(1) show thesis by (rule that)
qed

lemma rep_observe: "loop_rep w l A rs ts ws ns \<Longrightarrow> loop_rep (observe h w) l A rs ts ws ns"
  by (rule loop_rep_cong) (auto simp: observe_def)

lemma run_ready_observe:
  assumes "loop_rep w l {} rs ts ws ns"
  shows "loop_rep (run_ready n observe l w) l {} (drop n rs) ts ws ns \<and>
    trace (run_ready n observe l w) = trace w @ map (op_handle w) (take n rs) \<and>
    calm l (run_ready n observe l w) = calm l w"
  using assms
proof (induction n arbitrary: w rs)
  case 0
  then show ?case by simp
next
  case (Suc n)
  show ?case
  proof (cases rs)
    case Nil
    with Suc.prems loop_repD(1) [OF Suc.prems] show ?thesis by (simp add: rq_pop_Nil)
  next
    case (Cons a us)
    from Suc.prems [unfolded Cons] obtain q where
      p: "rq_pop (r_next w, lp_ready (loops w l)) = (Some a, (r_next w)(a := None), q)"
      and rep: "loop_rep (upd_loop l (\<lambda>L. L\<lparr>lp_ready := q\<rparr>) (w\<lparr>r_next := (r_next w)(a := None)\<rparr>)) l {} us ts ws ns"
      by (rule rep_ready_pop)
    let ?v = "observe (op_handle w a) (upd_loop l (\<lambda>L. L\<lparr>lp_ready := q\<rparr>) (w\<lparr>r_next := (r_next w)(a := None)\<rparr>))"
    have e: "run_ready (Suc n) observe l w = run_ready n observe l ?v" using p by simp
    have "calm l ?v = calm l w" "op_handle ?v = op_handle w" "trace ?v = trace w @ [op_handle w a]"
      by (simp_all add: calm_def Let_def)
    with Suc.IH [OF rep_observe [OF rep]] show ?thesis using Cons unfolding e by simp
  qed
qed

definition sleeping :: "'z traced_scheme \<Rightarrow> loop_id \<Rightarrow> addr list \<Rightarrow> addr list \<Rightarrow> bool" where
  "sleeping w l rs ts \<longleftrightarrow>
     loop_rep w l {} rs ts [] [] \<and> lp_posts (loops w l) = [] \<and> rq_rep (m_next w, lp_messages (loops w l)) [] \<and>
     lp_roots (loops w l) = 0 \<and> lp_holds (loops w l) = 0 \<and> \<not> lp_cancel (loops w l) \<and>
     0 < lp_budget (loops w l) \<and> 0 \<le> clock_now w \<and> (\<forall>t \<in> set ts. tm_due w t \<le> time_max)"

text \<open>The backend blocks for at least the time it is given, and does nothing else.\<close>

definition patient :: "'z traced_scheme env \<Rightarrow> loop_id \<Rightarrow> bool" where
  "patient env l \<longleftrightarrow>
     env_resume env = observe \<and>
     (\<forall>d w. 0 \<le> d \<longrightarrow> (\<exists>n \<ge> clock_now w + d. env_poll env l d w = (Inr (), w\<lparr>clock_now := n\<rparr>)))"

lemma calm_eq:
  assumes "calm l w' = calm l w"
  shows "lp_posts (loops w' l) = lp_posts (loops w l)" "lp_messages (loops w' l) = lp_messages (loops w l)"
    "lp_roots (loops w' l) = lp_roots (loops w l)" "lp_holds (loops w' l) = lp_holds (loops w l)"
    "lp_cancel (loops w' l) = lp_cancel (loops w l)" "lp_budget (loops w' l) = lp_budget (loops w l)"
    "m_next w' = m_next w" "op_handle w' = op_handle w" "tm_due w' = tm_due w" "clock_now w' = clock_now w"
    "lp_error (loops w' l) = lp_error (loops w l)"
  using assms by (simp_all add: calm_def Let_def)

lemma upd_loop_same: "f (loops w l) = loops w l \<Longrightarrow> upd_loop l f w = w"
  by (simp add: upd_loop_def)

lemma sleeping_tick:
  assumes s: "sleeping w l rs ts" and env: "patient env l"
    and pd: "bh.pop_due (tm_due w) (clock_now w) ts = (ds, ys)"
  defines "w' \<equiv> run_ready (lp_budget (loops w l)) observe l (expire_due l (clock_now w) w)"
  shows "loop_tick env l w = Some (Inr (tick_next l w'), w')"
    and "sleeping w' l (drop (lp_budget (loops w l)) (rs @ ds)) ys"
    and "trace w' = trace w @ map (op_handle w) (take (lp_budget (loops w l)) (rs @ ds))"
    and "calm l w' = calm l w"
proof -
  let ?x = "expire_due l (clock_now w) w"
  note sl = s [unfolded sleeping_def]
  have "upd_loop l (\<lambda>L. L\<lparr>lp_posts := []\<rparr>) w = w" using sl by (intro upd_loop_same) simp
  moreover have "run_messages (env_deliver env) rq_init w = Some w" by (intro run_messages_stop rq_rep_init)
  moreover have "loop_expire env l w = Some (Inr (), ?x)" using sl by (simp add: loop_expire_def)
  moreover have "lp_budget (loops ?x l) = lp_budget (loops w l)" by (rule calm_eq(6)) simp
  ultimately show "loop_tick env l w = Some (Inr (tick_next l w'), w')"
    using sl env unfolding loop_tick_def w'_def by (simp add: take_messages_none patient_def Let_def)
  have rep: "loop_rep ?x l {} (rs @ ds) ys [] []" using rep_expire_due(1) [OF _ pd] sl by blast
  have h: "op_handle ?x = op_handle w" by (rule calm_eq(8) [of l]) simp
  note rr = run_ready_observe [OF rep, of "lp_budget (loops w l)", folded w'_def]
  show c: "calm l w' = calm l w" using rr by simp
  show "trace w' = trace w @ map (op_handle w) (take (lp_budget (loops w l)) (rs @ ds))" using rr h by simp
  have "set ys \<subseteq> set ts"
    using arg_cong [OF bh.pop_due_correct(2) [OF loop_repD(3) pd, of l "{}" rs "[]" "[]"], of set_mset] sl by auto
  then show "sleeping w' l (drop (lp_budget (loops w l)) (rs @ ds)) ys"
    using rr sl calm_eq [OF c] unfolding sleeping_def by auto
qed

lemma sleeping_next:
  assumes "sleeping w l rs ts"
  shows "tick_next l w = (if rs = [] \<and> ts = [] then Tick_Break else if rs \<noteq> [] then Tick_Continue
    else Tick_Poll (max 0 (time_diff (tm_due w (hd ts)) (clock_now w))))"
proof -
  note s = assms [unfolded sleeping_def]
  have rep: "loop_rep w l {} rs ts [] []" using s by blast
  note r = loop_repD [OF rep]
  have e: "rq_empty (lp_ready (loops w l)) \<longleftrightarrow> rs = []" using rq_rep_empty_iff [OF r(1)] .
  have p: "\<not> loop_posted (loops w l)" using s rq_rep_empty_iff by (auto simp: loop_posted_def)
  have "lp_io (loops w l) = None" "lp_waits (loops w l) = None"
    using r(4,5) by (simp_all add: dll_Nil_iff)
  then show ?thesis
    using s r(2) e p by (cases ts) (auto simp: tick_next_def loop_idle_def poll_delay_def Let_def)
qed

text \<open>The work a sleeping loop has left, counted so that every turn lowers it.\<close>

definition drowsiness :: "'z traced_scheme \<Rightarrow> addr list \<Rightarrow> addr list \<Rightarrow> nat" where
  "drowsiness w rs ts =
     2 * (length rs + length ts) + (if rs = [] \<and> ts \<noteq> [] \<and> clock_now w < tm_due w (hd ts) then 1 else 0)"

definition woken :: "'z traced_scheme env \<Rightarrow> loop_id \<Rightarrow> 'z traced_scheme \<Rightarrow> addr list \<Rightarrow> addr list \<Rightarrow> bool" where
  "woken env l w rs ts \<longleftrightarrow>
     (\<exists>w' ds. run_loop env l w = Some (Inr (), w') \<and> lp_error (loops w' l) = lp_error (loops w l) \<and>
        trace w' = trace w @ map (op_handle w) (rs @ ds) \<and> mset ds = mset ts \<and> sorted (map (tm_due w) ds))"

lemma woken_later:
  assumes w1: "woken env l w1 rs1 ys" and run: "run_loop env l w = run_loop env l w1"
    and f: "op_handle w1 = op_handle w" "tm_due w1 = tm_due w" "lp_error (loops w1 l) = lp_error (loops w l)"
    and tr: "trace w1 @ map (op_handle w) rs1 = trace w @ map (op_handle w) (rs @ ds)"
    and pd: "mset ds + mset ys = mset ts" "sorted (map (tm_due w) ds)"
      "\<forall>d \<in> set ds. tm_due w d \<le> now" "\<forall>y \<in> set ys. now < tm_due w y"
  shows "woken env l w rs ts"
proof -
  from w1 f run obtain w' es where e: "run_loop env l w = Some (Inr (), w')" "lp_error (loops w' l) = lp_error (loops w l)"
    "trace w' = trace w1 @ map (op_handle w) (rs1 @ es)" "mset es = mset ys" "sorted (map (tm_due w) es)"
    unfolding woken_def by auto
  have "set es = set ys" using e(4) by (metis set_mset_mset)
  then have "sorted (map (tm_due w) (ds @ es))"
    using pd(2,3,4) e(5) by (fastforce simp: sorted_append)
  moreover have "trace w' = trace w @ map (op_handle w) (rs @ ds @ es)" using e(3) tr by simp
  ultimately show ?thesis unfolding woken_def using e(1,2,4) pd(1)
    by (intro exI [of _ w'] exI [of _ "ds @ es"]) auto
qed

lemma sleeping_wakes:
  assumes "sleeping w l rs ts" and env: "patient env l"
  shows "woken env l w rs ts"
  using assms(1)
proof (induction "drowsiness w rs ts" arbitrary: w rs ts rule: less_induct)
  case less
  let ?b = "lp_budget (loops w l)"
  note s = less.prems [unfolded sleeping_def]
  obtain ds ys where pd: "bh.pop_due (tm_due w) (clock_now w) ts = (ds, ys)" by fastforce
  have "is_heap (tm_due w) ts" using s loop_repD(3) by blast
  note pc = bh.pop_due_correct [OF this pd]
  define w1 where "w1 = run_ready ?b observe l (expire_due l (clock_now w) w)"
  note tick = sleeping_tick [OF less.prems env pd, folded w1_def]
  note c = calm_eq [OF tick(4)] and s1 = tick(2) [unfolded sleeping_def]
  have len: "length ds + length ys = length ts" using pc(2) by (metis size_mset size_union)
  have tr: "trace w1 @ map (op_handle w) (drop ?b (rs @ ds)) = trace w @ map (op_handle w) (rs @ ds)"
    unfolding tick(3) append_assoc by (simp only: map_append [symmetric] append_take_drop_id)
  consider (idle) "drop ?b (rs @ ds) = []" "ys = []" | (ready) "drop ?b (rs @ ds) \<noteq> []"
    | (wait) t vs where "drop ?b (rs @ ds) = []" "ys = t # vs" by (cases ys) auto
  then show ?case
  proof cases
    case idle
    then have "run_loop env l w = Some (Inr (), w1)"
      using run_loop_step(1) [OF tick(1)] sleeping_next [OF tick(2)] by simp
    then show ?thesis using idle pc tr s1 c unfolding woken_def
      by (intro exI [of _ w1] exI [of _ ds]) simp
  next
    case ready
    have "rs @ ds \<noteq> []" using ready by auto
    then have "length (drop ?b (rs @ ds)) < length (rs @ ds)" unfolding length_drop
      using s by (intro diff_less) blast+
    then have "length (drop ?b (rs @ ds)) + length ys < length rs + length ts"
      using len unfolding length_append by linarith
    then have "drowsiness w1 (drop ?b (rs @ ds)) ys < drowsiness w rs ts"
      using ready unfolding drowsiness_def by (simp only: if_False simp_thms add_0_right mult_less_cancel1) (simp split: if_split)
    from less.hyps [OF this tick(2)] show ?thesis
      by (rule woken_later)
        (use run_loop_step(2) [OF tick(1)] sleeping_next [OF tick(2)] ready c tr pc in auto)
  next
    case wait
    then have late: "clock_now w < tm_due w t" using pc(4) by simp
    then have d: "max 0 (time_diff (tm_due w t) (clock_now w)) = tm_due w t - clock_now w"
      using s1 wait(2) c by (auto simp: time_diff_exact time_max_def)
    have "\<exists>n \<ge> clock_now w1 + (tm_due w t - clock_now w).
        env_poll env l (tm_due w t - clock_now w) w1 = (Inr (), w1\<lparr>clock_now := n\<rparr>)"
      using env late unfolding patient_def by auto
    then obtain n where n: "tm_due w t \<le> n"
      "env_poll env l (tm_due w t - clock_now w) w1 = (Inr (), w1\<lparr>clock_now := n\<rparr>)"
      unfolding c(10) by auto
    let ?v = "w1\<lparr>clock_now := n\<rparr>"
    have "run_loop env l w = run_loop env l ?v"
      using run_loop_step(3) [OF tick(1) _ n(2)] sleeping_next [OF tick(2)] wait d c by simp
    moreover have "sleeping ?v l [] ys"
      using s1 wait(1) n(1) late s unfolding sleeping_def by (auto intro: loop_rep_cong)
    moreover have "clock_now w < tm_due w (hd ts)" "ts \<noteq> []" if "ds = []"
    proof -
      have "set ts = set ys" using pc(2) that by (metis add_0 mset.simps(1) set_mset_mset)
      then show "ts \<noteq> []" "clock_now w < tm_due w (hd ts)" using wait(2) pc(4) by (cases ts, auto)+
    qed
    then have "drowsiness ?v [] ys < drowsiness w rs ts"
      using wait(2) n(1) len c(9) by (cases "ds = []"; cases "rs = []") (auto simp: drowsiness_def neq_Nil_conv)
    ultimately show ?thesis using less.hyps [of ?v "[]" ys] woken_later [of env l ?v "[]" ys w rs ds ts "clock_now w"]
      c tr pc wait(1) by simp
  qed
qed


definition nap_world :: traced where
  "nap_world = world.extend (world_init
     \<lparr>loops := (\<lambda>l. loop_init l)(0 := (loop_init 0)\<lparr>lp_timers := [1, 2]\<rparr>),
      op_active := (\<lambda>a. a = 1 \<or> a = 2), tm_due := (\<lambda>a. 10 * int a)\<rparr>) \<lparr>trace = []\<rparr>"

definition nap_env :: "traced env" where
  "nap_env =
     \<lparr>env_call = \<lambda>f w. (None, w), env_deliver = \<lambda>a w. w, env_resume = observe, env_hook = \<lambda>a w. w,
      env_cancel = \<lambda>a w. (Inr (), w), env_poll = \<lambda>l d w. (Inr (), w\<lparr>clock_now := clock_now w + d\<rparr>)\<rparr>"


end
