(* ===== verification/Ring_Buffer.thy ===== *)
theory Ring_Buffer
  imports Snowy_Prelude
begin

text \<open>
  The fixed circular storage that \<^verbatim>\<open>channel\<close> and \<^verbatim>\<open>mailbox\<close> keep: a vector of optional
  slots that never changes length, the index of the oldest value and the number of values.
  The same statements occur in \<^verbatim>\<open>push\<close> and \<^verbatim>\<open>pop\<close> of both classes; here they are two
  operations, refined to a bounded list.
\<close>

record 'v ring =
  slots :: "'v option list"
  ring_head :: nat
  ring_size :: nat

definition ring_init :: "nat \<Rightarrow> 'v ring" where
  "ring_init n = \<lparr>slots = replicate n None, ring_head = 0, ring_size = 0\<rparr>"

definition ring_full :: "'v ring \<Rightarrow> bool" where
  "ring_full r \<longleftrightarrow> ring_size r = length (slots r)"

text \<open>\<^verbatim>\<open>slots_[(head_ + size_) % slots_.size()].emplace(std::move(value)); ++size_;\<close>\<close>

definition ring_store :: "'v \<Rightarrow> 'v ring \<Rightarrow> 'v ring" where
  "ring_store v r =
     r\<lparr>slots := (slots r)[(ring_head r + ring_size r) mod length (slots r) := Some v],
       ring_size := ring_size r + 1\<rparr>"

text \<open>
  \<^verbatim>\<open>if (size_) { value.emplace(std::move(*slots_[head_])); slots_[head_].reset();
  head_ = (head_ + 1) % slots_.size(); --size_; }\<close>
\<close>

definition ring_fetch :: "'v ring \<Rightarrow> 'v option \<times> 'v ring" where
  "ring_fetch r =
     (if ring_size r \<noteq> 0 then
        (slots r ! ring_head r,
         r\<lparr>slots := (slots r)[ring_head r := None],
           ring_head := (ring_head r + 1) mod length (slots r),
           ring_size := ring_size r - 1\<rparr>)
      else (None, r))"

subsection \<open>Refinement to a bounded list\<close>

definition ring_cap :: "'v ring \<Rightarrow> nat" where
  "ring_cap r = length (slots r)"

text \<open>The slot that holds the \<open>i\<close>-th oldest value.\<close>

definition ring_index :: "'v ring \<Rightarrow> nat \<Rightarrow> nat" where
  "ring_index r i = (ring_head r + i) mod length (slots r)"

definition ring_inv :: "'v ring \<Rightarrow> bool" where
  "ring_inv r \<longleftrightarrow> ring_size r \<le> ring_cap r \<and> (ring_cap r = 0 \<and> ring_head r = 0 \<or> ring_head r < ring_cap r) \<and>
     (\<forall>i < ring_size r. slots r ! ring_index r i \<noteq> None)"

definition ring_list :: "'v ring \<Rightarrow> 'v list" where
  "ring_list r = map (\<lambda>i. the (slots r ! ring_index r i)) [0..<ring_size r]"

lemma ring_list_length [simp]: "length (ring_list r) = ring_size r"
  by (simp add: ring_list_def)

lemma ring_inv_init: "ring_inv (ring_init n)"
  by (auto simp: ring_inv_def ring_init_def ring_cap_def)

lemma ring_list_init [simp]: "ring_list (ring_init n) = []"
  by (simp add: ring_list_def ring_init_def)

lemma ring_cap_init [simp]: "ring_cap (ring_init n) = n"
  by (simp add: ring_init_def ring_cap_def)

lemma ring_cap_store [simp]: "ring_cap (ring_store v r) = ring_cap r"
  by (simp add: ring_store_def ring_cap_def)

lemma ring_cap_fetch [simp]: "ring_cap (snd (ring_fetch r)) = ring_cap r"
  by (simp add: ring_fetch_def ring_cap_def)

lemma mod_window_inj:
  fixes h i j n :: nat
  assumes "i < n" and "j < n" and "(h + i) mod n = (h + j) mod n"
  shows "i = j"
proof -
  have *: "a = b" if "a \<le> b" and "b < n" and "(h + a) mod n = (h + b) mod n" for a b
  proof -
    from that have "n dvd (h + b) - (h + a)" by (metis add_le_mono1 add.commute mod_eq_dvd_iff_nat)
    with that show ?thesis by (auto dest: dvd_imp_le)
  qed
  show ?thesis using assms *[of i j] *[of j i] by (cases "i \<le> j") auto
qed

lemma ring_store_inv:
  assumes inv: "ring_inv r" and room: "\<not> ring_full r"
  shows "ring_inv (ring_store v r)" and "ring_list (ring_store v r) = ring_list r @ [v]"
proof -
  let ?n = "length (slots r)" and ?s = "ring_size r"
  from inv room have s: "?s < ?n" by (auto simp: ring_inv_def ring_cap_def ring_full_def)
  then have b: "(ring_head r + i) mod ?n < ?n" for i by (intro mod_less_divisor) auto
  have ix: "ring_index (ring_store v r) i = ring_index r i" for i
    by (simp add: ring_index_def ring_store_def)
  have at: "slots (ring_store v r) ! ring_index r i =
      (if i = ?s then Some v else slots r ! ring_index r i)" if "i \<le> ?s" for i
    using that s b mod_window_inj [of i ?n ?s "ring_head r"]
    by (auto simp: ring_store_def ring_index_def nth_list_update)
  show "ring_inv (ring_store v r)"
    using inv s at ix by (auto simp: ring_inv_def ring_cap_def ring_store_def less_Suc_eq_le)
  have "ring_list (ring_store v r) = map (\<lambda>i. the (slots (ring_store v r) ! ring_index r i)) [0..<Suc ?s]"
    by (simp add: ring_list_def ix) (simp add: ring_store_def)
  also have "\<dots> = ring_list r @ [v]"
    using at by (auto simp: ring_list_def)
  finally show "ring_list (ring_store v r) = ring_list r @ [v]" .
qed

lemma ring_fetch_Cons:
  assumes inv: "ring_inv r" and l: "ring_list r = v # vs"
  shows "fst (ring_fetch r) = Some v" and "ring_inv (snd (ring_fetch r))"
    and "ring_list (snd (ring_fetch r)) = vs"
proof -
  let ?n = "length (slots r)" and ?s = "ring_size r" and ?r = "snd (ring_fetch r)"
  from l have s: "?s = Suc (length vs)" by (metis length_Cons ring_list_length)
  with inv have n: "0 < ?n" "?s \<le> ?n" "ring_head r < ?n"
    by (auto simp: ring_inv_def ring_cap_def)
  have hd: "ring_index r 0 = ring_head r" using n by (simp add: ring_index_def)
  have "slots r ! ring_head r \<noteq> None" using inv s hd by (force simp: ring_inv_def)
  moreover have "the (slots r ! ring_head r) = v"
    using l s hd by (simp add: ring_list_def upt_conv_Cons del: upt_Suc)
  ultimately show "fst (ring_fetch r) = Some v" using s by (auto simp: ring_fetch_def)
  have ix: "ring_index ?r i = ring_index r (Suc i)" for i
    using s by (simp add: ring_index_def ring_fetch_def mod_add_left_eq)
  have at: "slots ?r ! ring_index r (Suc i) = slots r ! ring_index r (Suc i)"
    if "Suc i < ?s" for i
    using that s n hd mod_window_inj [of "Suc i" ?n 0 "ring_head r"]
    by (auto simp: ring_fetch_def ring_index_def nth_list_update)
  show "ring_inv ?r"
    using inv s n at ix by (auto simp: ring_inv_def ring_cap_def) (auto simp: ring_fetch_def)
  have "ring_list ?r = map (\<lambda>i. the (slots r ! ring_index r (Suc i))) [0..<length vs]"
    using at s by (auto simp: ring_list_def ix) (auto simp: ring_fetch_def)
  also have "\<dots> = tl (ring_list r)"
    using s by (simp add: ring_list_def upt_conv_Cons map_Suc_upt [symmetric] comp_def del: upt_Suc)
  finally show "ring_list ?r = vs" using l by simp
qed

lemma ring_fetch_Nil:
  assumes "ring_list r = []" shows "ring_fetch r = (None, r)"
  using assms by (auto simp: ring_list_def ring_fetch_def)

lemma ring_full_iff: "ring_inv r \<Longrightarrow> ring_full r \<longleftrightarrow> length (ring_list r) = ring_cap r"
  by (simp add: ring_full_def ring_cap_def)

text \<open>The sum that selects a slot stays far below the range of \<^verbatim>\<open>std::size_t\<close>.\<close>

lemma ring_index_no_overflow:
  "ring_inv r \<Longrightarrow> ring_cap r \<le> 2 ^ 63 - 1 \<Longrightarrow> ring_head r + ring_size r < 2 ^ 64"
  by (auto simp: ring_inv_def)

subsection \<open>The contract of a bounded buffer\<close>

locale bounded_buffer =
  fixes inv :: "'b \<Rightarrow> bool"
    and contents :: "'b \<Rightarrow> 'v list"
    and cap :: "'b \<Rightarrow> nat"
    and full :: "'b \<Rightarrow> bool"
    and store :: "'v \<Rightarrow> 'b \<Rightarrow> 'b"
    and fetch :: "'b \<Rightarrow> 'v option \<times> 'b"
  assumes full_iff: "inv b \<Longrightarrow> full b \<longleftrightarrow> length (contents b) = cap b"
    and store_inv: "inv b \<Longrightarrow> \<not> full b \<Longrightarrow> inv (store v b)"
    and store_contents: "inv b \<Longrightarrow> \<not> full b \<Longrightarrow> contents (store v b) = contents b @ [v]"
    and store_cap: "cap (store v b) = cap b"
    and fetch_Nil: "inv b \<Longrightarrow> contents b = [] \<Longrightarrow> fetch b = (None, b)"
    and fetch_Cons: "inv b \<Longrightarrow> contents b = v # vs \<Longrightarrow>
      \<exists>b'. fetch b = (Some v, b') \<and> inv b' \<and> contents b' = vs \<and> cap b' = cap b"
    and contents_le_cap: "inv b \<Longrightarrow> length (contents b) \<le> cap b"
begin

text \<open>A value taken out of a full buffer leaves room for exactly one refill.\<close>

lemma fetch_then_store:
  assumes "inv b" and "contents b = v # vs" and "fetch b = (Some v, b')"
  shows "\<not> full b' \<and> inv (store u b') \<and> contents (store u b') = vs @ [u] \<and> cap (store u b') = cap b"
proof -
  from fetch_Cons [OF assms(1,2)] assms(3) have b': "inv b'" "contents b' = vs" "cap b' = cap b"
    by auto
  moreover have "\<not> full b'"
    using b' full_iff [OF b'(1)] contents_le_cap [OF assms(1)] assms(2) by simp
  ultimately show ?thesis using store_inv store_contents store_cap by auto
qed

end

interpretation ring: bounded_buffer ring_inv ring_list ring_cap ring_full ring_store ring_fetch
proof
  show "ring_inv b \<Longrightarrow> length (ring_list b) \<le> ring_cap b" for b :: "'v ring"
    by (simp add: ring_inv_def)
  show "ring_inv b \<Longrightarrow> ring_list b = v # vs \<Longrightarrow>
      \<exists>b'. ring_fetch b = (Some v, b') \<and> ring_inv b' \<and> ring_list b' = vs \<and> ring_cap b' = ring_cap b"
    for b :: "'v ring" and v vs
    using ring_fetch_Cons [of b v vs] ring_cap_fetch [of b] by (cases "ring_fetch b") auto
qed (auto simp: ring_full_iff ring_store_inv ring_fetch_Nil)

end
