(* ===== verification/Handoff.thy ===== *)
theory Handoff
  imports Snowy_Prelude
begin

text \<open>
  What \<^verbatim>\<open>channel\<close> and \<^verbatim>\<open>mailbox\<close> promise, without storage or pointers: a bounded FIFO whose
  blocked senders and receivers wait in order, with direct handoff between a value and the
  oldest live waiter.  The locale \<open>handoff\<close> is the contract both classes are shown to
  implement; order and conservation of values are proved once, in it.
\<close>

subsection \<open>The abstract queue\<close>

record 'v hq =
  hq_cap :: nat
  hq_buf :: "'v list"
  hq_snds :: "(addr \<times> 'v) list"
  hq_rcvs :: "addr list"

datatype accepted = Handed addr | Stored | Refused

definition hq_push :: "'v \<Rightarrow> 'v hq \<Rightarrow> accepted \<times> 'v hq" where
  "hq_push v q =
     (case hq_rcvs q of
        r # rs \<Rightarrow> (Handed r, q\<lparr>hq_rcvs := rs\<rparr>)
      | [] \<Rightarrow> if length (hq_buf q) < hq_cap q then (Stored, q\<lparr>hq_buf := hq_buf q @ [v]\<rparr>) else (Refused, q))"

text \<open>The value received and the sender, if any, that this released.\<close>

definition hq_pop :: "'v hq \<Rightarrow> ('v \<times> addr option) option \<times> 'v hq" where
  "hq_pop q =
     (case hq_buf q of
        x # xs \<Rightarrow>
          (case hq_snds q of
             [] \<Rightarrow> (Some (x, None), q\<lparr>hq_buf := xs\<rparr>)
           | (s, v) # ss \<Rightarrow> (Some (x, Some s), q\<lparr>hq_buf := xs @ [v], hq_snds := ss\<rparr>))
      | [] \<Rightarrow>
          (case hq_snds q of
             [] \<Rightarrow> (None, q)
           | (s, v) # ss \<Rightarrow> (Some (v, Some s), q\<lparr>hq_snds := ss\<rparr>)))"

definition hq_block_send :: "addr \<Rightarrow> 'v \<Rightarrow> 'v hq \<Rightarrow> 'v hq" where
  "hq_block_send a v q = q\<lparr>hq_snds := hq_snds q @ [(a, v)]\<rparr>"

definition hq_block_recv :: "addr \<Rightarrow> 'v hq \<Rightarrow> 'v hq" where
  "hq_block_recv a q = q\<lparr>hq_rcvs := hq_rcvs q @ [a]\<rparr>"

definition hq_inv :: "'v hq \<Rightarrow> bool" where
  "hq_inv q \<longleftrightarrow> length (hq_buf q) \<le> hq_cap q \<and> (hq_snds q \<noteq> [] \<longrightarrow> length (hq_buf q) = hq_cap q) \<and>
     (hq_rcvs q \<noteq> [] \<longrightarrow> hq_buf q = [] \<and> hq_snds q = [])"

text \<open>Everything accepted and not yet received, oldest first.\<close>

definition hq_contents :: "'v hq \<Rightarrow> 'v list" where
  "hq_contents q = hq_buf q @ map snd (hq_snds q)"

lemma hq_push_cases:
  assumes "hq_inv q" and "hq_push v q = (r, q')"
  shows "hq_inv q'" and "r = Stored \<Longrightarrow> hq_contents q' = hq_contents q @ [v]"
    and "r = Refused \<Longrightarrow> q' = q \<and> hq_rcvs q = [] \<and> length (hq_buf q) = hq_cap q"
    and "r = Handed a \<Longrightarrow> hq_contents q = [] \<and> hq_contents q' = [] \<and> hq_rcvs q = a # hq_rcvs q'"
  using assms by (auto simp: hq_push_def hq_inv_def hq_contents_def split: list.splits if_splits)

lemma hq_pop_cases:
  assumes "hq_inv q" and "hq_pop q = (r, q')"
  shows "hq_inv q'" and "r = None \<Longrightarrow> q' = q \<and> hq_contents q = [] \<and> hq_snds q = []"
    and "r = Some (x, s) \<Longrightarrow> hq_contents q = x # hq_contents q'"
    and "hq_rcvs q' = hq_rcvs q"
  using assms by (auto simp: hq_pop_def hq_inv_def hq_contents_def split: list.splits)

lemma hq_block_send_inv:
  assumes "hq_inv q" and "hq_push v q = (Refused, q')"
  shows "hq_inv (hq_block_send a v q')" and "hq_contents (hq_block_send a v q') = hq_contents q @ [v]"
  using assms by (auto simp: hq_push_def hq_inv_def hq_block_send_def hq_contents_def split: list.splits if_splits)

lemma hq_block_recv_inv:
  assumes "hq_inv q" and "hq_pop q = (None, q')"
  shows "hq_inv (hq_block_recv a q')" and "hq_contents (hq_block_recv a q') = hq_contents q"
  using assms by (auto simp: hq_pop_def hq_inv_def hq_block_recv_def hq_contents_def split: list.splits)

subsection \<open>The contract\<close>

text \<open>
  \<open>rep\<close> relates a concrete queue to the abstract one; \<open>push\<close> and \<open>pop\<close> are the nonblocking
  operations of the source, \<open>None\<close> when a pointer loop does not end, which the contract excludes.
\<close>

locale handoff =
  fixes rep :: "'s \<Rightarrow> 'v hq \<Rightarrow> bool"
    and push :: "'v \<Rightarrow> 's \<Rightarrow> (bool \<times> 's) option"
    and pop :: "'s \<Rightarrow> ('v option \<times> 's) option"
  assumes rep_inv: "rep s q \<Longrightarrow> hq_inv q"
    and push_rep: "rep s q \<Longrightarrow>
      \<exists>s'. push v s = Some (fst (hq_push v q) \<noteq> Refused, s') \<and> rep s' (snd (hq_push v q))"
    and pop_rep: "rep s q \<Longrightarrow>
      \<exists>s'. pop s = Some (map_option fst (fst (hq_pop q)), s') \<and> rep s' (snd (hq_pop q))"
begin

text \<open>A client program of nonblocking sends (\<open>Inl v\<close>) and receives (\<open>Inr ()\<close>): the values
  accepted into the queue and the values received, in order.\<close>

primrec run :: "('v + unit) list \<Rightarrow> 's \<Rightarrow> ('v list \<times> 'v list \<times> 's) option" where
  "run [] s = Some ([], [], s)"
| "run (c # cs) s =
     (case c of
        Inl v \<Rightarrow>
          (case push v s of None \<Rightarrow> None
           | Some (ok, s1) \<Rightarrow>
               (case run cs s1 of None \<Rightarrow> None
                | Some (ins, outs, s2) \<Rightarrow> Some ((if ok then v # ins else ins), outs, s2)))
      | Inr u \<Rightarrow>
          (case pop s of None \<Rightarrow> None
           | Some (r, s1) \<Rightarrow>
               (case run cs s1 of None \<Rightarrow> None
                | Some (ins, outs, s2) \<Rightarrow> Some (ins, (case r of None \<Rightarrow> outs | Some v \<Rightarrow> v # outs), s2))))"

text \<open>With no receiver waiting, values come out in the order they went in and none is lost
  or duplicated; the program always ends.\<close>

lemma run_fifo:
  assumes "rep s q" and "hq_rcvs q = []"
  shows "\<exists>ins outs s' q'. run cs s = Some (ins, outs, s') \<and> rep s' q' \<and> hq_rcvs q' = [] \<and>
    outs @ hq_contents q' = hq_contents q @ ins"
  using assms
proof (induction cs arbitrary: s q)
  case Nil
  then show ?case by auto
next
  case (Cons c cs)
  show ?case
  proof (cases c)
    case (Inl v)
    obtain r q1 where p: "hq_push v q = (r, q1)" by fastforce
    note pc = hq_push_cases [OF rep_inv [OF Cons.prems(1)] p]
    from push_rep [OF Cons.prems(1), of v] p obtain s1 where s1: "push v s = Some (r \<noteq> Refused, s1)" "rep s1 q1"
      by auto
    have q1: "hq_rcvs q1 = []" using p Cons.prems(2) by (auto simp: hq_push_def split: if_splits)
    have "r \<noteq> Handed a" for a using pc(4) [of a] Cons.prems(2) by auto
    then have "hq_contents q1 = hq_contents q @ (if r \<noteq> Refused then [v] else [])"
      using pc(2,3) by (cases r) auto
    with Cons.IH [OF s1(2) q1] s1(1) Inl show ?thesis by fastforce
  next
    case (Inr u)
    obtain r q1 where p: "hq_pop q = (r, q1)" by fastforce
    note pc = hq_pop_cases [OF rep_inv [OF Cons.prems(1)] p]
    from pop_rep [OF Cons.prems(1)] p obtain s1 where s1: "pop s = Some (map_option fst r, s1)" "rep s1 q1"
      by auto
    have q1: "hq_rcvs q1 = []" using pc(4) Cons.prems(2) by simp
    have "hq_contents q = (case map_option fst r of None \<Rightarrow> [] | Some v \<Rightarrow> [v]) @ hq_contents q1"
      using pc(2) pc(3) by (cases r) auto
    with Cons.IH [OF s1(2) q1] s1(1) Inr show ?thesis by (fastforce split: option.splits)
  qed
qed

end

end
