(* ===== verification/Channel.thy ===== *)
theory Channel
  imports Loop_Inv Ring_Buffer Handoff
begin

text \<open>
  \<^verbatim>\<open>channel<T>\<close> of \<^verbatim>\<open>channel.hpp\<close>: the bounded owner-thread FIFO with direct handoff.  One
  channel is the extension of the world below; its nodes are waits (\<^verbatim>\<open>detail::wait\<close>) that are
  linked a second time, by \<^verbatim>\<open>next_\<close> and \<^verbatim>\<open>prev_\<close>, into the channel's queue.
\<close>

subsection \<open>Definitions\<close>

record 'v chan = world +
  ch_loop :: loop_id
  ch_ring :: "'v ring"
  ch_closed :: bool
  ch_first :: ptr
  ch_last :: ptr
  nd_next :: field_ptr
  nd_prev :: field_ptr
  nd_linked :: "addr \<Rightarrow> bool"
  nd_sending :: "addr \<Rightarrow> bool"
  nd_value :: "addr \<Rightarrow> 'v option"

definition channel_init :: "loop_id \<Rightarrow> nat \<Rightarrow> ('v, 'z) chan_scheme \<Rightarrow> ('v, 'z) chan_scheme" where
  "channel_init l cap w =
     w\<lparr>ch_loop := l, ch_ring := ring_init cap, ch_closed := False, ch_first := None, ch_last := None\<rparr>"

text \<open>The constructor of an awaiter: a wait of the channel's loop, interruptible, not linked.\<close>

definition node_init :: "addr \<Rightarrow> bool \<Rightarrow> token_id option \<Rightarrow> 'v option \<Rightarrow> ('v, 'z) chan_scheme \<Rightarrow> ('v, 'z) chan_scheme" where
  "node_init a send k v w =
     w\<lparr>op_owner := (op_owner w)(a := ch_loop w), op_error := (op_error w)(a := None),
       op_canceled := (op_canceled w)(a := False), op_token := (op_token w)(a := k),
       wt_prev := (wt_prev w)(a := None), wt_interruptible := (wt_interruptible w)(a := True),
       wt_hook := (wt_hook w)(a := False),
       nd_next := (nd_next w)(a := None), nd_prev := (nd_prev w)(a := None),
       nd_linked := (nd_linked w)(a := False), nd_sending := (nd_sending w)(a := send),
       nd_value := (nd_value w)(a := v)\<rparr>"

definition chan_unlink :: "addr \<Rightarrow> ('v, 'z) chan_scheme \<Rightarrow> ('v, 'z) chan_scheme" where
  "chan_unlink a w =
     (case dl_unlink_ends a ((nd_next w, nd_prev w), ch_first w, ch_last w) of
        ((nx, pv), first, lst) \<Rightarrow>
          w\<lparr>nd_next := nx, nd_prev := pv, ch_first := first, ch_last := lst,
            nd_linked := (nd_linked w)(a := False)\<rparr>)"

definition chan_link :: "addr \<Rightarrow> ('v, 'z) chan_scheme \<Rightarrow> ('v, 'z) chan_scheme" where
  "chan_link a w =
     (case dl_push_back a ((nd_next w, nd_prev w), ch_first w, ch_last w) of
        ((nx, pv), first, lst) \<Rightarrow>
          w\<lparr>nd_linked := (nd_linked w)(a := True), nd_next := nx, nd_prev := pv, ch_first := first, ch_last := lst\<rparr>)"

text \<open>The condition under which \<^verbatim>\<open>take\<close> may match a queued node.\<close>

definition node_live :: "('v, 'z) chan_scheme \<Rightarrow> addr \<Rightarrow> bool" where
  "node_live w a \<longleftrightarrow> op_active w a \<and> \<not> op_canceled w a \<and> \<not> loop_stopped (ch_loop w) w"

text \<open>The pruning of one dead node: unlink it, and complete it as canceled if it is still parked.\<close>

definition chan_prune :: "addr \<Rightarrow> ('v, 'z) chan_scheme \<Rightarrow> ('v, 'z) chan_scheme" where
  "chan_prune a w =
     (let w1 = chan_unlink a w in
      if op_active w1 a then wait_notify a (set_error a (Some Operation_Canceled) w1) else w1)"

partial_function (option) chan_take :: "bool \<Rightarrow> ('v, 'z) chan_scheme \<Rightarrow> (ptr \<times> ('v, 'z) chan_scheme) option" where
  "chan_take sending w =
     (case ch_first w of
        None \<Rightarrow> Some (None, w)
      | Some a \<Rightarrow>
          if node_live w a
          then (if nd_sending w a \<noteq> sending then Some (None, w) else Some (Some a, chan_unlink a w))
          else chan_take sending (chan_prune a w))"

definition chan_push :: "'v \<Rightarrow> ('v, 'z) chan_scheme \<Rightarrow> (bool \<times> ('v, 'z) chan_scheme) option" where
  "chan_push v w =
     (case chan_take False w of
        None \<Rightarrow> None
      | Some (Some r, w1) \<Rightarrow> Some (True, wait_notify r (w1\<lparr>nd_value := (nd_value w1)(r := Some v)\<rparr>))
      | Some (None, w1) \<Rightarrow>
          if ring_full (ch_ring w1) then Some (False, w1)
          else Some (True, w1\<lparr>ch_ring := ring_store v (ch_ring w1)\<rparr>))"

definition chan_pop :: "('v, 'z) chan_scheme \<Rightarrow> ('v option \<times> ('v, 'z) chan_scheme) option" where
  "chan_pop w =
     (case ring_fetch (ch_ring w) of (value, r) \<Rightarrow>
        (case chan_take True (w\<lparr>ch_ring := r\<rparr>) of
           None \<Rightarrow> None
         | Some (None, w1) \<Rightarrow> Some (value, w1)
         | Some (Some s, w1) \<Rightarrow>
             (case value of
                Some x \<Rightarrow> Some (Some x, wait_notify s (w1\<lparr>ch_ring := ring_store (the (nd_value w1 s)) (ch_ring w1)\<rparr>))
              | None \<Rightarrow> Some (nd_value w1 s, wait_notify s w1))))"

text \<open>\<^verbatim>\<open>node::await_suspend\<close>.\<close>

definition node_suspend :: "thread_id \<Rightarrow> addr \<Rightarrow> handle_id \<Rightarrow> ('v, 'z) chan_scheme \<Rightarrow> (bool, ('v, 'z) chan_scheme) result option" where
  "node_suspend t a h w =
     (let l = op_owner w a;
          block = (\<lambda>w. case wait_park t a h (op_token w a) w of
             (Inr True, w1) \<Rightarrow> (Inr True, chan_link a w1)
           | (r, w1) \<Rightarrow> (r, w1)) in
      if \<not> loop_check t l w then Some (Inl wrong_thread, w)
      else if loop_stopped l w \<or> stop_requested (op_token w a) w
        then Some (Inr False, set_error a (Some Operation_Canceled) w)
      else if nd_sending w a then
        (if ch_closed w then Some (Inr False, set_error a (Some Broken_Pipe) w)
         else case chan_push (the (nd_value w a)) w of
                None \<Rightarrow> None
              | Some (True, w1) \<Rightarrow> Some (Inr False, w1)
              | Some (False, w1) \<Rightarrow> Some (block w1))
      else
        (case chan_pop w of
           None \<Rightarrow> None
         | Some (Some x, w1) \<Rightarrow> Some (Inr False, w1\<lparr>nd_value := (nd_value w1)(a := Some x)\<rparr>)
         | Some (None, w1) \<Rightarrow> if ch_closed w1 then Some (Inr False, w1) else Some (block w1)))"

definition node_destroy :: "addr \<Rightarrow> ('v, 'z) chan_scheme \<Rightarrow> ('v, 'z) chan_scheme" where
  "node_destroy a w = (if nd_linked w a then chan_unlink a w else w)"

text \<open>\<^verbatim>\<open>awaiter::await_resume\<close>: the error, or for a receive the value (nullopt after close).\<close>

definition node_resume :: "addr \<Rightarrow> ('v, 'z) chan_scheme \<Rightarrow> exn + 'v option" where
  "node_resume a w =
     (case op_resume a w of Inl e \<Rightarrow> Inl e | Inr _ \<Rightarrow> Inr (if nd_sending w a then None else nd_value w a))"

definition try_send :: "thread_id \<Rightarrow> 'v \<Rightarrow> ('v, 'z) chan_scheme \<Rightarrow> (bool, ('v, 'z) chan_scheme) result option" where
  "try_send t v w =
     (if \<not> loop_check t (ch_loop w) w then Some (Inl wrong_thread, w)
      else if ch_closed w \<or> loop_stopped (ch_loop w) w then Some (Inr False, w)
      else case chan_push v w of None \<Rightarrow> None | Some (b, w1) \<Rightarrow> Some (Inr b, w1))"

definition try_recv :: "thread_id \<Rightarrow> ('v, 'z) chan_scheme \<Rightarrow> ('v option, ('v, 'z) chan_scheme) result option" where
  "try_recv t w =
     (if \<not> loop_check t (ch_loop w) w then Some (Inl wrong_thread, w)
      else if loop_stopped (ch_loop w) w then Some (Inr None, w)
      else case chan_pop w of None \<Rightarrow> None | Some (x, w1) \<Rightarrow> Some (Inr x, w1))"

text \<open>The loop of \<^verbatim>\<open>close\<close>: empty the queue, rejecting parked senders and ending parked receivers.\<close>

partial_function (option) close_loop :: "('v, 'z) chan_scheme \<Rightarrow> ('v, 'z) chan_scheme option" where
  "close_loop w =
     (case ch_first w of
        None \<Rightarrow> Some w
      | Some a \<Rightarrow>
          (let w1 = chan_unlink a w in
           if \<not> op_active w1 a then close_loop w1
           else close_loop (wait_notify a (if nd_sending w1 a then set_error a (Some Broken_Pipe) w1 else w1))))"

definition chan_close :: "thread_id \<Rightarrow> ('v, 'z) chan_scheme \<Rightarrow> (unit, ('v, 'z) chan_scheme) result option" where
  "chan_close t w =
     (if \<not> loop_check t (ch_loop w) w then Some (Inl wrong_thread, w)
      else (case close_loop (w\<lparr>ch_closed := True\<rparr>) of None \<Rightarrow> None | Some w1 \<Rightarrow> Some (Inr (), w1)))"

subsection \<open>Frames\<close>

lemma chan_fields_notify [simp]:
  "ch_loop (wait_notify a w) = ch_loop w" "ch_ring (wait_notify a w) = ch_ring w"
  "ch_closed (wait_notify a w) = ch_closed w" "ch_first (wait_notify a w) = ch_first w"
  "ch_last (wait_notify a w) = ch_last w" "nd_next (wait_notify a w) = nd_next w"
  "nd_prev (wait_notify a w) = nd_prev w" "nd_linked (wait_notify a w) = nd_linked w"
  "nd_sending (wait_notify a w) = nd_sending w" "nd_value (wait_notify a w) = nd_value w"
  by (simp_all add: wait_notify_def wait_unlink_def loop_finish_def callback_reset_def ready_push_def
      upd_loop_def Let_def split: prod.split option.split)

lemma chan_fields_error [simp]:
  "ch_loop (set_error a e w) = ch_loop w" "ch_ring (set_error a e w) = ch_ring w"
  "ch_closed (set_error a e w) = ch_closed w" "ch_first (set_error a e w) = ch_first w"
  "ch_last (set_error a e w) = ch_last w" "nd_next (set_error a e w) = nd_next w"
  "nd_prev (set_error a e w) = nd_prev w" "nd_linked (set_error a e w) = nd_linked w"
  "nd_sending (set_error a e w) = nd_sending w" "nd_value (set_error a e w) = nd_value w"
  by (simp_all add: set_error_def)

lemma chan_unlink_frame [simp]:
  "op_active (chan_unlink a w) = op_active w" "op_canceled (chan_unlink a w) = op_canceled w"
  "op_owner (chan_unlink a w) = op_owner w" "loops (chan_unlink a w) = loops w"
  "op_error (chan_unlink a w) = op_error w" "ch_loop (chan_unlink a w) = ch_loop w"
  "ch_ring (chan_unlink a w) = ch_ring w" "ch_closed (chan_unlink a w) = ch_closed w"
  "nd_sending (chan_unlink a w) = nd_sending w" "nd_value (chan_unlink a w) = nd_value w"
  "nd_linked (chan_unlink a w) = (nd_linked w)(a := False)" "r_next (chan_unlink a w) = r_next w"
  by (simp_all add: chan_unlink_def split: prod.split)

lemma rep_chan_unlink: "loop_rep w l A rs ts ws ns \<Longrightarrow> loop_rep (chan_unlink a w) l A rs ts ws ns"
  by (erule loop_rep_cong) (auto simp: chan_unlink_def split: prod.split)

lemma stopped_frame [simp]:
  "loop_stopped l (chan_unlink a w) = loop_stopped l w" "loop_stopped l (wait_notify a w) = loop_stopped l w"
  "loop_stopped l (set_error a e w) = loop_stopped l w"
  by (simp_all add: loop_stopped_def)

subsection \<open>Representation\<close>

text \<open>
  The nodes of a queue all wait in one direction: senders only behind a full buffer,
  receivers only before an empty one.
\<close>

definition queue_dir :: "('v, 'z) chan_scheme \<Rightarrow> addr list \<Rightarrow> bool" where
  "queue_dir w xs \<longleftrightarrow> xs = [] \<or>
     ring_full (ch_ring w) \<and> (\<forall>a \<in> set xs. nd_sending w a \<and> nd_value w a \<noteq> None) \<or>
     ring_size (ch_ring w) = 0 \<and> (\<forall>a \<in> set xs. \<not> nd_sending w a)"

lemma queue_dir_subset: "queue_dir w xs \<Longrightarrow> set ys \<subseteq> set xs \<Longrightarrow> queue_dir w ys"
  unfolding queue_dir_def by auto

lemma queue_dir_cong:
  "ch_ring w' = ch_ring w \<Longrightarrow> nd_sending w' = nd_sending w \<Longrightarrow> (\<And>a. a \<in> set xs \<Longrightarrow> nd_value w' a = nd_value w a) \<Longrightarrow>
   queue_dir w' xs = queue_dir w xs"
  unfolding queue_dir_def by auto

text \<open>
  The channel's queue holds the nodes \<open>xs\<close>; a node that is still parked is among the waits
  of the loop.
\<close>

definition chan_base :: "('v, 'z) chan_scheme \<Rightarrow> loop_id \<Rightarrow> addr list \<Rightarrow> addr list \<Rightarrow> addr list \<Rightarrow> addr list \<Rightarrow> addr list \<Rightarrow> bool" where
  "chan_base w l xs rs ts ws ns \<longleftrightarrow>
     ch_loop w = l \<and> loop_rep w l {} rs ts ws ns \<and>
     dll_ends ((nd_next w, nd_prev w), ch_first w, ch_last w) xs \<and>
     (\<forall>a \<in> set xs. op_owner w a = l \<and> (op_active w a \<longrightarrow> a \<in> set ws)) \<and>
     (\<forall>a. nd_linked w a \<longleftrightarrow> a \<in> set xs) \<and> (ch_closed w \<longrightarrow> xs = [])"

lemma chan_baseD:
  assumes "chan_base w l xs rs ts ws ns"
  shows "ch_loop w = l" "loop_rep w l {} rs ts ws ns"
    "dll_ends ((nd_next w, nd_prev w), ch_first w, ch_last w) xs"
    "\<And>a. a \<in> set xs \<Longrightarrow> op_owner w a = l" "\<And>a. a \<in> set xs \<Longrightarrow> op_active w a \<Longrightarrow> a \<in> set ws"
    "\<And>a. nd_linked w a \<longleftrightarrow> a \<in> set xs" "ch_closed w \<Longrightarrow> xs = []"
  using assms unfolding chan_base_def by blast+

lemma chan_base_unlink:
  assumes rep: "chan_base w l xs rs ts ws ns" and a: "a \<in> set xs"
  shows "chan_base (chan_unlink a w) l (remove1 a xs) rs ts ws ns"
proof -
  note r = chan_baseD [OF rep]
  have "dll_ends ((nd_next (chan_unlink a w), nd_prev (chan_unlink a w)), ch_first (chan_unlink a w), ch_last (chan_unlink a w)) (remove1 a xs)"
    using dll_unlink_ends [OF r(3) a] by (auto simp: chan_unlink_def split: prod.splits)
  moreover have s: "set (remove1 a xs) = set xs - {a}" using dll_ends_distinct [OF r(3)] by (rule set_remove1_eq)
  moreover have "ch_closed w \<Longrightarrow> remove1 a xs = []" using r(7) by simp
  ultimately show ?thesis
    using r(1,4,5,6) rep_chan_unlink [OF r(2)] unfolding chan_base_def by auto
qed

lemma chan_first_rep: "chan_base w l xs rs ts ws ns \<Longrightarrow> ch_first w = hd_opt xs"
  by (drule chan_baseD(3)) (rule dll_ends_first)

lemma waits_rep:
  assumes "chan_base w l xs rs ts ws ns" and "a \<in> set xs"
  shows "op_active w a \<longleftrightarrow> a \<in> set ws"
  using chan_baseD(5) [OF assms] loop_repD(9) [OF chan_baseD(2) [OF assms(1)], of a] chan_baseD(4) [OF assms]
  by auto

text \<open>Retiring a wait that is no longer in the queue.\<close>

lemma chan_base_notify:
  assumes rep: "chan_base w l xs rs ts ws ns" and a: "a \<in> set ws" "a \<notin> set xs"
  shows "chan_base (wait_notify a w) l xs (rs @ [a]) ts (remove1 a ws) ns"
proof -
  note r = chan_baseD [OF rep]
  show ?thesis
    using r(1,3,4,5,6,7) rep_wait_notify [OF r(2) a(1)] a unfolding chan_base_def by auto
qed

lemma chan_base_error:
  assumes "chan_base w l xs rs ts ws ns"
  shows "chan_base (set_error a e w) l xs rs ts ws ns"
proof -
  note r = chan_baseD [OF assms]
  show ?thesis using r(1,3,4,5,6,7) rep_set_error [OF r(2)] unfolding chan_base_def by auto
qed

text \<open>What an operation on the nodes \<open>S\<close> leaves alone: the links of all other nodes, and the
  parts of the world no queue operation writes.\<close>

definition chan_frame :: "addr set \<Rightarrow> ('v, 'z) chan_scheme \<Rightarrow> ('v, 'z) chan_scheme \<Rightarrow> bool" where
  "chan_frame S w w' \<longleftrightarrow>
     (\<forall>a. a \<notin> S \<longrightarrow> wt_prev w' a = wt_prev w a \<and> nd_next w' a = nd_next w a \<and> op_error w' a = op_error w a) \<and>
     wt_interruptible w' = wt_interruptible w \<and> op_token w' = op_token w \<and> stop_flag w' = stop_flag w \<and>
     (\<forall>k. lp_thread (loops w' k) = lp_thread (loops w k))"

lemma chan_frame_refl [simp]: "chan_frame S w w"
  by (simp add: chan_frame_def)

lemma chan_frame_trans: "chan_frame S w w1 \<Longrightarrow> chan_frame T w1 w2 \<Longrightarrow> S \<subseteq> U \<Longrightarrow> T \<subseteq> U \<Longrightarrow> chan_frame U w w2"
  unfolding chan_frame_def by (metis subsetD)

lemma chan_frame_mono: "chan_frame S w w' \<Longrightarrow> S \<subseteq> U \<Longrightarrow> chan_frame U w w'"
  by (rule chan_frame_trans [OF _ chan_frame_refl [of U]]) auto

lemma chan_frame_unlink:
  assumes "chan_base w l xs rs ts ws ns" and "a \<in> set xs"
  shows "chan_frame (set xs) w (chan_unlink a w)"
proof -
  obtain nx pv f e where u: "dl_unlink_ends a ((nd_next w, nd_prev w), ch_first w, ch_last w) = ((nx, pv), f, e)"
    by (metis prod.exhaust)
  have "nx b = nd_next w b" if "b \<notin> set xs" for b
    using dl_unlink_ends_frame [OF u chan_baseD(3) [OF assms(1)] assms(2) that] by simp
  then show ?thesis by (simp add: chan_frame_def chan_unlink_def u)
qed

lemma chan_frame_notify:
  assumes "chan_base w l xs rs ts ws ns" and "a \<in> set ws"
  shows "chan_frame (set ws) w (wait_notify a w)"
proof -
  note r = loop_repD [OF chan_baseD(2) [OF assms(1)]]
  have own: "op_owner w a = l" and act: "op_active w a" using r(8,9) assms(2) by auto
  obtain nx pv f where u: "dl_unlink a ((wt_next w, wt_prev w), lp_waits (loops w l)) = ((nx, pv), f)"
    by (metis prod.exhaust)
  have "pv b = wt_prev w b" if "b \<notin> set ws" for b
    using dl_unlink_frame [OF u r(4) assms(2) that] by simp
  moreover have "wt_prev (wait_notify a w) = pv"
    using u own act by (simp add: wait_notify_def wait_unlink_def Let_def)
  moreover have "op_token (wait_notify a w) = op_token w" "stop_flag (wait_notify a w) = stop_flag w" by simp_all
  ultimately show ?thesis by (simp add: chan_frame_def)
qed

lemma chan_frame_error: "a \<in> S \<Longrightarrow> chan_frame S w (set_error a e w)"
  by (auto simp: chan_frame_def set_error_def)

lemma chan_prune_frame [simp]:
  "ch_loop (chan_prune a w) = ch_loop w" "ch_ring (chan_prune a w) = ch_ring w"
  "ch_closed (chan_prune a w) = ch_closed w" "nd_sending (chan_prune a w) = nd_sending w"
  "nd_value (chan_prune a w) = nd_value w" "op_canceled (chan_prune a w) = op_canceled w"
  "loop_stopped l (chan_prune a w) = loop_stopped l w" "op_owner (chan_prune a w) = op_owner w"
  "op_active (chan_prune a w) = (op_active w)(a := False)"
  "op_error (chan_prune a w) = (if op_active w a then (op_error w)(a := Some Operation_Canceled) else op_error w)"
  by (simp_all add: chan_prune_def Let_def fun_eq_iff)

lemma chan_base_prune:
  assumes rep: "chan_base w l (a # xs) rs ts ws ns"
  shows "chan_base (chan_prune a w) l xs (rs @ (if op_active w a then [a] else [])) ts (remove1 a ws) ns"
proof -
  have u: "chan_base (chan_unlink a w) l xs rs ts ws ns" using chan_base_unlink [OF rep, of a] by simp
  have n: "a \<notin> set xs" using dll_ends_distinct [OF chan_baseD(3) [OF rep]] by simp
  show ?thesis
  proof (cases "op_active w a")
    case True
    then have "a \<in> set ws" using waits_rep [OF rep] by simp
    then show ?thesis using chan_base_notify [OF chan_base_error [OF u]] n True
      by (simp add: chan_prune_def Let_def)
  next
    case False
    then have "a \<notin> set ws" using waits_rep [OF rep] by simp
    then show ?thesis using u False by (simp add: chan_prune_def Let_def remove1_idem)
  qed
qed

lemma chan_frame_prune:
  assumes rep: "chan_base w l (a # xs) rs ts ws ns"
  shows "chan_frame (set (a # xs) \<union> set ws) w (chan_prune a w)"
proof -
  have u: "chan_base (chan_unlink a w) l xs rs ts ws ns" using chan_base_unlink [OF rep, of a] by simp
  have f: "chan_frame (set (a # xs)) w (chan_unlink a w)" by (rule chan_frame_unlink [OF rep]) simp
  show ?thesis
  proof (cases "op_active w a")
    case True
    then have "a \<in> set ws" using waits_rep [OF rep] by simp
    then have "chan_frame (set ws) (chan_unlink a w) (wait_notify a (set_error a (Some Operation_Canceled) (chan_unlink a w)))"
      by (intro chan_frame_trans [OF chan_frame_error [of a "set ws"] chan_frame_notify [OF chan_base_error [OF u]]]) auto
    from chan_frame_trans [OF f this, of "set (a # xs) \<union> set ws"] True show ?thesis
      by (simp add: chan_prune_def Let_def subset_insertI2)
  next
    case False
    then have "chan_prune a w = chan_unlink a w" by (simp add: chan_prune_def Let_def)
    moreover have "chan_frame (set (a # xs) \<union> set ws) w (chan_unlink a w)" by (rule chan_frame_mono [OF f]) auto
    ultimately show ?thesis by simp
  qed
qed

lemma node_live_prune [simp]: "b \<noteq> a \<Longrightarrow> node_live (chan_prune a w) b = node_live w b"
  by (simp add: node_live_def)

lemma chan_take_stop:
  "ch_first w = None \<Longrightarrow> chan_take d w = Some (None, w)"
  "ch_first w = Some a \<Longrightarrow> node_live w a \<Longrightarrow> nd_sending w a \<noteq> d \<Longrightarrow> chan_take d w = Some (None, w)"
  "ch_first w = Some a \<Longrightarrow> node_live w a \<Longrightarrow> nd_sending w a = d \<Longrightarrow> chan_take d w = Some (Some a, chan_unlink a w)"
  "ch_first w = Some a \<Longrightarrow> \<not> node_live w a \<Longrightarrow> chan_take d w = chan_take d (chan_prune a w)"
  by (simp_all add: chan_take.simps [of d w])

text \<open>
  \<^verbatim>\<open>take\<close> ends: it retires the dead nodes at the front and then looks at the first live one.
\<close>

definition took :: "bool \<Rightarrow> ('v, 'z) chan_scheme \<Rightarrow> addr list \<Rightarrow> ptr" where
  "took d w xs = (case filter (node_live w) xs of [] \<Rightarrow> None | a # _ \<Rightarrow> if nd_sending w a = d then Some a else None)"

lemma chan_take_total:
  assumes "chan_base w l xs rs ts ws ns"
  shows "\<exists>w' ys rs' ws'. chan_take d w = Some (took d w xs, w') \<and> chan_base w' l ys rs' ts ws' ns \<and>
    set ys \<subseteq> set xs \<and> (\<forall>a \<in> set ys. node_live w' a = node_live w a) \<and>
    filter (node_live w) ys = (if took d w xs = None then filter (node_live w) xs else tl (filter (node_live w) xs)) \<and>
    (took d w xs = None \<longrightarrow> ys = dropWhile (\<lambda>a. \<not> node_live w a) xs) \<and>
    ch_ring w' = ch_ring w \<and> nd_value w' = nd_value w \<and> nd_sending w' = nd_sending w \<and> ch_closed w' = ch_closed w \<and>
    op_canceled w' = op_canceled w \<and> op_owner w' = op_owner w \<and> lp_stopping (loops w' l) = lp_stopping (loops w l) \<and>
    set rs' \<subseteq> set rs \<union> set ws \<and> set ws' \<subseteq> set ws \<and> chan_frame (set xs \<union> set ws) w w' \<and>
    (\<forall>a. took d w xs = Some a \<longrightarrow> a \<in> set ws' \<and> a \<notin> set ys \<and> a \<in> set xs \<and> op_error w' a = op_error w a)"
  using assms
proof (induction xs arbitrary: w rs ws)
  case Nil
  then show ?case using chan_take_stop(1) [of w d] chan_first_rep [OF Nil] by (auto simp: took_def)
next
  case (Cons a xs)
  have first: "ch_first w = Some a" using chan_first_rep [OF Cons.prems] by simp
  have n: "a \<notin> set xs" using dll_ends_distinct [OF chan_baseD(3) [OF Cons.prems]] by simp
  show ?case
  proof (cases "node_live w a")
    case True
    show ?thesis
    proof (cases "nd_sending w a = d")
      case same: True
      have "chan_base (chan_unlink a w) l xs rs ts ws ns" using chan_base_unlink [OF Cons.prems, of a] by simp
      moreover have "a \<in> set ws" using True waits_rep [OF Cons.prems] by (simp add: node_live_def)
      moreover have "node_live (chan_unlink a w) b = node_live w b" for b by (simp add: node_live_def)
      moreover have "chan_frame (set (a # xs) \<union> set ws) w (chan_unlink a w)"
        by (rule chan_frame_mono [OF chan_frame_unlink [OF Cons.prems, of a]]) auto
      ultimately show ?thesis using chan_take_stop(3) [OF first True same] True same n
        by (intro exI [of _ "chan_unlink a w"] exI [of _ xs] exI [of _ rs] exI [of _ ws]) (auto simp: took_def)
    next
      case False
      then show ?thesis using chan_take_stop(2) [OF first True False] True Cons.prems
        by (intro exI [of _ w] exI [of _ "a # xs"] exI [of _ rs] exI [of _ ws]) (auto simp: took_def)
    qed
  next
    case False
    let ?v = "chan_prune a w"
    have pl: "node_live ?v b = node_live w b" if "b \<in> set xs" for b using n that by (metis node_live_prune)
    have lv: "filter (node_live ?v) xs = filter (node_live w) xs" using pl by (intro filter_cong) auto
    then have tk: "took d ?v xs = took d w (a # xs)" using False by (simp add: took_def split: list.split)
    have st: "lp_stopping (loops ?v l) = lp_stopping (loops w l)"
      using chan_prune_frame(7) [of l a w] by (simp add: loop_stopped_def)
    have dw: "dropWhile (\<lambda>a. \<not> node_live ?v a) xs = dropWhile (\<lambda>a. \<not> node_live w a) xs"
      using pl by (intro dropWhile_cong) auto
    from Cons.IH [OF chan_base_prune [OF Cons.prems]] obtain w' ys rs' ws' where
      ih: "chan_take d ?v = Some (took d ?v xs, w')" "chan_base w' l ys rs' ts ws' ns" "set ys \<subseteq> set xs"
        "\<forall>a \<in> set ys. node_live w' a = node_live ?v a"
        "filter (node_live ?v) ys = (if took d ?v xs = None then filter (node_live ?v) xs else tl (filter (node_live ?v) xs))"
        "took d ?v xs = None \<longrightarrow> ys = dropWhile (\<lambda>a. \<not> node_live ?v a) xs"
        "ch_ring w' = ch_ring ?v" "nd_value w' = nd_value ?v" "nd_sending w' = nd_sending ?v" "ch_closed w' = ch_closed ?v"
        "op_canceled w' = op_canceled ?v" "op_owner w' = op_owner ?v" "lp_stopping (loops w' l) = lp_stopping (loops ?v l)"
        "set rs' \<subseteq> set (rs @ (if op_active w a then [a] else [])) \<union> set (remove1 a ws)" "set ws' \<subseteq> set (remove1 a ws)"
        "chan_frame (set xs \<union> set (remove1 a ws)) ?v w'"
        "\<forall>b. took d ?v xs = Some b \<longrightarrow> b \<in> set ws' \<and> b \<notin> set ys \<and> b \<in> set xs \<and> op_error w' b = op_error ?v b"
      by (elim exE conjE) (rule that; assumption)
    have ys: "filter (node_live ?v) ys = filter (node_live w) ys" using pl ih(3) by (intro filter_cong) auto
    have er: "op_error ?v b = op_error w b" if "b \<in> set xs" for b using n that by auto
    show ?thesis
    proof (intro exI conjI)
      show "chan_take d w = Some (took d w (a # xs), w')"
        using chan_take_stop(4) [OF first False, of d] ih(1) tk by simp
      show "filter (node_live w) ys = (if took d w (a # xs) = None then filter (node_live w) (a # xs)
          else tl (filter (node_live w) (a # xs)))"
        using ih(5) False unfolding ys tk lv by simp
      show "took d w (a # xs) = None \<longrightarrow> ys = dropWhile (\<lambda>a. \<not> node_live w a) (a # xs)"
        using ih(6) False unfolding tk dw by simp
      show "\<forall>b. took d w (a # xs) = Some b \<longrightarrow>
          b \<in> set ws' \<and> b \<notin> set ys \<and> b \<in> set (a # xs) \<and> op_error w' b = op_error w b"
        using ih(17) er unfolding tk by auto
      show "set rs' \<subseteq> set rs \<union> set ws"
        using ih(14) waits_rep [OF Cons.prems, of a] set_remove1_subset [of a ws] by (auto split: if_splits)
      show "set ws' \<subseteq> set ws" using ih(15) set_remove1_subset [of a ws] by blast
      show "chan_frame (set (a # xs) \<union> set ws) w w'"
        by (rule chan_frame_trans [OF chan_frame_prune [OF Cons.prems] ih(16)]) (use set_remove1_subset [of a ws] in auto)
      show "lp_stopping (loops w' l) = lp_stopping (loops w l)" using ih(13) st by simp
      show "\<forall>b \<in> set ys. node_live w' b = node_live w b" using ih(3,4) pl by blast
      show "chan_base w' l ys rs' ts ws' ns" by (rule ih(2))
    qed (use ih in auto)
  qed
qed

end
