(* ===== verification/Channel_Refine.thy ===== *)
theory Channel_Refine
  imports Channel
begin

text \<open>
  \<^verbatim>\<open>channel\<close> implements the contract of \<open>Handoff\<close>: \<^verbatim>\<open>push\<close> and \<^verbatim>\<open>pop\<close> refine the abstract
  operations, and blocking \<^verbatim>\<open>send\<close>, \<^verbatim>\<open>recv\<close> and \<^verbatim>\<open>close\<close> do what the contract says.
\<close>

subsection \<open>Refinement of the abstract queue\<close>

definition chan_rep :: "('v, 'z) chan_scheme \<Rightarrow> loop_id \<Rightarrow> addr list \<Rightarrow> addr list \<Rightarrow> addr list \<Rightarrow> addr list \<Rightarrow> addr list \<Rightarrow> bool" where
  "chan_rep w l xs rs ts ws ns \<longleftrightarrow>
     chan_base w l xs rs ts ws ns \<and> ring_inv (ch_ring w) \<and> queue_dir w xs"

lemma chan_repD:
  assumes "chan_rep w l xs rs ts ws ns"
  shows "chan_base w l xs rs ts ws ns" "ring_inv (ch_ring w)" "queue_dir w xs"
  using assms unfolding chan_rep_def by auto

definition chan_abs :: "('v, 'z) chan_scheme \<Rightarrow> addr list \<Rightarrow> 'v hq" where
  "chan_abs w xs =
     (let live = filter (node_live w) xs in
      \<lparr>hq_cap = ring_cap (ch_ring w), hq_buf = ring_list (ch_ring w),
       hq_snds = map (\<lambda>a. (a, the (nd_value w a))) (filter (nd_sending w) live),
       hq_rcvs = filter (\<lambda>a. \<not> nd_sending w a) live\<rparr>)"

lemma chan_abs_cong:
  assumes "ch_ring w' = ch_ring w" "nd_sending w' = nd_sending w"
    and "\<And>a. a \<in> set xs \<Longrightarrow> node_live w' a = node_live w a" "\<And>a. a \<in> set xs \<Longrightarrow> nd_value w' a = nd_value w a"
  shows "chan_abs w' xs = chan_abs w xs"
proof -
  have "filter (node_live w') xs = filter (node_live w) xs" using assms(3) by (rule filter_cong [OF refl])
  then show ?thesis using assms(1,2,4) by (auto simp: chan_abs_def)
qed

lemma ring_full_size: "ring_full r \<longleftrightarrow> ring_size r = ring_cap r"
  by (simp add: ring_full_def ring_cap_def)

lemma chan_abs_cases:
  assumes "queue_dir w xs"
  obtains (send) "\<And>a. a \<in> set (filter (node_live w) xs) \<Longrightarrow> nd_sending w a"
      "filter (node_live w) xs \<noteq> [] \<Longrightarrow> ring_full (ch_ring w)"
      "hq_snds (chan_abs w xs) = map (\<lambda>a. (a, the (nd_value w a))) (filter (node_live w) xs)"
      "hq_rcvs (chan_abs w xs) = []"
    | (recv) "\<And>a. a \<in> set (filter (node_live w) xs) \<Longrightarrow> \<not> nd_sending w a" "ring_size (ch_ring w) = 0"
      "hq_snds (chan_abs w xs) = []" "hq_rcvs (chan_abs w xs) = filter (node_live w) xs" "xs \<noteq> []"
proof -
  let ?L = "filter (node_live w) xs"
  consider "xs = []" | "ring_full (ch_ring w)" "\<forall>a \<in> set ?L. nd_sending w a"
    | "xs \<noteq> []" "ring_size (ch_ring w) = 0" "\<forall>a \<in> set ?L. \<not> nd_sending w a"
    using assms unfolding queue_dir_def by auto
  then show thesis
  proof cases
    case 1
    then show thesis by (intro send) (simp_all add: chan_abs_def)
  next
    case 2
    then have "filter (nd_sending w) ?L = ?L" "filter (\<lambda>a. \<not> nd_sending w a) ?L = []"
      by (auto simp: filter_empty_conv intro!: filter_True simp del: filter_filter)
    with 2 show thesis by (intro send) (simp_all add: chan_abs_def Let_def del: filter_filter)
  next
    case 3
    then have "filter (nd_sending w) ?L = []" "filter (\<lambda>a. \<not> nd_sending w a) ?L = ?L"
      by (auto simp: filter_empty_conv intro!: filter_True simp del: filter_filter)
    with 3 show thesis by (intro recv) (simp_all add: chan_abs_def Let_def del: filter_filter)
  qed
qed

lemma chan_abs_buf [simp]:
  "hq_cap (chan_abs w xs) = ring_cap (ch_ring w)" "hq_buf (chan_abs w xs) = ring_list (ch_ring w)"
  by (simp_all add: chan_abs_def Let_def)

lemma chan_abs_inv:
  assumes "chan_rep w l xs rs ts ws ns"
  shows "hq_inv (chan_abs w xs)"
proof -
  note r = chan_repD [OF assms]
  have b: "ring_size (ch_ring w) \<le> ring_cap (ch_ring w)" using r(2) by (simp add: ring_inv_def)
  from r(3) show ?thesis
  proof (cases rule: chan_abs_cases)
    case send
    then show ?thesis using b by (auto simp: hq_inv_def ring_full_size)
  next
    case recv
    have "ring_list (ch_ring w) = []" using recv(2) by (simp flip: length_0_conv)
    then show ?thesis using b recv(3) by (simp add: hq_inv_def)
  qed
qed

lemma took_hd:
  assumes "queue_dir w xs"
  shows "took True w xs = hd_opt (map fst (hq_snds (chan_abs w xs)))"
    and "took False w xs = hd_opt (hq_rcvs (chan_abs w xs))"
  using assms
  by (cases rule: chan_abs_cases; cases "filter (node_live w) xs"; simp add: took_def comp_def)+

lemma chan_base_value:
  assumes "chan_base w l xs rs ts ws ns"
  shows "chan_base (w\<lparr>nd_value := f\<rparr>) l xs rs ts ws ns"
proof -
  note r = chan_baseD [OF assms]
  have "loop_rep (w\<lparr>nd_value := f\<rparr>) l {} rs ts ws ns" by (rule loop_rep_cong [OF r(2)]) auto
  then show ?thesis using r(1,3,4,5,6,7) unfolding chan_base_def by auto
qed

lemma chan_base_ring:
  assumes "chan_base w l xs rs ts ws ns"
  shows "chan_base (w\<lparr>ch_ring := r\<rparr>) l xs rs ts ws ns"
proof -
  note r = chan_baseD [OF assms]
  have "loop_rep (w\<lparr>ch_ring := r\<rparr>) l {} rs ts ws ns" by (rule loop_rep_cong [OF r(2)]) auto
  then show ?thesis using r(1,3,4,5,6,7) unfolding chan_base_def by auto
qed

lemma chan_abs_live:
  "filter (node_live w) ys = filter (node_live w) xs \<Longrightarrow> chan_abs w ys = chan_abs w xs"
  by (simp add: chan_abs_def)

lemma chan_abs_took_None:
  assumes "queue_dir w xs" and "ys = dropWhile (\<lambda>a. \<not> node_live w a) xs" and "took d w xs = None"
  shows "d \<Longrightarrow> ys = [] \<or> hq_rcvs (chan_abs w xs) \<noteq> []" and "\<not> d \<Longrightarrow> ys = [] \<or> hq_snds (chan_abs w xs) \<noteq> []"
proof -
  have "ys = [] \<or> filter (node_live w) xs \<noteq> []"
    using assms(2) by (metis (mono_tags, lifting) dropWhile_eq_Nil_conv filter_empty_conv)
  with assms(1,3) show "d \<Longrightarrow> ys = [] \<or> hq_rcvs (chan_abs w xs) \<noteq> []"
    and "\<not> d \<Longrightarrow> ys = [] \<or> hq_snds (chan_abs w xs) \<noteq> []"
    using took_hd [OF assms(1)] by (cases rule: chan_abs_cases; cases d; simp)+
qed

text \<open>
  \<^verbatim>\<open>push\<close> implements the abstract one: a waiting receiver gets the value and is queued to run,
  else the value is buffered, else it is refused; whatever dead waiters were in front are retired.
\<close>

lemma chan_push_refines:
  assumes rep: "chan_rep w l xs rs ts ws ns" and q: "hq_push v (chan_abs w xs) = (r, q')"
  shows "\<exists>w' ys rs' ws'. chan_push v w = Some (r \<noteq> Refused, w') \<and> chan_rep w' l ys rs' ts ws' ns \<and>
    chan_abs w' ys = q' \<and> set ys \<subseteq> set xs \<and>
    set rs' \<subseteq> set rs \<union> set ws \<and> set ws' \<subseteq> set ws \<and> chan_frame (set xs \<union> set ws) w w' \<and> lp_stopping (loops w' l) = lp_stopping (loops w l) \<and> op_owner w' = op_owner w \<and> nd_sending w' = nd_sending w \<and> ch_closed w' = ch_closed w \<and>
    (r = Refused \<longrightarrow> nd_value w' = nd_value w \<and> op_canceled w' = op_canceled w \<and> (ys = [] \<or> hq_snds q' \<noteq> [])) \<and>
    (\<forall>a. r = Handed a \<longrightarrow> nd_value w' a = Some v \<and> last_opt rs' = Some a \<and> a \<notin> set ys \<and> \<not> nd_sending w a \<and> op_error w' a = op_error w a)"
proof -
  note R = chan_repD [OF rep]
  from chan_take_total [OF R(1), of False] obtain w1 ys rs1 ws1 where
    t: "chan_take False w = Some (took False w xs, w1)" and rep1: "chan_base w1 l ys rs1 ts ws1 ns"
    and sub: "set ys \<subseteq> set xs" and lv: "\<forall>a \<in> set ys. node_live w1 a = node_live w a"
    and fl: "filter (node_live w) ys = (if took False w xs = None then filter (node_live w) xs else tl (filter (node_live w) xs))"
    and dw: "took False w xs = None \<longrightarrow> ys = dropWhile (\<lambda>a. \<not> node_live w a) xs"
    and fr: "ch_ring w1 = ch_ring w" "nd_value w1 = nd_value w" "nd_sending w1 = nd_sending w" "ch_closed w1 = ch_closed w" "op_owner w1 = op_owner w"
      "lp_stopping (loops w1 l) = lp_stopping (loops w l)" "op_canceled w1 = op_canceled w"
    and ss: "set rs1 \<subseteq> set rs \<union> set ws" "set ws1 \<subseteq> set ws" and cf: "chan_frame (set xs \<union> set ws) w w1"
    and tk: "\<forall>a. took False w xs = Some a \<longrightarrow> a \<in> set ws1 \<and> a \<notin> set ys \<and> a \<in> set xs \<and> op_error w1 a = op_error w a"
    by (elim exE conjE) (rule that; assumption)
  have qd: "queue_dir w1 ys" using queue_dir_subset [OF R(3) sub] fr by (subst queue_dir_cong) auto
  have a1: "chan_abs w1 ys = chan_abs w ys" using fr lv by (intro chan_abs_cong) auto
  show ?thesis
  proof (cases "took False w xs")
    case None
    then have "filter (node_live w) ys = filter (node_live w) xs" using fl by simp
    from chan_abs_live [OF this] have abs: "chan_abs w1 ys = chan_abs w xs" unfolding a1 .
    have rc: "hq_rcvs (chan_abs w xs) = []" using None took_hd(2) [OF R(3)] by simp
    show ?thesis
    proof (cases "ring_full (ch_ring w)")
      case True
      then have "r = Refused" "q' = chan_abs w xs" using q rc by (simp_all add: hq_push_def ring_full_size)
      moreover have "chan_push v w = Some (False, w1)" using t None True fr by (simp add: chan_push_def)
      moreover have "chan_rep w1 l ys rs1 ts ws1 ns" using rep1 qd R(2) fr by (simp add: chan_rep_def)
      moreover have "ys = [] \<or> hq_snds (chan_abs w xs) \<noteq> []"
        using chan_abs_took_None(2) [OF R(3) _ None] None dw by simp
      ultimately show ?thesis using abs sub fr ss cf
        by (intro exI [of _ w1] exI [of _ ys] exI [of _ rs1] exI [of _ ws1]) simp
    next
      case False
      let ?w = "w1\<lparr>ch_ring := ring_store v (ch_ring w1)\<rparr>"
      have lt: "ring_size (ch_ring w) < ring_cap (ch_ring w)"
        using False R(2) by (simp add: ring_full_size ring_inv_def)
      have "hq_snds (chan_abs w xs) = []" using R(3) False by (cases rule: chan_abs_cases) auto
      with None dw chan_abs_took_None(2) [OF R(3) _ None] have ys: "ys = []" by auto
      have st: "ring_inv (ring_store v (ch_ring w))" "ring_list (ring_store v (ch_ring w)) = ring_list (ch_ring w) @ [v]"
        using ring_store_inv [OF R(2) False] by blast+
      have "chan_rep ?w l ys rs1 ts ws1 ns"
        using st(1) fr ys chan_base_ring [OF rep1] by (simp add: chan_rep_def queue_dir_def)
      moreover have "chan_abs ?w ys = (chan_abs w xs)\<lparr>hq_buf := ring_list (ch_ring w) @ [v]\<rparr>"
        using arg_cong [OF abs, of hq_snds] arg_cong [OF abs, of hq_rcvs] st(2) fr ys
        by (simp add: chan_abs_def Let_def)
      moreover have "r = Stored" "q' = (chan_abs w xs)\<lparr>hq_buf := ring_list (ch_ring w) @ [v]\<rparr>"
        using q rc lt by (simp_all add: hq_push_def)
      moreover have "chan_push v w = Some (True, ?w)" using t None False fr by (simp add: chan_push_def)
      moreover have "chan_frame (set xs \<union> set ws) w ?w" using cf by (simp add: chan_frame_def)
      ultimately show ?thesis using sub fr ss
        by (intro exI [of _ ?w] exI [of _ ys] exI [of _ rs1] exI [of _ ws1]) simp
    qed
  next
    case (Some a)
    let ?v = "w1\<lparr>nd_value := (nd_value w1)(a := Some v)\<rparr>"
    from tk Some have a: "a \<in> set ws1" "a \<notin> set ys" "op_error w1 a = op_error w a" by auto
    obtain us where us: "hq_rcvs (chan_abs w xs) = a # us"
      using Some took_hd(2) [OF R(3)] by (cases "hq_rcvs (chan_abs w xs)") auto
    have rcv: "\<not> nd_sending w a" using arg_cong [OF us, of set] by (auto simp: chan_abs_def Let_def)
    have live: "node_live (wait_notify a ?v) b = node_live w b" if "b \<in> set ys" for b
      using that a(2) lv by (auto simp: node_live_def loop_stopped_def)
    have "chan_abs (wait_notify a ?v) ys = chan_abs w ys"
      using a(2) fr live by (intro chan_abs_cong) auto
    moreover have "chan_abs w ys = (chan_abs w xs)\<lparr>hq_rcvs := us\<rparr>"
      using R(3) us fl Some by (cases rule: chan_abs_cases) (auto simp: chan_abs_def Let_def simp del: filter_filter)
    moreover have "r = Handed a" "q' = (chan_abs w xs)\<lparr>hq_rcvs := us\<rparr>" using q us by (simp_all add: hq_push_def)
    moreover have "chan_push v w = Some (True, wait_notify a ?v)" using t Some by (simp add: chan_push_def)
    moreover have "chan_rep (wait_notify a ?v) l ys (rs1 @ [a]) ts (remove1 a ws1) ns"
    proof -
      have "queue_dir (wait_notify a ?v) ys" using qd a(2) by (subst queue_dir_cong) auto
      then show ?thesis using a R(2) fr chan_base_notify [OF chan_base_value [OF rep1]] by (simp add: chan_rep_def)
    qed
    moreover have "chan_frame (set xs \<union> set ws) w (wait_notify a ?v)"
    proof (rule chan_frame_trans [OF _ chan_frame_notify [OF chan_base_value [OF rep1] a(1)]])
      show "chan_frame (set xs \<union> set ws) w ?v" using cf by (simp add: chan_frame_def)
    qed (use ss in auto)
    moreover have "set (remove1 a ws1) \<subseteq> set ws" using ss set_remove1_subset [of a ws1] by blast
    moreover have "set (rs1 @ [a]) \<subseteq> set rs \<union> set ws" using ss a(1) by auto
    ultimately show ?thesis using sub fr a(2,3) rcv
      by (intro exI [of _ "wait_notify a ?v"] exI [of _ ys] exI [of _ "rs1 @ [a]"] exI [of _ "remove1 a ws1"]) auto
  qed
qed

text \<open>
  \<^verbatim>\<open>pop\<close> implements the abstract one: the oldest value comes out and the oldest live sender is
  released, its value moving into the freed slot, or straight to the receiver of a rendezvous.
\<close>

lemma node_live_ring [simp]: "node_live (w\<lparr>ch_ring := r\<rparr>) a = node_live w a"
  by (simp add: node_live_def loop_stopped_def)

lemma took_ring [simp]: "took d (w\<lparr>ch_ring := r\<rparr>) xs = took d w xs"
proof -
  have "node_live (w\<lparr>ch_ring := r\<rparr>) = node_live w" by (rule ext) simp
  then show ?thesis by (simp add: took_def split: list.split)
qed

text \<open>The state in which \<^verbatim>\<open>pop\<close> finds the queue after \<^verbatim>\<open>take(true)\<close>, with the ring already read.\<close>

lemma chan_pop_take:
  assumes rep: "chan_rep w l xs rs ts ws ns"
  obtains w1 ys rs1 ws1 where "chan_take True (w\<lparr>ch_ring := r\<rparr>) = Some (hd_opt (map fst (hq_snds (chan_abs w xs))), w1)"
    and "chan_base w1 l ys rs1 ts ws1 ns" and "set ys \<subseteq> set xs" and "ch_ring w1 = r"
    and "nd_value w1 = nd_value w" and "nd_sending w1 = nd_sending w" and "ch_closed w1 = ch_closed w" and "op_owner w1 = op_owner w"
    and "set rs1 \<subseteq> set rs \<union> set ws" and "set ws1 \<subseteq> set ws" and "chan_frame (set xs \<union> set ws) w w1" and "lp_stopping (loops w1 l) = lp_stopping (loops w l)" and "op_canceled w1 = op_canceled w"
    and "hq_rcvs (chan_abs w1 ys) = hq_rcvs (chan_abs w xs)" and "hq_snds (chan_abs w1 ys) = tl (hq_snds (chan_abs w xs))"
    and "hq_snds (chan_abs w xs) = [] \<longrightarrow> ys = [] \<or> hq_rcvs (chan_abs w xs) \<noteq> []"
    and "\<forall>s. hd_opt (map fst (hq_snds (chan_abs w xs))) = Some s \<longrightarrow> s \<in> set ws1 \<and> s \<notin> set ys \<and> op_error w1 s = op_error w s"
proof -
  note R = chan_repD [OF rep]
  let ?v = "w\<lparr>ch_ring := r\<rparr>" and ?q = "chan_abs w xs"
  have tk: "took True ?v xs = hd_opt (map fst (hq_snds ?q))" using took_hd(1) [OF R(3)] by simp
  have nl: "node_live ?v = node_live w" by (rule ext) simp
  from chan_take_total [OF chan_base_ring [OF R(1)], of True r] obtain w1 ys rs1 ws1 where
    t: "chan_take True ?v = Some (took True ?v xs, w1)" and rep1: "chan_base w1 l ys rs1 ts ws1 ns"
    and sub: "set ys \<subseteq> set xs" and lv: "\<forall>a \<in> set ys. node_live w1 a = node_live ?v a"
    and fl: "filter (node_live ?v) ys = (if took True ?v xs = None then filter (node_live ?v) xs else tl (filter (node_live ?v) xs))"
    and dw: "took True ?v xs = None \<longrightarrow> ys = dropWhile (\<lambda>a. \<not> node_live ?v a) xs"
    and fr: "ch_ring w1 = ch_ring ?v" "nd_value w1 = nd_value ?v" "nd_sending w1 = nd_sending ?v" "ch_closed w1 = ch_closed ?v" "op_owner w1 = op_owner ?v"
      "lp_stopping (loops w1 l) = lp_stopping (loops ?v l)" "op_canceled w1 = op_canceled ?v"
    and ss: "set rs1 \<subseteq> set rs \<union> set ws" "set ws1 \<subseteq> set ws" and cf: "chan_frame (set xs \<union> set ws) ?v w1"
    and sm: "\<forall>a. took True ?v xs = Some a \<longrightarrow> a \<in> set ws1 \<and> a \<notin> set ys \<and> a \<in> set xs \<and> op_error w1 a = op_error ?v a"
    by (elim exE conjE) (rule that; assumption)
  have live: "filter (node_live w1) ys = filter (node_live w) ys" using lv nl by (intro filter_cong) auto
  have abs: "hq_snds (chan_abs w1 ys) = hq_snds (chan_abs w ys)" "hq_rcvs (chan_abs w1 ys) = hq_rcvs (chan_abs w ys)"
    using fr by (simp_all add: chan_abs_def live Let_def)
  have lists: "hq_rcvs (chan_abs w ys) = hq_rcvs ?q \<and> hq_snds (chan_abs w ys) = tl (hq_snds ?q)"
  proof (cases "hq_snds ?q")
    case Nil
    then have "filter (node_live w) ys = filter (node_live w) xs" using fl tk nl by simp
    from chan_abs_live [OF this] Nil show ?thesis by simp
  next
    case (Cons p ps)
    then have f: "filter (node_live w) ys = tl (filter (node_live w) xs)" using fl tk nl by simp
    from R(3) show ?thesis
    proof (cases rule: chan_abs_cases)
      case send
      have "nd_sending w a" if "a \<in> set (tl (filter (node_live w) xs))" for a
        using send(1) list.set_sel(2) that by (metis tl_Nil)
      then have "filter (nd_sending w) (tl (filter (node_live w) xs)) = tl (filter (node_live w) xs)"
        "filter (\<lambda>a. \<not> nd_sending w a) (tl (filter (node_live w) xs)) = []"
        by (simp_all add: filter_empty_conv filter_True)
      then show ?thesis using send(3,4) unfolding chan_abs_def Let_def f by (simp add: map_tl)
    qed (use Cons in simp)
  qed
  show thesis
  proof (rule that [OF _ rep1 sub])
    show "hq_snds ?q = [] \<longrightarrow> ys = [] \<or> hq_rcvs ?q \<noteq> []"
      using chan_abs_took_None(1) [OF R(3), of ys True] dw tk nl by simp
    show "\<forall>s. hd_opt (map fst (hq_snds ?q)) = Some s \<longrightarrow> s \<in> set ws1 \<and> s \<notin> set ys \<and> op_error w1 s = op_error w s"
      using sm tk by simp
    show "chan_frame (set xs \<union> set ws) w w1" using cf by (simp add: chan_frame_def)
  qed (use t tk fr lists abs ss in simp_all)
qed

lemma chan_abs_snds_Cons:
  assumes "queue_dir w xs" and "hq_snds (chan_abs w xs) = (s, v) # ss"
  shows "nd_value w s = Some v" and "ring_full (ch_ring w)"
    and "\<forall>a \<in> set xs. nd_sending w a \<and> nd_value w a \<noteq> None"
proof -
  have "s \<in> fst ` set (hq_snds (chan_abs w xs))" using assms(2) by simp
  then have s: "s \<in> set xs" "nd_sending w s" by (auto simp: chan_abs_def Let_def)
  then show f: "ring_full (ch_ring w)" and d: "\<forall>a \<in> set xs. nd_sending w a \<and> nd_value w a \<noteq> None"
    using assms(1) by (auto simp: queue_dir_def)
  have "(s, v) \<in> set (hq_snds (chan_abs w xs))" using assms(2) by simp
  then have "v = the (nd_value w s)" by (auto simp: chan_abs_def Let_def)
  then show "nd_value w s = Some v" using d s(1) by auto
qed

lemma hq_eqI:
  "hq_cap p = hq_cap q \<Longrightarrow> hq_buf p = hq_buf q \<Longrightarrow> hq_snds p = hq_snds q \<Longrightarrow> hq_rcvs p = hq_rcvs q \<Longrightarrow> p = (q :: 'v hq)"
  by simp

lemma chan_rep_notified:
  assumes "chan_base w l xs rs ts ws ns" and "ring_inv (ch_ring w)" and "queue_dir w xs"
    and "a \<in> set ws" and "a \<notin> set xs"
  shows "chan_rep (wait_notify a w) l xs (rs @ [a]) ts (remove1 a ws) ns"
    and "chan_abs (wait_notify a w) xs = chan_abs w xs"
proof -
  have "queue_dir (wait_notify a w) xs" using assms(3) by (subst queue_dir_cong) auto
  then show "chan_rep (wait_notify a w) l xs (rs @ [a]) ts (remove1 a ws) ns"
    using assms chan_base_notify by (simp add: chan_rep_def)
  have "node_live (wait_notify a w) b = node_live w b" if "b \<in> set xs" for b
    using that assms(5) by (auto simp: node_live_def)
  then show "chan_abs (wait_notify a w) xs = chan_abs w xs" by (intro chan_abs_cong) auto
qed

lemma chan_pop_refines:
  assumes rep: "chan_rep w l xs rs ts ws ns" and q: "hq_pop (chan_abs w xs) = (r, q')"
  shows "\<exists>w' ys rs' ws'. chan_pop w = Some (map_option fst r, w') \<and> chan_rep w' l ys rs' ts ws' ns \<and>
    chan_abs w' ys = q' \<and> set ys \<subseteq> set xs \<and>
    set rs' \<subseteq> set rs \<union> set ws \<and> set ws' \<subseteq> set ws \<and> chan_frame (set xs \<union> set ws) w w' \<and> lp_stopping (loops w' l) = lp_stopping (loops w l) \<and> op_owner w' = op_owner w \<and> nd_sending w' = nd_sending w \<and> ch_closed w' = ch_closed w \<and>
    nd_value w' = nd_value w \<and> op_canceled w' = op_canceled w \<and> (r = None \<longrightarrow> ys = [] \<or> hq_rcvs q' \<noteq> []) \<and>
    (\<forall>x s. r = Some (x, Some s) \<longrightarrow> last_opt rs' = Some s \<and> s \<notin> set ys \<and> s \<notin> set ws' \<and> op_error w' s = op_error w s)"
proof -
  note R = chan_repD [OF rep]
  let ?q = "chan_abs w xs"
  obtain x r1 where f: "ring_fetch (ch_ring w) = (x, r1)" by fastforce
  obtain w1 ys rs1 ws1 where
    t: "chan_take True (w\<lparr>ch_ring := r1\<rparr>) = Some (hd_opt (map fst (hq_snds ?q)), w1)"
    and base: "chan_base w1 l ys rs1 ts ws1 ns" and sub: "set ys \<subseteq> set xs" and rg: "ch_ring w1 = r1"
    and fr: "nd_value w1 = nd_value w" "nd_sending w1 = nd_sending w" "ch_closed w1 = ch_closed w" "op_owner w1 = op_owner w"
    and ss: "set rs1 \<subseteq> set rs \<union> set ws" "set ws1 \<subseteq> set ws" and cf: "chan_frame (set xs \<union> set ws) w w1"
    and st1: "lp_stopping (loops w1 l) = lp_stopping (loops w l)" "op_canceled w1 = op_canceled w"
    and ls: "hq_rcvs (chan_abs w1 ys) = hq_rcvs ?q" "hq_snds (chan_abs w1 ys) = tl (hq_snds ?q)"
    and ys: "hq_snds ?q = [] \<longrightarrow> ys = [] \<or> hq_rcvs ?q \<noteq> []"
    and sn: "\<forall>s. hd_opt (map fst (hq_snds ?q)) = Some s \<longrightarrow> s \<in> set ws1 \<and> s \<notin> set ys \<and> op_error w1 s = op_error w s"
    by (rule chan_pop_take [OF rep, of r1]) (rule that; assumption)
  have inv: "hq_inv ?q" by (rule chan_abs_inv [OF rep])
  have cap: "ring_cap r1 = ring_cap (ch_ring w)" using ring_cap_fetch [of "ch_ring w"] f by simp
  note same = sub fr ss st1
  show ?thesis
  proof (cases "hq_snds ?q")
    case Nil
    then have p: "chan_pop w = Some (x, w1)" using f t by (simp add: chan_pop_def)
    show ?thesis
    proof (cases "ring_list (ch_ring w)")
      case e: Nil
      then have "x = None" "r1 = ch_ring w" using ring_fetch_Nil [OF e] f by simp_all
      moreover have "r = None" "q' = ?q" using q Nil e by (simp_all add: hq_pop_def)
      moreover have "chan_abs w1 ys = ?q" using ls rg calculation Nil by (intro hq_eqI) simp_all
      moreover have "queue_dir w1 ys" using queue_dir_subset [OF R(3) sub] fr rg calculation(2) by (subst queue_dir_cong) auto
      ultimately show ?thesis using p base R(2) rg same cf ys Nil
        by (intro exI [of _ w1] exI [of _ ys] exI [of _ rs1] exI [of _ ws1]) (simp add: chan_rep_def)
    next
      case (Cons y us)
      note g = ring_fetch_Cons [OF R(2) Cons, unfolded f fst_conv snd_conv]
      have "hq_rcvs ?q = []" using inv Cons by (auto simp: hq_inv_def)
      with ys Nil have "ys = []" by simp
      moreover have "r = Some (y, None)" "q' = ?q\<lparr>hq_buf := us\<rparr>" using q Nil Cons by (simp_all add: hq_pop_def)
      moreover have "chan_abs w1 ys = ?q\<lparr>hq_buf := us\<rparr>" using ls rg g(3) cap Nil by (intro hq_eqI) simp_all
      ultimately show ?thesis using p base g rg same cf
        by (intro exI [of _ w1] exI [of _ ys] exI [of _ rs1] exI [of _ ws1]) (simp add: chan_rep_def queue_dir_def)
    qed
  next
    case (Cons p ss)
    obtain s v where p: "p = (s, v)" by fastforce
    have s: "s \<in> set ws1" "s \<notin> set ys" "op_error w1 s = op_error w s" using sn Cons p by simp_all
    have sr: "s \<notin> set (remove1 s ws1)" using loop_repD(6) [OF chan_baseD(2) [OF base]] by simp
    note sd = chan_abs_snds_Cons [OF R(3) Cons [unfolded p]]
    have dir: "queue_dir u ys" if "nd_sending u = nd_sending w" "nd_value u = nd_value w" "ring_full (ch_ring u)" for u
      using sd(3) sub that by (auto simp: queue_dir_def)
    have rc: "hq_rcvs ?q = []" using inv Cons by (auto simp: hq_inv_def)
    have cs: "chan_frame (set xs \<union> set ws) w (wait_notify s u)" if "chan_frame {} w1 u" "chan_base u l ys rs1 ts ws1 ns" for u
    proof (rule chan_frame_trans [OF _ chan_frame_notify [OF that(2) s(1)]])
      show "chan_frame (set xs \<union> set ws) w u" by (rule chan_frame_trans [OF cf that(1)]) auto
    qed (use ss in auto)
    have sets: "set (rs1 @ [s]) \<subseteq> set rs \<union> set ws" "set (remove1 s ws1) \<subseteq> set ws"
      using ss s(1) set_remove1_subset [of s ws1] by auto
    show ?thesis
    proof (cases "ring_list (ch_ring w)")
      case e: Nil
      then have x: "x = None" "r1 = ch_ring w" using ring_fetch_Nil [OF e] f by simp_all
      have "queue_dir w1 ys" using dir [of w1] fr rg x sd(2) by simp
      note nt = chan_rep_notified [OF base _ this s(1,2)]
      have "chan_pop w = Some (Some v, wait_notify s w1)" using f t x Cons p fr sd(1) by (simp add: chan_pop_def)
      moreover have "r = Some (v, Some s)" "q' = ?q\<lparr>hq_snds := ss\<rparr>" using q Cons p e by (simp_all add: hq_pop_def)
      moreover have "chan_abs w1 ys = ?q\<lparr>hq_snds := ss\<rparr>" using ls rg x Cons p by (intro hq_eqI) simp_all
      ultimately show ?thesis using nt R(2) rg x same s(2,3) sr cs [OF chan_frame_refl base] sets
        by (intro exI [of _ "wait_notify s w1"] exI [of _ ys] exI [of _ "rs1 @ [s]"] exI [of _ "remove1 s ws1"]) simp
    next
      case (Cons y us)
      note g = ring_fetch_Cons [OF R(2) Cons, unfolded f fst_conv snd_conv]
      let ?u = "w1\<lparr>ch_ring := ring_store v r1\<rparr>"
      have len: "Suc (length us) = ring_cap r1" using sd(2) Cons cap by (metis length_Cons ring_full_size ring_list_length)
      have room: "\<not> ring_full r1" using g(3) len by (metis n_not_Suc_n ring_full_size ring_list_length)
      note st = ring_store_inv [OF g(2) room, of v]
      have "ring_full (ring_store v r1)" using st(2) g(3) len
        by (metis length_append_singleton ring_cap_store ring_full_size ring_list_length)
      then have "queue_dir ?u ys" using dir [of ?u] fr by simp
      note nt = chan_rep_notified [OF chan_base_ring [OF base] _ this s(1,2)]
      have "chan_pop w = Some (Some y, wait_notify s ?u)"
        using f t g(1) \<open>hq_snds ?q = p # ss\<close> p fr sd(1) rg by (simp add: chan_pop_def)
      moreover have "r = Some (y, Some s)" "q' = ?q\<lparr>hq_buf := us @ [v], hq_snds := ss\<rparr>"
        using q \<open>hq_snds ?q = p # ss\<close> p Cons by (simp_all add: hq_pop_def)
      moreover have "chan_abs ?u ys = ?q\<lparr>hq_buf := us @ [v], hq_snds := ss\<rparr>"
        using ls st(2) g(3) cap \<open>hq_snds ?q = p # ss\<close> rc by (intro hq_eqI) (simp_all add: chan_abs_def Let_def)
      moreover have "chan_frame {} w1 ?u" by (simp add: chan_frame_def)
      ultimately show ?thesis using nt st(1) rg same s(2,3) sr cs [OF _ chan_base_ring [OF base]] sets
        by (intro exI [of _ "wait_notify s ?u"] exI [of _ ys] exI [of _ "rs1 @ [s]"] exI [of _ "remove1 s ws1"]) simp
    qed
  qed
qed

subsection \<open>The contract\<close>

definition chan_view :: "('v, 'z) chan_scheme \<Rightarrow> 'v hq \<Rightarrow> bool" where
  "chan_view w q \<longleftrightarrow> (\<exists>l xs rs ts ws ns. chan_rep w l xs rs ts ws ns \<and> q = chan_abs w xs)"

interpretation ch: handoff chan_view chan_push chan_pop
proof
  fix w :: "('v, 'z) chan_scheme" and q :: "'v hq" and v :: 'v
  assume "chan_view w q"
  then obtain l xs rs ts ws ns where rep: "chan_rep w l xs rs ts ws ns" and q: "q = chan_abs w xs"
    unfolding chan_view_def by blast
  show "hq_inv q" using chan_abs_inv [OF rep] q by simp
  from chan_push_refines [OF rep prod.collapse [symmetric], of v] q
  show "\<exists>w'. chan_push v w = Some (fst (hq_push v q) \<noteq> Refused, w') \<and> chan_view w' (snd (hq_push v q))"
    unfolding chan_view_def by metis
  from chan_pop_refines [OF rep prod.collapse [symmetric]] q
  show "\<exists>w'. chan_pop w = Some (map_option fst (fst (hq_pop q)), w') \<and> chan_view w' (snd (hq_pop q))"
    unfolding chan_view_def by metis
qed

end
