(* ===== verification/Channel_Ops.thy ===== *)
theory Channel_Ops
  imports Channel_Refine
begin

text \<open>
  The blocking operations of \<^verbatim>\<open>channel\<close> (\<^verbatim>\<open>node::await_suspend\<close>, \<^verbatim>\<open>close\<close>) against the contract of
  \<open>Handoff\<close>: a send or receive completes at once or parks its coroutine at the end of the
  queue, and closing empties the queue.
\<close>

subsection \<open>Parking a node\<close>

lemma chan_fields_park:
  assumes "wait_park t a h k w = (r, w')"
  shows "ch_loop w' = ch_loop w" "ch_ring w' = ch_ring w" "ch_closed w' = ch_closed w" "ch_first w' = ch_first w"
    "ch_last w' = ch_last w" "nd_next w' = nd_next w" "nd_prev w' = nd_prev w" "nd_linked w' = nd_linked w"
    "nd_sending w' = nd_sending w" "nd_value w' = nd_value w"
  using assms
  by (auto simp: wait_park_def loop_arm_eq armed_def wait_link_def set_error_def upd_loop_def Let_def
      split: prod.splits option.splits sum.splits bool.splits if_splits)

lemma fresh_again:
  assumes "loop_rep w l {} rs ts ws ns" and "op_owner w a = l" and "a \<notin> set rs \<union> set ts \<union> set ws \<union> set ns"
  shows "op_fresh w l a"
proof -
  note r = loop_repD [OF assms(1)]
  have "rq_tail (lp_ready (loops w l)) = last_opt rs" using r(1) by (simp add: rq_rep_def)
  then have "rq_tail (lp_ready (loops w l)) \<noteq> Some a" using assms(3) by (auto dest!: last_opt_SomeD)
  then show ?thesis using r(9) [OF assms(2)] r(10) assms(2,3) by (auto simp: op_fresh_def)
qed

lemma chan_link_frame [simp]:
  "op_active (chan_link a w) = op_active w" "op_canceled (chan_link a w) = op_canceled w"
  "op_owner (chan_link a w) = op_owner w" "loops (chan_link a w) = loops w" "op_handle (chan_link a w) = op_handle w"
  "op_error (chan_link a w) = op_error w" "ch_loop (chan_link a w) = ch_loop w"
  "ch_ring (chan_link a w) = ch_ring w" "ch_closed (chan_link a w) = ch_closed w"
  "nd_sending (chan_link a w) = nd_sending w" "nd_value (chan_link a w) = nd_value w"
  "nd_linked (chan_link a w) = (nd_linked w)(a := True)"
  by (simp_all add: chan_link_def split: prod.split)

lemma chan_base_link:
  assumes base: "chan_base w l xs rs ts ws ns" and a: "a \<notin> set xs" "nd_next w a = None" "op_owner w a = l" "a \<in> set ws"
    and c: "\<not> ch_closed w"
  shows "chan_base (chan_link a w) l (xs @ [a]) rs ts ws ns"
proof -
  note r = chan_baseD [OF base]
  have "dll_ends ((nd_next (chan_link a w), nd_prev (chan_link a w)), ch_first (chan_link a w), ch_last (chan_link a w)) (xs @ [a])"
    using dll_push_back [OF r(3) a(1,2)] by (auto simp: chan_link_def split: prod.splits)
  moreover have "loop_rep (chan_link a w) l {} rs ts ws ns"
    by (rule loop_rep_cong [OF r(2)]) (auto simp: chan_link_def split: prod.split)
  ultimately show ?thesis using r(1,4,5,6) a c unfolding chan_base_def by auto
qed

text \<open>A node fit to be awaited: bound to the channel, not yet started, not canceled.\<close>

definition node_ready :: "('v, 'z) chan_scheme \<Rightarrow> addr \<Rightarrow> bool" where
  "node_ready w a \<longleftrightarrow>
     op_fresh w (ch_loop w) a \<and> wt_prev w a = None \<and> wt_interruptible w a \<and> \<not> op_canceled w a \<and>
     nd_next w a = None \<and> \<not> nd_linked w a"

lemma node_parks:
  assumes rep: "chan_rep w l xs rs ts ws ns" and a: "op_fresh w l a" "wt_prev w a = None" "wt_interruptible w a"
      "\<not> op_canceled w a" "nd_next w a = None" "a \<notin> set xs"
    and t: "loop_check t l w" and ok: "\<not> refused l (op_token w a) w" and c: "\<not> ch_closed w"
    and dir: "queue_dir w (xs @ [a])"
  obtains w' where "wait_park t a h (op_token w a) w = (Inr True, w')"
    and "chan_rep (chan_link a w') l (xs @ [a]) rs ts (a # ws) ns" and "op_handle (chan_link a w') a = h"
    and "op_error (chan_link a w') = op_error w"
    and "filter (node_live (chan_link a w')) (xs @ [a]) = filter (node_live w) xs @ [a]"
    and "ch_ring w' = ch_ring w" and "nd_sending w' = nd_sending w" and "nd_value w' = nd_value w"
proof -
  note R = chan_repD [OF rep] and B = chan_baseD [OF chan_repD(1) [OF rep]]
  from wait_park_parks [OF B(2) a(1,2) t, of "op_token w a" h] ok obtain w' where
    p: "wait_park t a h (op_token w a) w = (Inr True, w')" and lr: "loop_rep w' l {} rs ts (a # ws) ns"
    and fr: "op_handle w' a = h" "op_error w' = op_error w" "op_canceled w' = op_canceled w" "op_owner w' = op_owner w"
      "lp_stopping (loops w' l) = lp_stopping (loops w l)" by blast
  note cf = chan_fields_park [OF p]
  have own: "op_owner w a = l" using a(1) by (simp add: op_fresh_def)
  have act: "op_active w' b = op_active w b" if "b \<in> set xs" for b
  proof -
    have b: "op_owner w b = l" "b \<noteq> a" using B(4) that a(6) by auto
    from loop_repD(9) [OF lr, of b] loop_repD(9) [OF B(2), of b] b fr(4) show ?thesis by auto
  qed
  have "op_active w' b \<Longrightarrow> b \<in> set (a # ws)" if "b \<in> set xs" for b using act [OF that] B(5) [OF that] by auto
  then have "chan_base w' l xs rs ts (a # ws) ns"
    using B(1,3,4,6,7) lr fr cf unfolding chan_base_def by auto
  then have base: "chan_base (chan_link a w') l (xs @ [a]) rs ts (a # ws) ns"
    using a(5,6) c own cf fr by (intro chan_base_link) auto
  have "queue_dir (chan_link a w') (xs @ [a])" using dir cf by (subst queue_dir_cong) auto
  with base R(2) cf have "chan_rep (chan_link a w') l (xs @ [a]) rs ts (a # ws) ns" by (simp add: chan_rep_def)
  moreover have "node_live (chan_link a w') b = node_live w b" if "b \<in> set xs" for b
    using act [OF that] fr cf B(1) by (simp add: node_live_def loop_stopped_def)
  then have "filter (node_live (chan_link a w')) xs = filter (node_live w) xs" by (rule filter_cong [OF refl])
  moreover have "node_live (chan_link a w') a"
    using loop_repD(9) [OF lr, of a] own fr cf B(1) a(4) ok by (simp add: node_live_def loop_stopped_def)
  ultimately show thesis using that [OF p] fr cf by simp
qed

lemma chan_abs_snoc:
  assumes "filter (node_live w') (ys @ [a]) = filter (node_live w) ys @ [a]"
    and "ch_ring w' = ch_ring w" "nd_sending w' = nd_sending w" "nd_value w' = nd_value w"
  shows "chan_abs w' (ys @ [a]) =
    (if nd_sending w a then hq_block_send a (the (nd_value w a)) (chan_abs w ys) else hq_block_recv a (chan_abs w ys))"
  unfolding chan_abs_def Let_def assms(1) by (simp add: assms(2,3,4) hq_block_send_def hq_block_recv_def)

text \<open>What is left of the conditions for parking after \<^verbatim>\<open>push\<close> or \<^verbatim>\<open>pop\<close> touched the nodes \<open>xs\<close>
  and the waits \<open>ws\<close> only.\<close>

lemma node_still_parks:
  assumes rep: "chan_rep w l xs rs ts ws ns" and a: "node_ready w a" and t: "loop_check t l w"
    and ok: "\<not> loop_stopped l w" "\<not> stop_requested (op_token w a) w" and c: "\<not> ch_closed w"
    and rep1: "chan_rep w1 l ys rs1 ts ws1 ns" and sub: "set ys \<subseteq> set xs" "set rs1 \<subseteq> set rs \<union> set ws" "set ws1 \<subseteq> set ws"
    and cf: "chan_frame (set xs \<union> set ws) w w1" and st: "lp_stopping (loops w1 l) = lp_stopping (loops w l)"
    and fr: "op_owner w1 = op_owner w" "ch_closed w1 = ch_closed w" "op_canceled w1 = op_canceled w"
    and dir: "queue_dir w1 (ys @ [a])"
  obtains w2 where "wait_park t a h (op_token w1 a) w1 = (Inr True, w2)"
    and "chan_rep (chan_link a w2) l (ys @ [a]) rs1 ts (a # ws1) ns" and "op_handle (chan_link a w2) a = h"
    and "op_error (chan_link a w2) a = op_error w a"
    and "chan_abs (chan_link a w2) (ys @ [a]) =
      (if nd_sending w1 a then hq_block_send a (the (nd_value w1 a)) (chan_abs w1 ys) else hq_block_recv a (chan_abs w1 ys))"
proof -
  note B = chan_baseD [OF chan_repD(1) [OF rep]] and A = a [unfolded node_ready_def B(1)]
  have own: "op_owner w a = l" using A by (simp add: op_fresh_def)
  have out: "a \<notin> set (rs @ ts @ ws @ ns)" "a \<notin> set xs" using op_fresh_notin [OF B(2)] A B(6) by auto
  have fresh: "op_fresh w1 l a" using sub out own fr
    by (intro fresh_again [OF chan_baseD(2) [OF chan_repD(1) [OF rep1]]]) auto
  have k: "loop_check t l w1" "\<not> refused l (op_token w1 a) w1" "wt_prev w1 a = None" "wt_interruptible w1 a"
    "nd_next w1 a = None" "a \<notin> set ys" "\<not> op_canceled w1 a" "\<not> ch_closed w1" "op_error w1 a = op_error w a"
    using t ok cf st A out sub fr c by (auto simp: chan_frame_def loop_check_def loop_stopped_def stop_requested_def split: option.splits)
  show thesis
  proof (rule node_parks [OF rep1 fresh k(3,4,7,5,6,1,2,8) dir, of h])
    fix w2
    assume w2: "wait_park t a h (op_token w1 a) w1 = (Inr True, w2)"
      "chan_rep (chan_link a w2) l (ys @ [a]) rs1 ts (a # ws1) ns" "op_handle (chan_link a w2) a = h"
      "op_error (chan_link a w2) = op_error w1"
      "filter (node_live (chan_link a w2)) (ys @ [a]) = filter (node_live w1) ys @ [a]"
      "ch_ring w2 = ch_ring w1" "nd_sending w2 = nd_sending w1" "nd_value w2 = nd_value w1"
    show thesis
      by (rule that [OF w2(1,2,3)]) (use w2(4,6,7,8) k(9) chan_abs_snoc [OF w2(5)] in simp_all)
  qed
qed

subsection \<open>Send\<close>

text \<open>C26: awaiting \<^verbatim>\<open>send\<close> on an open channel does what the contract says: the value goes to the
  oldest live receiver or into the buffer and the sender goes on at once, or the sender parks at the
  end of the queue and its coroutine is remembered; the channel and its loop stay consistent and the
  sender carries no error.  A receiver that is handed the value has left the queue, is the last
  coroutine made ready, and its \<^verbatim>\<open>await_resume\<close> returns exactly that value.\<close>

theorem send_refines:
  assumes rep: "chan_rep w l xs rs ts ws ns" and a: "node_ready w a" "nd_sending w a" "nd_value w a = Some v"
    and t: "loop_check t l w" and ok: "\<not> loop_stopped l w" "\<not> stop_requested (op_token w a) w" and c: "\<not> ch_closed w"
    and q: "hq_push v (chan_abs w xs) = (r, q')"
  shows "\<exists>w' ys rs' ws'. node_suspend t a h w = Some (Inr (r = Refused), w') \<and> chan_rep w' l ys rs' ts ws' ns \<and>
    chan_abs w' ys = (if r = Refused then hq_block_send a v q' else q') \<and>
    (r = Refused \<longrightarrow> op_handle w' a = h \<and> a \<in> set ws') \<and> op_error w' a = op_error w a \<and>
    (\<forall>b. r = Handed b \<longrightarrow> last_opt rs' = Some b \<and> b \<notin> set ys \<and> nd_value w' b = Some v \<and> op_error w' b = op_error w b \<and>
       (op_error w b = None \<longrightarrow> node_resume b w' = Inr (Some v)))"
proof -
  note B = chan_baseD [OF chan_repD(1) [OF rep]] and A = a(1) [unfolded node_ready_def B(1)]
  have own: "op_owner w a = l" using A by (simp add: op_fresh_def)
  have out: "a \<notin> set ws" "a \<notin> set xs" using op_fresh_notin [OF B(2)] A B(6) by auto
  from chan_push_refines [OF rep q] obtain w1 ys rs1 ws1 where
    p: "chan_push v w = Some (r \<noteq> Refused, w1)" and rep1: "chan_rep w1 l ys rs1 ts ws1 ns"
    and q1: "chan_abs w1 ys = q'" and sub: "set ys \<subseteq> set xs" "set rs1 \<subseteq> set rs \<union> set ws" "set ws1 \<subseteq> set ws"
    and cf: "chan_frame (set xs \<union> set ws) w w1" and st: "lp_stopping (loops w1 l) = lp_stopping (loops w l)"
    and fr: "op_owner w1 = op_owner w" "nd_sending w1 = nd_sending w" "ch_closed w1 = ch_closed w"
    and rf: "r = Refused \<longrightarrow> nd_value w1 = nd_value w \<and> op_canceled w1 = op_canceled w \<and> (ys = [] \<or> hq_snds q' \<noteq> [])"
    and hd: "\<forall>b. r = Handed b \<longrightarrow> nd_value w1 b = Some v \<and> last_opt rs1 = Some b \<and> b \<notin> set ys \<and> \<not> nd_sending w b \<and> op_error w1 b = op_error w b"
    by (elim exE conjE) (rule that; assumption)
  have er: "op_error w1 a = op_error w a" using cf out by (simp add: chan_frame_def)
  have step: "node_suspend t a h w = (if r \<noteq> Refused then Some (Inr False, w1)
      else case wait_park t a h (op_token w1 a) w1 of (Inr True, w2) \<Rightarrow> Some (Inr True, chan_link a w2) | (r, w2) \<Rightarrow> Some (r, w2))"
    using own t ok c a(2,3) p by (auto simp: node_suspend_def Let_def split: prod.split sum.split bool.split)
  show ?thesis
  proof (cases "r = Refused")
    case False
    then have "node_suspend t a h w = Some (Inr (r = Refused), w1)" using step by simp
    moreover have "op_error w b = None \<longrightarrow> node_resume b w1 = Inr (Some v)" if "r = Handed b" for b
      using that hd fr by (simp add: node_resume_def op_resume_def)
    ultimately show ?thesis using rep1 q1 er hd False
      by (intro exI [of _ w1] exI [of _ ys] exI [of _ rs1] exI [of _ ws1]) simp
  next
    case True
    with rf have v1: "nd_value w1 = nd_value w" and cn: "op_canceled w1 = op_canceled w"
      and ys: "ys = [] \<or> hq_snds (chan_abs w1 ys) \<noteq> []" using q1 by auto
    have "ring_full (ch_ring w)" using hq_push_cases(3) [OF chan_abs_inv [OF rep] q True] by (simp add: ring_full_size)
    moreover have ring1: "ch_ring w1 = ch_ring w \<or> ring_full (ch_ring w1)"
      using True q q1 hq_push_cases(3) [OF chan_abs_inv [OF rep] q True] by (metis chan_abs_buf ring_full_size ring_list_length)
    ultimately have full: "ring_full (ch_ring w1)" by auto
    have "\<forall>b \<in> set ys. nd_sending w1 b \<and> nd_value w1 b \<noteq> None"
      using ys chan_abs_snds_Cons(3) [OF chan_repD(3) [OF rep1]]
      by (cases "hq_snds (chan_abs w1 ys)") (auto simp del: split_paired_All)
    then have dir: "queue_dir w1 (ys @ [a])" using full a(2,3) fr v1 by (auto simp: queue_dir_def)
    obtain w2 where "wait_park t a h (op_token w1 a) w1 = (Inr True, w2)"
      "chan_rep (chan_link a w2) l (ys @ [a]) rs1 ts (a # ws1) ns" "op_handle (chan_link a w2) a = h"
      "op_error (chan_link a w2) a = op_error w a" "chan_abs (chan_link a w2) (ys @ [a]) = hq_block_send a v q'"
      using node_still_parks [OF rep a(1) t ok c rep1 sub cf st fr(1,3) cn dir, of h] a(2,3) fr(2) v1 q1 by auto
    then show ?thesis using step True
      by (intro exI [of _ "chan_link a w2"] exI [of _ "ys @ [a]"] exI [of _ rs1] exI [of _ "a # ws1"]) simp
  qed
qed

subsection \<open>Receive\<close>

lemma chan_abs_rcvs:
  assumes "queue_dir w xs" and "hq_rcvs (chan_abs w xs) \<noteq> []"
  shows "ring_size (ch_ring w) = 0" and "\<forall>a \<in> set xs. \<not> nd_sending w a"
proof -
  obtain a where "a \<in> set (hq_rcvs (chan_abs w xs))" using assms(2) by (metis list.set_sel(1))
  then have "a \<in> set xs" "\<not> nd_sending w a" by (auto simp: chan_abs_def Let_def)
  with assms(1) show "ring_size (ch_ring w) = 0" and "\<forall>a \<in> set xs. \<not> nd_sending w a"
    by (auto simp: queue_dir_def)
qed

text \<open>C27: awaiting \<^verbatim>\<open>recv\<close> does what the contract says: the oldest value arrives at once, whether
  it was buffered or held by a blocked sender, and that sender is released: it has left the queue and
  is the last coroutine made ready, with no error; on an empty channel the receiver parks at the end
  of the queue, or, once the channel is closed, completes with no value.\<close>

theorem recv_refines:
  assumes rep: "chan_rep w l xs rs ts ws ns" and a: "node_ready w a" "\<not> nd_sending w a" "nd_value w a = None"
    and t: "loop_check t l w" and ok: "\<not> loop_stopped l w" "\<not> stop_requested (op_token w a) w"
    and q: "hq_pop (chan_abs w xs) = (r, q')"
  shows "\<exists>w' ys rs' ws'. node_suspend t a h w = Some (Inr (r = None \<and> \<not> ch_closed w), w') \<and>
    chan_rep w' l ys rs' ts ws' ns \<and>
    chan_abs w' ys = (if r = None \<and> \<not> ch_closed w then hq_block_recv a q' else q') \<and>
    nd_value w' a = map_option fst r \<and> op_error w' a = op_error w a \<and>
    (r = None \<and> \<not> ch_closed w \<longrightarrow> op_handle w' a = h \<and> a \<in> set ws') \<and>
    (\<forall>x s. r = Some (x, Some s) \<longrightarrow> last_opt rs' = Some s \<and> s \<notin> set ys \<and> s \<notin> set ws' \<and> op_error w' s = op_error w s)"
proof -
  note B = chan_baseD [OF chan_repD(1) [OF rep]] and A = a(1) [unfolded node_ready_def B(1)]
  have own: "op_owner w a = l" using A by (simp add: op_fresh_def)
  have out: "a \<notin> set ws" "a \<notin> set xs" using op_fresh_notin [OF B(2)] A B(6) by auto
  from chan_pop_refines [OF rep q] obtain w1 ys rs1 ws1 where
    p: "chan_pop w = Some (map_option fst r, w1)" and rep1: "chan_rep w1 l ys rs1 ts ws1 ns"
    and q1: "chan_abs w1 ys = q'" and sub: "set ys \<subseteq> set xs" "set rs1 \<subseteq> set rs \<union> set ws" "set ws1 \<subseteq> set ws"
    and cf: "chan_frame (set xs \<union> set ws) w w1" and st: "lp_stopping (loops w1 l) = lp_stopping (loops w l)"
    and fr: "op_owner w1 = op_owner w" "nd_sending w1 = nd_sending w" "ch_closed w1 = ch_closed w"
      "nd_value w1 = nd_value w" "op_canceled w1 = op_canceled w"
    and rn: "r = None \<longrightarrow> ys = [] \<or> hq_rcvs q' \<noteq> []"
    and rl: "\<forall>x s. r = Some (x, Some s) \<longrightarrow> last_opt rs1 = Some s \<and> s \<notin> set ys \<and> s \<notin> set ws1 \<and> op_error w1 s = op_error w s"
    by (elim exE conjE) (rule that; assumption)
  have er: "op_error w1 a = op_error w a" using cf out by (simp add: chan_frame_def)
  have step: "node_suspend t a h w = (case map_option fst r of
      Some x \<Rightarrow> Some (Inr False, w1\<lparr>nd_value := (nd_value w1)(a := Some x)\<rparr>)
    | None \<Rightarrow> if ch_closed w1 then Some (Inr False, w1)
        else case wait_park t a h (op_token w1 a) w1 of (Inr True, w2) \<Rightarrow> Some (Inr True, chan_link a w2) | (r, w2) \<Rightarrow> Some (r, w2))"
    using own t ok a(2) p by (auto simp: node_suspend_def Let_def split: prod.split sum.split bool.split option.split)
  show ?thesis
  proof (cases r)
    case (Some xs')
    let ?u = "w1\<lparr>nd_value := (nd_value w1)(a := Some (fst xs'))\<rparr>"
    have n: "a \<notin> set ys" using out sub by auto
    have "queue_dir ?u ys" using chan_repD(3) [OF rep1] n by (subst queue_dir_cong) auto
    then have "chan_rep ?u l ys rs1 ts ws1 ns"
      using chan_repD [OF rep1] chan_base_value by (simp add: chan_rep_def)
    moreover have "chan_abs ?u ys = chan_abs w1 ys"
      using n by (intro chan_abs_cong) (auto simp: node_live_def loop_stopped_def)
    ultimately show ?thesis using step Some er q1 rl
      by (intro exI [of _ ?u] exI [of _ ys] exI [of _ rs1] exI [of _ ws1]) simp
  next
    case None
    show ?thesis
    proof (cases "ch_closed w")
      case True
      then show ?thesis using step None er q1 rep1 a(3) fr by auto
    next
      case False
      have "hq_buf q' = []" using hq_pop_cases(2) [OF chan_abs_inv [OF rep] q None] by (simp add: hq_contents_def)
      then have "ring_size (ch_ring w1) = 0" using q1 by (metis chan_abs_buf(2) length_0_conv ring_list_length)
      then have dir: "queue_dir w1 (ys @ [a])"
        using rn None q1 a(2) fr chan_abs_rcvs(2) [OF chan_repD(3) [OF rep1]] by (auto simp: queue_dir_def)
      obtain w2 where w2: "wait_park t a h (op_token w1 a) w1 = (Inr True, w2)"
        "chan_rep (chan_link a w2) l (ys @ [a]) rs1 ts (a # ws1) ns" "op_handle (chan_link a w2) a = h"
        "op_error (chan_link a w2) a = op_error w a" "chan_abs (chan_link a w2) (ys @ [a]) = hq_block_recv a q'"
        using node_still_parks [OF rep a(1) t ok False rep1 sub cf st fr(1,3,5) dir, of h] a(2) fr(2) q1 by auto
      have "nd_value (chan_link a w2) a = None" using chan_fields_park(10) [OF w2(1)] a(3) fr by simp
      then show ?thesis using step None False w2 fr
        by (intro exI [of _ "chan_link a w2"] exI [of _ "ys @ [a]"] exI [of _ rs1] exI [of _ "a # ws1"]) simp
    qed
  qed
qed

subsection \<open>Errors\<close>

text \<open>Awaiting a channel operation refuses at once, parks nothing and leaves the queue as it
  is: off the owner thread it throws, on a stopping loop or with a stopped token it completes with
  \<^verbatim>\<open>operation_canceled\<close>, and a send on a closed channel completes with \<^verbatim>\<open>broken_pipe\<close>; the last two
  surface as exceptions when the coroutine resumes.\<close>

theorem suspend_errors:
  "(\<not> loop_check t (op_owner w a) w \<longrightarrow> node_suspend t a h w = Some (Inl wrong_thread, w)) \<and>
   (loop_check t (op_owner w a) w \<and> (loop_stopped (op_owner w a) w \<or> stop_requested (op_token w a) w) \<longrightarrow>
      node_suspend t a h w = Some (Inr False, set_error a (Some Operation_Canceled) w) \<and>
      node_resume a (set_error a (Some Operation_Canceled) w) = Inl (System_Error Operation_Canceled)) \<and>
   (loop_check t (op_owner w a) w \<and> \<not> loop_stopped (op_owner w a) w \<and> \<not> stop_requested (op_token w a) w \<and>
      nd_sending w a \<and> ch_closed w \<longrightarrow>
      node_suspend t a h w = Some (Inr False, set_error a (Some Broken_Pipe) w) \<and>
      node_resume a (set_error a (Some Broken_Pipe) w) = Inl (System_Error Broken_Pipe))"
  by (auto simp: node_suspend_def node_resume_def op_resume_def Let_def)

subsection \<open>Close\<close>

lemma closed_commute:
  "chan_unlink a (w\<lparr>ch_closed := c\<rparr>) = (chan_unlink a w)\<lparr>ch_closed := c\<rparr>"
  "set_error a e (w\<lparr>ch_closed := c\<rparr>) = (set_error a e w)\<lparr>ch_closed := c\<rparr>"
  by (simp_all add: chan_unlink_def set_error_def split: prod.split)

lemma closed_notify: "wait_notify a (w\<lparr>ch_closed := c\<rparr>) = (wait_notify a w)\<lparr>ch_closed := c\<rparr>"
  by (simp add: wait_notify_def wait_unlink_def loop_finish_def callback_reset_def ready_push_def
      upd_loop_def Let_def split: prod.split option.split)

definition close_one :: "addr \<Rightarrow> ('v, 'z) chan_scheme \<Rightarrow> ('v, 'z) chan_scheme" where
  "close_one a w =
     (let w1 = chan_unlink a w in
      if \<not> op_active w1 a then w1
      else wait_notify a (if nd_sending w1 a then set_error a (Some Broken_Pipe) w1 else w1))"

lemma close_loop_step:
  "ch_first w = None \<Longrightarrow> close_loop w = Some w"
  "ch_first w = Some a \<Longrightarrow> close_loop w = close_loop (close_one a w)"
  by (simp_all add: close_loop.simps [of w] close_one_def Let_def)

lemma close_one_closed: "close_one a (w\<lparr>ch_closed := c\<rparr>) = (close_one a w)\<lparr>ch_closed := c\<rparr>"
  by (simp add: close_one_def Let_def closed_commute closed_notify)

lemma close_one_base:
  assumes base: "chan_base w l (a # xs) rs ts ws ns"
  shows "chan_base (close_one a w) l xs (rs @ filter (op_active w) [a]) ts (remove1 a ws) ns"
    and "ch_ring (close_one a w) = ch_ring w" and "nd_sending (close_one a w) = nd_sending w"
    and "nd_value (close_one a w) = nd_value w" and "op_active (close_one a w) = (op_active w)(a := False)"
    and "op_error (close_one a w) = (op_error w)(a := if op_active w a \<and> nd_sending w a then Some Broken_Pipe else op_error w a)"
    and "ch_closed (close_one a w) = ch_closed w"
proof -
  have u: "chan_base (chan_unlink a w) l xs rs ts ws ns" using chan_base_unlink [OF base, of a] by simp
  have n: "a \<notin> set xs" using dll_ends_distinct [OF chan_baseD(3) [OF base]] by simp
  show "chan_base (close_one a w) l xs (rs @ filter (op_active w) [a]) ts (remove1 a ws) ns"
  proof (cases "op_active w a")
    case True
    then have "a \<in> set ws" using waits_rep [OF base] by simp
    then show ?thesis using chan_base_notify [OF chan_base_error [OF u]] chan_base_notify [OF u] n True
      by (simp add: close_one_def Let_def)
  next
    case False
    then have "a \<notin> set ws" using waits_rep [OF base] by simp
    then show ?thesis using u False by (simp add: close_one_def Let_def remove1_idem)
  qed
qed (auto simp: close_one_def Let_def fun_eq_iff)

lemma close_loop_total:
  assumes "chan_base w l xs rs ts ws ns"
  shows "\<exists>w' ws'. close_loop (w\<lparr>ch_closed := True\<rparr>) = Some (w'\<lparr>ch_closed := True\<rparr>) \<and>
    chan_base w' l [] (rs @ filter (op_active w) xs) ts ws' ns \<and> ch_ring w' = ch_ring w \<and> ch_closed w' = ch_closed w \<and>
    (\<forall>a. op_error w' a = (if a \<in> set xs \<and> op_active w a \<and> nd_sending w a then Some Broken_Pipe else op_error w a))"
  using assms
proof (induction xs arbitrary: w rs ws)
  case Nil
  have "ch_first (w\<lparr>ch_closed := True\<rparr>) = None" using chan_first_rep [OF Nil] by simp
  from close_loop_step(1) [OF this] Nil show ?case by auto
next
  case (Cons a xs)
  have first: "ch_first (w\<lparr>ch_closed := True\<rparr>) = Some a" using chan_first_rep [OF Cons.prems] by simp
  have n: "a \<notin> set xs" using dll_ends_distinct [OF chan_baseD(3) [OF Cons.prems]] by simp
  note o = close_one_base [OF Cons.prems]
  have f: "filter (op_active (close_one a w)) xs = filter (op_active w) xs" using n o(5) by (intro filter_cong) auto
  from Cons.IH [OF o(1)] obtain w' ws' where
    ih: "close_loop ((close_one a w)\<lparr>ch_closed := True\<rparr>) = Some (w'\<lparr>ch_closed := True\<rparr>)"
      "chan_base w' l [] ((rs @ filter (op_active w) [a]) @ filter (op_active (close_one a w)) xs) ts ws' ns"
      "ch_ring w' = ch_ring (close_one a w)" "ch_closed w' = ch_closed (close_one a w)"
      "\<forall>b. op_error w' b = (if b \<in> set xs \<and> op_active (close_one a w) b \<and> nd_sending (close_one a w) b
         then Some Broken_Pipe else op_error (close_one a w) b)" by blast
  have "close_loop (w\<lparr>ch_closed := True\<rparr>) = Some (w'\<lparr>ch_closed := True\<rparr>)"
    using close_loop_step(2) [OF first] ih(1) by (simp add: close_one_closed)
  moreover have "\<forall>b. op_error w' b = (if b \<in> set (a # xs) \<and> op_active w b \<and> nd_sending w b then Some Broken_Pipe else op_error w b)"
    using ih(5) o(3,5,6) n by auto
  moreover have "(rs @ filter (op_active w) [a]) @ filter (op_active (close_one a w)) xs = rs @ filter (op_active w) (a # xs)"
    using f by simp
  ultimately show ?case using ih(2,3,4) o(2,7) by metis
qed

text \<open>C29: \<^verbatim>\<open>close\<close> ends, empties the queue and queues every parked waiter to run: senders with
  \<^verbatim>\<open>broken_pipe\<close>, receivers without an error and so without a value; values already buffered stay.\<close>

theorem close_empties:
  assumes rep: "chan_rep w l xs rs ts ws ns" and t: "loop_check t l w"
  shows "\<exists>w' ws'. chan_close t w = Some (Inr (), w') \<and> chan_rep w' l [] (rs @ filter (op_active w) xs) ts ws' ns \<and>
    ch_closed w' \<and> ch_ring w' = ch_ring w \<and>
    (\<forall>a. op_error w' a = (if a \<in> set xs \<and> op_active w a \<and> nd_sending w a then Some Broken_Pipe else op_error w a))"
proof -
  note R = chan_repD [OF rep] and B = chan_baseD [OF chan_repD(1) [OF rep]]
  from close_loop_total [OF R(1)] obtain w' ws' where
    w': "close_loop (w\<lparr>ch_closed := True\<rparr>) = Some (w'\<lparr>ch_closed := True\<rparr>)"
      "chan_base w' l [] (rs @ filter (op_active w) xs) ts ws' ns" "ch_ring w' = ch_ring w"
      "\<forall>a. op_error w' a = (if a \<in> set xs \<and> op_active w a \<and> nd_sending w a then Some Broken_Pipe else op_error w a)"
    by blast
  let ?u = "w'\<lparr>ch_closed := True\<rparr>"
  note B' = chan_baseD [OF w'(2)]
  have "loop_rep ?u l {} (rs @ filter (op_active w) xs) ts ws' ns" by (rule loop_rep_cong [OF B'(2)]) auto
  then have "chan_base ?u l [] (rs @ filter (op_active w) xs) ts ws' ns"
    using B'(1,3,6) unfolding chan_base_def by simp
  then have "chan_rep ?u l [] (rs @ filter (op_active w) xs) ts ws' ns"
    using R(2) w'(3) by (simp add: chan_rep_def queue_dir_def)
  then show ?thesis using w' t B(1) by (intro exI [of _ ?u] exI [of _ ws']) (simp add: chan_close_def)
qed

text \<open>C28: a program of \<^verbatim>\<open>try_send\<close>/\<^verbatim>\<open>try_recv\<close> steps on a channel with no receiver waiting always ends, and
  the values received followed by what is left in the channel are the values that were in it followed
  by those accepted, in order: nothing is lost, duplicated or reordered, also across blocked senders.\<close>

theorem channel_fifo:
  assumes "chan_view w q" and "hq_rcvs q = []"
  shows "\<exists>ins outs w' q'. ch.run cs w = Some (ins, outs, w') \<and> chan_view w' q' \<and>
    outs @ hq_contents q' = hq_contents q @ ins"
  using ch.run_fifo [OF assms] by blast

subsection \<open>A concrete channel\<close>

text \<open>An open, empty channel with a send awaiter 1 that carries 42 and a receive awaiter 2.\<close>

definition pipe :: "nat \<Rightarrow> nat chan" where
  "pipe cap = world.extend world_init
     \<lparr>ch_loop = 0, ch_ring = ring_init cap, ch_closed = False, ch_first = None, ch_last = None,
      nd_next = \<lambda>a. None, nd_prev = \<lambda>a. None, nd_linked = \<lambda>a. False,
      nd_sending = \<lambda>a. a = 1, nd_value = \<lambda>a. if a = 1 then Some 42 else None\<rparr>"

lemmas pipe_simps = pipe_def world.defs world_init_def loop_init_def rq_init_def

lemma pipe_rep: "chan_rep (pipe cap) 0 [] [] [] [] []"
  by (auto simp: pipe_simps chan_rep_def chan_base_def loop_rep_def rq_rep_def dll_def dll_ends_def
      is_heap_def queue_dir_def ring_inv_init)

lemma pipe_facts:
  "node_ready (pipe cap) a" "nd_sending (pipe cap) 1" "nd_value (pipe cap) 1 = Some 42"
  "\<not> nd_sending (pipe cap) 2" "nd_value (pipe cap) 2 = None" "loop_check 0 0 (pipe cap)"
  "\<not> loop_stopped 0 (pipe cap)" "\<not> stop_requested (op_token (pipe cap) a) (pipe cap)" "\<not> ch_closed (pipe cap)"
  by (simp_all add: pipe_simps node_ready_def op_fresh_def loop_check_def loop_stopped_def stop_requested_def)

lemma pipe_abs: "chan_abs (pipe cap) [] = \<lparr>hq_cap = cap, hq_buf = [], hq_snds = [], hq_rcvs = []\<rparr>"
  by (simp add: chan_abs_def pipe_simps)

text \<open>The same channel with one of its awaiters parked: the receiver 2, or the sender 1 of a rendezvous.\<close>

definition pipe_parked :: "addr \<Rightarrow> nat \<Rightarrow> nat chan" where
  "pipe_parked b cap = (pipe cap)
     \<lparr>loops := (loops (pipe cap))(0 := (loop_init 0)\<lparr>lp_waits := Some b\<rparr>), op_active := (\<lambda>a. a = b),
      ch_first := Some b, ch_last := Some b, nd_linked := (\<lambda>a. a = b)\<rparr>"

lemma pipe_parked_rep:
  "chan_rep (pipe_parked 2 3) 0 [2] [] [] [2] []" "chan_rep (pipe_parked 1 0) 0 [1] [] [] [1] []"
  by (auto simp: pipe_parked_def pipe_simps chan_rep_def chan_base_def loop_rep_def rq_rep_def dll_def dll_ends_def
      is_heap_def queue_dir_def ring_inv_init ring_init_def ring_full_def ring_inv_def ring_cap_def)

lemma pipe_parked_facts:
  "a \<noteq> b \<Longrightarrow> node_ready (pipe_parked b cap) a" "nd_sending (pipe_parked b cap) 1" "nd_value (pipe_parked b cap) 1 = Some 42"
  "\<not> nd_sending (pipe_parked b cap) 2" "nd_value (pipe_parked b cap) 2 = None" "loop_check 0 0 (pipe_parked b cap)"
  "\<not> loop_stopped 0 (pipe_parked b cap)" "\<not> stop_requested (op_token (pipe_parked b cap) a) (pipe_parked b cap)"
  "\<not> ch_closed (pipe_parked b cap)" "op_error (pipe_parked b cap) c = None"
  by (simp_all add: pipe_parked_def pipe_simps node_ready_def op_fresh_def loop_check_def loop_stopped_def stop_requested_def)

lemma pipe_parked_abs:
  "chan_abs (pipe_parked 2 3) [2] = \<lparr>hq_cap = 3, hq_buf = [], hq_snds = [], hq_rcvs = [2]\<rparr>"
  "chan_abs (pipe_parked 1 0) [1] = \<lparr>hq_cap = 0, hq_buf = [], hq_snds = [(1, 42)], hq_rcvs = []\<rparr>"
  by (simp_all add: chan_abs_def pipe_parked_def pipe_simps node_live_def loop_stopped_def)

theorem send_refines_witness:
  "\<exists>w' ys rs' ws'. node_suspend 0 1 9 (pipe_parked 2 3) = Some (Inr False, w') \<and> chan_rep w' 0 ys rs' [] ws' [] \<and>
     last_opt rs' = Some 2 \<and> node_resume 2 w' = Inr (Some 42)"
proof -
  have "hq_push 42 (chan_abs (pipe_parked 2 3) [2]) = (Handed 2, (chan_abs (pipe_parked 2 3) [2])\<lparr>hq_rcvs := []\<rparr>)"
    by (simp add: hq_push_def pipe_parked_abs)
  from send_refines [OF pipe_parked_rep(1) pipe_parked_facts(1) pipe_parked_facts(2,3,6-9) this, of 9] pipe_parked_facts(10) [of 2 3 2]
  show ?thesis by auto
qed

theorem recv_refines_witness:
  "\<exists>w' ys rs' ws'. node_suspend 0 2 8 (pipe_parked 1 0) = Some (Inr False, w') \<and> chan_rep w' 0 ys rs' [] ws' [] \<and>
     nd_value w' 2 = Some 42 \<and> last_opt rs' = Some 1"
proof -
  have "hq_pop (chan_abs (pipe_parked 1 0) [1]) = (Some (42, Some 1), (chan_abs (pipe_parked 1 0) [1])\<lparr>hq_snds := []\<rparr>)"
    unfolding pipe_parked_abs hq_pop_def by simp
  from recv_refines [OF pipe_parked_rep(2) pipe_parked_facts(1) pipe_parked_facts(4,5,6-8) this, of 8]
  show ?thesis by auto
qed

theorem suspend_errors_witness:
  "node_suspend 1 2 8 (pipe 3) = Some (Inl wrong_thread, pipe 3)"
proof -
  have "\<not> loop_check 1 (op_owner (pipe 3) 2) (pipe 3)" by (simp add: pipe_simps loop_check_def)
  then show ?thesis using suspend_errors [of 1 "pipe 3" 2 8] by blast
qed

theorem close_empties_witness:
  "\<exists>w' ws'. chan_close 0 (pipe 3) = Some (Inr (), w') \<and> chan_rep w' 0 [] [] [] ws' [] \<and> ch_closed w'"
  using close_empties [OF pipe_rep pipe_facts(6), of 3] by auto

theorem channel_fifo_witness:
  "\<exists>ins outs w' q'. ch.run [Inl 1, Inl 2, Inr ()] (pipe 2) = Some (ins, outs, w') \<and> chan_view w' q' \<and>
     outs @ hq_contents q' = ins"
proof -
  have "chan_view (pipe 2) (chan_abs (pipe 2) [])" unfolding chan_view_def using pipe_rep by blast
  from channel_fifo [OF this, of "[Inl 1, Inl 2, Inr ()]"] show ?thesis
    by (auto simp: pipe_abs hq_contents_def)
qed

end
