(* ===== verification/Wait_Queue.thy ===== *)
theory Wait_Queue
  imports Loop_Sched Loop_Progress
begin

text \<open>
  \<^verbatim>\<open>detail/wait_queue.hpp\<close>: the FIFO of waiters that \<^verbatim>\<open>mailbox\<close> and \<^verbatim>\<open>futex\<close> share across loops.
  Every operation runs under the queue's mutex, so it is one step of the model.  A waiter is
  parked on its own loop; it leaves the queue either by delivery, a message to that loop whose
  body retires the wait, or by the cancellation hook its loop runs.
\<close>

subsection \<open>Definitions\<close>

record waiting = world +
  wq_first :: ptr
  wq_last :: ptr
  wq_users :: nat
  rw_before :: field_ptr
  rw_after :: field_ptr
  rw_linked :: "addr \<Rightarrow> bool"

definition remote_init :: "loop_id \<Rightarrow> addr \<Rightarrow> token_id option \<Rightarrow> 'z waiting_scheme \<Rightarrow> 'z waiting_scheme" where
  "remote_init l a k w =
     w\<lparr>op_owner := (op_owner w)(a := l), op_error := (op_error w)(a := None),
       op_canceled := (op_canceled w)(a := False), op_active := (op_active w)(a := False),
       op_token := (op_token w)(a := k), m_next := (m_next w)(a := None),
       wt_next := (wt_next w)(a := None), wt_prev := (wt_prev w)(a := None),
       wt_interruptible := (wt_interruptible w)(a := True), wt_hook := (wt_hook w)(a := True),
       rw_before := (rw_before w)(a := None), rw_after := (rw_after w)(a := None),
       rw_linked := (rw_linked w)(a := False), wq_users := wq_users w + 1\<rparr>"

text \<open>\<^verbatim>\<open>~remote_wait\<close>; \<^const>\<open>None\<close> is \<^verbatim>\<open>std::terminate\<close>.\<close>

definition remote_destroy :: "addr \<Rightarrow> 'z waiting_scheme \<Rightarrow> 'z waiting_scheme option" where
  "remote_destroy a w =
     (if rw_linked w a \<or> op_active w a then None else Some (w\<lparr>wq_users := wq_users w - 1\<rparr>))"

definition canceled_now :: "thread_id \<Rightarrow> addr \<Rightarrow> 'z waiting_scheme \<Rightarrow> (bool, 'z waiting_scheme) result" where
  "canceled_now t a w =
     (if \<not> loop_check t (op_owner w a) w then (Inl wrong_thread, w)
      else if \<not> loop_stopped (op_owner w a) w \<and> \<not> stop_requested (op_token w a) w then (Inr False, w)
      else (Inr True, set_error a (Some Operation_Canceled) w))"

definition remote_link :: "addr \<Rightarrow> 'z waiting_scheme \<Rightarrow> 'z waiting_scheme" where
  "remote_link a w =
     (case dl_push_back a ((rw_after w, rw_before w), wq_first w, wq_last w) of
        ((nx, pv), first, lst) \<Rightarrow>
          w\<lparr>rw_after := nx, rw_before := pv, wq_first := first, wq_last := lst,
            rw_linked := (rw_linked w)(a := True)\<rparr>)"

definition remote_enqueue :: "thread_id \<Rightarrow> addr \<Rightarrow> handle_id \<Rightarrow> 'z waiting_scheme \<Rightarrow> (bool, 'z waiting_scheme) result" where
  "remote_enqueue t a h w =
     (case wait_park t a h (op_token w a) w of
        (Inr True, w1) \<Rightarrow> (Inr True, remote_link a w1)
      | (r, w1) \<Rightarrow> (r, w1))"

definition remote_unlink :: "addr \<Rightarrow> 'z waiting_scheme \<Rightarrow> 'z waiting_scheme" where
  "remote_unlink a w =
     (case dl_unlink_ends a ((rw_after w, rw_before w), wq_first w, wq_last w) of
        ((nx, pv), first, lst) \<Rightarrow>
          w\<lparr>rw_after := nx, rw_before := pv, wq_first := first, wq_last := lst,
            rw_linked := (rw_linked w)(a := False)\<rparr>)"

definition remote_deliver :: "errc option \<Rightarrow> addr \<Rightarrow> 'z waiting_scheme \<Rightarrow> 'z waiting_scheme" where
  "remote_deliver failure a w = message_send (op_owner w a) a (set_error a failure (remote_unlink a w))"

text \<open>The \<^verbatim>\<open>interrupt\<close> hook its loop runs on cancellation, and the body \<^verbatim>\<open>run\<close> of its message.\<close>

definition remote_interrupt :: "addr \<Rightarrow> 'z waiting_scheme \<Rightarrow> 'z waiting_scheme" where
  "remote_interrupt a w =
     (if \<not> rw_linked w a then w
      else wait_notify a (set_error a (Some Operation_Canceled) (remote_unlink a w)))"

definition remote_run :: "addr \<Rightarrow> 'z waiting_scheme \<Rightarrow> 'z waiting_scheme" where
  "remote_run a w = wait_notify a w"

definition remote_dead :: "'z waiting_scheme \<Rightarrow> addr \<Rightarrow> bool" where
  "remote_dead w a \<longleftrightarrow> wt_interruptible w a \<and> (op_canceled w a \<or> loop_stopped (op_owner w a) w)"

partial_function (option) remote_front :: "'z waiting_scheme \<Rightarrow> (ptr \<times> 'z waiting_scheme) option" where
  "remote_front w =
     (case wq_first w of
        None \<Rightarrow> Some (None, w)
      | Some a \<Rightarrow>
          if remote_dead w a then remote_front (remote_deliver (Some Operation_Canceled) a w)
          else Some (Some a, w))"

subsection \<open>Frames\<close>

lemma remote_unlink_frame [simp]:
  "loops (remote_unlink a w) = loops w" "m_next (remote_unlink a w) = m_next w"
  "op_owner (remote_unlink a w) = op_owner w" "op_error (remote_unlink a w) = op_error w"
  "op_canceled (remote_unlink a w) = op_canceled w" "op_active (remote_unlink a w) = op_active w"
  "wt_interruptible (remote_unlink a w) = wt_interruptible w" "op_token (remote_unlink a w) = op_token w"
  "stop_flag (remote_unlink a w) = stop_flag w" "wq_users (remote_unlink a w) = wq_users w"
  "rw_linked (remote_unlink a w) = (rw_linked w)(a := False)" "wt_prev (remote_unlink a w) = wt_prev w"
  "r_next (remote_unlink a w) = r_next w" "wt_next (remote_unlink a w) = wt_next w"
  "op_handle (remote_unlink a w) = op_handle w" "clock_now (remote_unlink a w) = clock_now w"
  by (simp_all add: remote_unlink_def split: prod.split)

lemma message_send_frame [simp]:
  "op_owner (message_send l a w) = op_owner w" "op_error (message_send l a w) = op_error w"
  "op_canceled (message_send l a w) = op_canceled w" "op_active (message_send l a w) = op_active w"
  "wt_interruptible (message_send l a w) = wt_interruptible w" "op_token (message_send l a w) = op_token w"
  "stop_flag (message_send l a w) = stop_flag w" "wt_prev (message_send l a w) = wt_prev w"
  "r_next (message_send l a w) = r_next w" "wt_next (message_send l a w) = wt_next w"
  "tm_due (message_send l a w) = tm_due w" "io_next (message_send l a w) = io_next w"
  "io_prev (message_send l a w) = io_prev w" "op_handle (message_send l a w) = op_handle w"
  "clock_now (message_send l a w) = clock_now w"
  by (simp_all add: message_send_def loop_wake_def upd_loop_def Let_def split: prod.split)

lemma message_send_loop [simp]:
  "lp_thread (loops (message_send l a w) k) = lp_thread (loops w k)"
  "lp_stopping (loops (message_send l a w) k) = lp_stopping (loops w k)"
  "lp_ready (loops (message_send l a w) k) = lp_ready (loops w k)"
  "lp_timers (loops (message_send l a w) k) = lp_timers (loops w k)"
  "lp_waits (loops (message_send l a w) k) = lp_waits (loops w k)"
  "lp_io (loops (message_send l a w) k) = lp_io (loops w k)"
  by (simp_all add: message_send_def loop_wake_def upd_loop_def Let_def split: prod.split)

lemma waiting_fields_send [simp]:
  "wq_first (message_send l a (w :: 'z waiting_scheme)) = wq_first w" "wq_last (message_send l a w) = wq_last w"
  "wq_users (message_send l a w) = wq_users w" "rw_before (message_send l a w) = rw_before w"
  "rw_after (message_send l a w) = rw_after w" "rw_linked (message_send l a w) = rw_linked w"
  by (simp_all add: message_send_def loop_wake_def upd_loop_def Let_def split: prod.split)

lemma waiting_fields_error [simp]:
  "wq_first (set_error a e (w :: 'z waiting_scheme)) = wq_first w" "wq_last (set_error a e w) = wq_last w"
  "wq_users (set_error a e w) = wq_users w" "rw_before (set_error a e w) = rw_before w"
  "rw_after (set_error a e w) = rw_after w" "rw_linked (set_error a e w) = rw_linked w"
  by (simp_all add: set_error_def)

lemma stopped_send [simp]: "loop_stopped k (message_send l a w) = loop_stopped k w"
  by (simp add: loop_stopped_def)

lemma deliver_frame [simp]:
  "op_owner (remote_deliver e a w) = op_owner w" "op_canceled (remote_deliver e a w) = op_canceled w"
  "op_active (remote_deliver e a w) = op_active w" "wt_interruptible (remote_deliver e a w) = wt_interruptible w"
  "op_token (remote_deliver e a w) = op_token w" "stop_flag (remote_deliver e a w) = stop_flag w"
  "wq_users (remote_deliver e a w) = wq_users w" "wt_prev (remote_deliver e a w) = wt_prev w"
  "op_error (remote_deliver e a w) = (op_error w)(a := e)" "rw_linked (remote_deliver e a w) = (rw_linked w)(a := False)"
  "lp_thread (loops (remote_deliver e a w) k) = lp_thread (loops w k)"
  "lp_stopping (loops (remote_deliver e a w) k) = lp_stopping (loops w k)"
  "loop_stopped k (remote_deliver e a w) = loop_stopped k w"
  "remote_dead (remote_deliver e a w) = remote_dead w"
  by (simp_all add: remote_deliver_def set_error_def loop_stopped_def remote_dead_def fun_eq_iff)

subsection \<open>Representation\<close>

text \<open>
  The queue holds the waiters \<open>xs\<close>, oldest first, and the loops hold the undelivered messages
  \<open>ms\<close>; a waiter is in the queue or has a delivery in flight, never both.
\<close>

definition waiting_rep :: "'z waiting_scheme \<Rightarrow> addr list \<Rightarrow> (loop_id \<Rightarrow> addr list) \<Rightarrow> bool" where
  "waiting_rep w xs ms \<longleftrightarrow>
     dll_ends ((rw_after w, rw_before w), wq_first w, wq_last w) xs \<and>
     (\<forall>a. rw_linked w a \<longleftrightarrow> a \<in> set xs) \<and>
     (\<forall>l. rq_rep (m_next w, lp_messages (loops w l)) (ms l)) \<and>
     (\<forall>l k. l \<noteq> k \<longrightarrow> set (ms l) \<inter> set (ms k) = {}) \<and>
     (\<forall>a \<in> set xs. m_next w a = None \<and> (\<forall>l. a \<notin> set (ms l)))"

lemma waiting_repD:
  assumes "waiting_rep w xs ms"
  shows "dll_ends ((rw_after w, rw_before w), wq_first w, wq_last w) xs"
    "\<And>a. rw_linked w a \<longleftrightarrow> a \<in> set xs" "\<And>l. rq_rep (m_next w, lp_messages (loops w l)) (ms l)"
    "\<And>l k. l \<noteq> k \<Longrightarrow> set (ms l) \<inter> set (ms k) = {}"
    "\<And>a. a \<in> set xs \<Longrightarrow> m_next w a = None" "\<And>a l. a \<in> set xs \<Longrightarrow> a \<notin> set (ms l)"
  using assms unfolding waiting_rep_def by blast+

lemma waiting_first: "waiting_rep w xs ms \<Longrightarrow> wq_first w = hd_opt xs"
  by (drule waiting_repD(1)) (rule dll_ends_first)

lemma waiting_distinct: "waiting_rep w xs ms \<Longrightarrow> distinct xs"
  by (drule waiting_repD(1)) (rule dll_ends_distinct)

lemma waiting_rep_cong:
  assumes "waiting_rep w xs ms" and "rw_after w' = rw_after w" "rw_before w' = rw_before w"
    "wq_first w' = wq_first w" "wq_last w' = wq_last w" "rw_linked w' = rw_linked w" "m_next w' = m_next w"
    "\<And>l. lp_messages (loops w' l) = lp_messages (loops w l)"
  shows "waiting_rep w' xs ms"
  using assms unfolding waiting_rep_def by auto

text \<open>Sending a message to one loop: its queue grows, the other loops' queues stay.\<close>

lemma message_send_queue:
  assumes "\<And>l. rq_rep (m_next w, lp_messages (loops w l)) (ms l)" and "\<And>j k. j \<noteq> k \<Longrightarrow> set (ms j) \<inter> set (ms k) = {}"
    and "m_next w a = None" and "\<And>k. a \<notin> set (ms k)"
  shows "rq_rep (m_next (message_send l a w), lp_messages (loops (message_send l a w) k)) ((ms(l := ms l @ [a])) k)"
    and "b \<notin> set (ms l) \<Longrightarrow> m_next (message_send l a w) b = m_next w b"
proof -
  obtain mx q where p: "rq_push a (m_next w, lp_messages (loops w l)) = (mx, q)" by fastforce
  have mn: "m_next (message_send l a w) = mx"
    using p by (simp add: message_send_def Let_def loop_wake_def upd_loop_def)
  have ml: "lp_messages (loops (message_send l a w) k) = (if k = l then q else lp_messages (loops w k))"
    using p by (simp add: message_send_def Let_def loop_wake_def upd_loop_def)
  note fr = rq_push_frame [OF assms(1) [of l] p]
  then show "b \<notin> set (ms l) \<Longrightarrow> m_next (message_send l a w) b = m_next w b" using mn by simp
  show "rq_rep (m_next (message_send l a w), lp_messages (loops (message_send l a w) k)) ((ms(l := ms l @ [a])) k)"
  proof (cases "k = l")
    case True
    then show ?thesis
      using rq_rep_push [OF assms(1) [of l] assms(4) [of l]] assms(3) p mn ml by (simp add: rq_push_assert_def)
  next
    case False
    have "rq_rep (mx, lp_messages (loops w k)) (ms k)"
      using assms(2) [OF False] fr by (intro rq_rep_agree [OF assms(1) [of k]]) auto
    then show ?thesis using False mn ml by simp
  qed
qed

lemma waiting_rep_deliver:
  assumes rep: "waiting_rep w xs ms" and a: "a \<in> set xs"
  shows "waiting_rep (remote_deliver e a w) (remove1 a xs) (ms(op_owner w a := ms (op_owner w a) @ [a]))"
proof -
  note r = waiting_repD [OF rep]
  let ?u = "set_error a e (remote_unlink a w)" and ?l = "op_owner w a"
  have mu: "m_next ?u = m_next w" "loops ?u = loops w" by (simp_all add: set_error_def)
  have d: "dll_ends ((rw_after ?u, rw_before ?u), wq_first ?u, wq_last ?u) (remove1 a xs)"
    using dll_unlink_ends [OF r(1) a] by (auto simp: remote_unlink_def split: prod.splits)
  have s: "set (remove1 a xs) = set xs - {a}" using dll_ends_distinct [OF r(1)] by (rule set_remove1_eq)
  have q: "rq_rep (m_next (message_send ?l a ?u), lp_messages (loops (message_send ?l a ?u) k)) ((ms(?l := ms ?l @ [a])) k)" for k
    by (rule message_send_queue(1)) (use r a mu in auto)
  have m: "m_next (message_send ?l a ?u) b = m_next w b" if "b \<notin> set (ms ?l)" for b
    using message_send_queue(2) [of ?u ms a b ?l] r a mu that by auto
  show ?thesis
    unfolding waiting_rep_def remote_deliver_def using d s q r(2,4,5,6) m a
    by (auto simp: set_error_def)
qed

text \<open>Delivering several waiters, the oldest first.\<close>

definition deliver_list :: "errc option \<Rightarrow> addr list \<Rightarrow> 'z waiting_scheme \<Rightarrow> 'z waiting_scheme" where
  "deliver_list e = fold (remote_deliver e)"

definition mail :: "'z waiting_scheme \<Rightarrow> addr list \<Rightarrow> (loop_id \<Rightarrow> addr list) \<Rightarrow> (loop_id \<Rightarrow> addr list)" where
  "mail w xs ms = (\<lambda>l. ms l @ filter (\<lambda>a. op_owner w a = l) xs)"

lemma mail_Cons: "mail w (a # xs) ms = mail w xs (ms(op_owner w a := ms (op_owner w a) @ [a]))"
  by (rule ext) (simp add: mail_def)

lemma mail_owner: "op_owner w' = op_owner w \<Longrightarrow> mail w' = mail w"
  by (intro ext) (simp add: mail_def)

lemma deliver_list_frame [simp]:
  "op_owner (deliver_list e xs w) = op_owner w" "op_canceled (deliver_list e xs w) = op_canceled w"
  "op_active (deliver_list e xs w) = op_active w" "wt_interruptible (deliver_list e xs w) = wt_interruptible w"
  "op_token (deliver_list e xs w) = op_token w" "stop_flag (deliver_list e xs w) = stop_flag w"
  "wq_users (deliver_list e xs w) = wq_users w" "wt_prev (deliver_list e xs w) = wt_prev w"
  "op_error (deliver_list e xs w) b = (if b \<in> set xs then e else op_error w b)"
  "lp_thread (loops (deliver_list e xs w) k) = lp_thread (loops w k)"
  "lp_stopping (loops (deliver_list e xs w) k) = lp_stopping (loops w k)"
  "loop_stopped k (deliver_list e xs w) = loop_stopped k w" "remote_dead (deliver_list e xs w) = remote_dead w"
  unfolding deliver_list_def by (induction xs arbitrary: w) auto

lemma waiting_rep_deliver_list:
  assumes "waiting_rep w (ys @ zs) ms"
  shows "waiting_rep (deliver_list e ys w) zs (mail w ys ms)"
  using assms
proof (induction ys arbitrary: w ms)
  case Nil
  then show ?case by (simp add: deliver_list_def mail_def)
next
  case (Cons a ys)
  have "waiting_rep (remote_deliver e a w) (ys @ zs) (ms(op_owner w a := ms (op_owner w a) @ [a]))"
    using waiting_rep_deliver [OF Cons.prems, of a e] by simp
  from Cons.IH [OF this] show ?case by (simp add: deliver_list_def mail_Cons mail_owner [of "remote_deliver e a w" w] fun_upd_def)
qed

text \<open>\<^verbatim>\<open>front\<close> ends: it fails the canceled waiters at the head and shows the first live one.\<close>

lemma remote_front_total:
  assumes "waiting_rep w xs ms"
  shows "remote_front w = Some (hd_opt (dropWhile (remote_dead w) xs),
    deliver_list (Some Operation_Canceled) (takeWhile (remote_dead w) xs) w)"
  using assms
proof (induction xs arbitrary: w ms)
  case Nil
  then show ?case using waiting_first [OF Nil] by (subst remote_front.simps) (simp add: deliver_list_def)
next
  case (Cons a xs)
  have f: "wq_first w = Some a" using waiting_first [OF Cons.prems] by simp
  show ?case
  proof (cases "remote_dead w a")
    case True
    have "waiting_rep (remote_deliver (Some Operation_Canceled) a w) xs (ms(op_owner w a := ms (op_owner w a) @ [a]))"
      using waiting_rep_deliver [OF Cons.prems, of a] by simp
    from Cons.IH [OF this] True f show ?thesis by (subst remote_front.simps) (simp add: deliver_list_def)
  next
    case False
    with f show ?thesis by (subst remote_front.simps) (simp add: deliver_list_def)
  qed
qed

lemma waiting_rep_front:
  assumes "waiting_rep w xs ms"
  shows "waiting_rep (deliver_list e (takeWhile P xs) w) (dropWhile P xs) (mail w (takeWhile P xs) ms)"
  using waiting_rep_deliver_list [of w "takeWhile P xs" "dropWhile P xs" ms e] assms by simp

subsection \<open>The waiter and its loop\<close>

text \<open>The queue's operations leave the structure of every loop as it is.\<close>

lemma rep_remote_unlink: "loop_rep w l A rs ts ws ns \<Longrightarrow> loop_rep (remote_unlink a w) l A rs ts ws ns"
  by (erule loop_rep_cong) (auto simp: remote_unlink_def split: prod.split)

lemma rep_message_send: "loop_rep w l A rs ts ws ns \<Longrightarrow> loop_rep (message_send k a w) l A rs ts ws ns"
  by (erule loop_rep_cong) auto

lemma rep_remote_deliver: "loop_rep w l {} rs ts ws ns \<Longrightarrow> loop_rep (remote_deliver e a w) l {} rs ts ws ns"
  unfolding remote_deliver_def by (intro rep_message_send rep_set_error rep_remote_unlink)

lemma rep_deliver_list: "loop_rep w l {} rs ts ws ns \<Longrightarrow> loop_rep (deliver_list e xs w) l {} rs ts ws ns"
  unfolding deliver_list_def by (induction xs arbitrary: w) (auto intro: rep_remote_deliver)

text \<open>The two ends of a wait satisfy what the scheduler asks of hooks and message bodies.\<close>

lemma remote_hook_ok: "hook_ok l remote_interrupt"
  unfolding hook_ok_def remote_interrupt_def
  by (auto intro: rep_wait_notify rep_set_error rep_remote_unlink)

lemma remote_run_ok: "deliver_ok remote_run S"
  by (simp add: deliver_ok_def remote_run_def)

text \<open>A batch of messages to waiters parked on the loop makes exactly them ready, in order.\<close>

lemma deliver_all_ready:
  assumes "loop_rep w l {} rs ts ws ns" and "distinct xs" and "set xs \<subseteq> set ws"
  shows "loop_rep (deliver_all remote_run xs w) l {} (rs @ xs) ts (filter (\<lambda>a. a \<notin> set xs) ws) ns"
  using assms
proof (induction xs arbitrary: w rs ws)
  case Nil
  then show ?case by (simp add: deliver_all_def)
next
  case (Cons a xs)
  let ?v = "w\<lparr>m_next := (m_next w)(a := None)\<rparr>"
  have "loop_rep ?v l {} rs ts ws ns" by (rule loop_rep_cong [OF Cons.prems(1)]) auto
  from rep_wait_notify [OF this, of a] Cons.prems(3)
  have "loop_rep (remote_run a ?v) l {} (rs @ [a]) ts (remove1 a ws) ns" by (simp add: remote_run_def)
  moreover have d: "distinct ws" using loop_repD(6) [OF Cons.prems(1)] by simp
  moreover have "set xs \<subseteq> set (remove1 a ws)" using Cons.prems(2,3) d by auto
  ultimately have "loop_rep (deliver_all remote_run xs (remote_run a ?v)) l {} ((rs @ [a]) @ xs) ts
      (filter (\<lambda>b. b \<notin> set xs) (remove1 a ws)) ns"
    using Cons.prems(2) by (intro Cons.IH) auto
  moreover have "filter (\<lambda>b. b \<notin> set xs) (remove1 a ws) = filter (\<lambda>b. b \<notin> set (a # xs)) ws"
    using d by (auto simp: filter_neq_remove1 intro: filter_cong)
  ultimately show ?case by (simp add: deliver_all_def)
qed

lemma deliver_all_fields [simp]:
  "op_error (deliver_all remote_run xs w) = op_error w"
  unfolding deliver_all_def remote_run_def by (induction xs arbitrary: w) auto

end
