(* ===== verification/Handoff_Ring.thy ===== *)
theory Handoff_Ring
  imports Handoff Ring_Buffer
begin

text \<open>
  The state a handoff queue keeps in memory, a ring of buffered values and a list of waiting
  nodes of which some are dead, seen as the abstract queue of \<open>Handoff\<close>; and what the abstract
  operations do in terms of the ring and of the first live node.
\<close>

definition hq_of :: "'v ring \<Rightarrow> (addr \<Rightarrow> bool) \<Rightarrow> (addr \<Rightarrow> 'v option) \<Rightarrow> (addr \<Rightarrow> bool) \<Rightarrow> addr list \<Rightarrow> 'v hq" where
  "hq_of r sd vl dead xs =
     \<lparr>hq_cap = ring_cap r, hq_buf = ring_list r,
      hq_snds = map (\<lambda>a. (a, the (vl a))) (filter (\<lambda>a. \<not> dead a \<and> sd a) xs),
      hq_rcvs = filter (\<lambda>a. \<not> dead a \<and> \<not> sd a) xs\<rparr>"

text \<open>The nodes all wait in one direction: senders behind a full ring, receivers before an empty one.\<close>

definition one_way :: "'v ring \<Rightarrow> (addr \<Rightarrow> bool) \<Rightarrow> (addr \<Rightarrow> 'v option) \<Rightarrow> addr list \<Rightarrow> bool" where
  "one_way r sd vl xs \<longleftrightarrow> xs = [] \<or> ring_full r \<and> (\<forall>a \<in> set xs. sd a \<and> vl a \<noteq> None) \<or>
     ring_size r = 0 \<and> (\<forall>a \<in> set xs. \<not> sd a)"

lemma one_way_subset: "one_way r sd vl xs \<Longrightarrow> set ys \<subseteq> set xs \<Longrightarrow> one_way r sd vl ys"
  unfolding one_way_def by auto

lemma one_way_cases:
  assumes "one_way r sd vl xs" and "xs \<noteq> []"
  obtains (send) "ring_full r" "\<And>a. a \<in> set xs \<Longrightarrow> sd a" "\<And>a. a \<in> set xs \<Longrightarrow> vl a \<noteq> None"
    | (recv) "ring_size r = 0" "\<And>a. a \<in> set xs \<Longrightarrow> \<not> sd a"
  using assms unfolding one_way_def by auto

lemma one_way_hd:
  assumes "one_way r sd vl xs"
  shows "xs = [] \<or> sd (hd xs) \<Longrightarrow> (\<forall>a \<in> set xs. sd a) \<and> (xs = [] \<or> ring_full r)"
    and "xs = [] \<or> \<not> sd (hd xs) \<Longrightarrow> (\<forall>a \<in> set xs. \<not> sd a) \<and> (xs = [] \<or> ring_size r = 0)"
  using assms by (cases xs; auto simp: one_way_def)+

lemma one_way_sender: "one_way r sd vl xs \<Longrightarrow> b \<in> set xs \<Longrightarrow> sd b \<Longrightarrow> vl b \<noteq> None"
  by (auto simp: one_way_def)

lemma hq_of_drop: "hq_of r sd vl dead (dropWhile dead xs) = hq_of r sd vl dead xs"
proof -
  have "filter (\<lambda>a. \<not> dead a \<and> P a) (dropWhile dead xs) = filter (\<lambda>a. \<not> dead a \<and> P a) xs" for P
    by (induction xs) auto
  then show ?thesis by (simp add: hq_of_def)
qed

text \<open>The value of a node that is not queued does not matter.\<close>

lemma hq_of_fresh: "a \<notin> set xs \<Longrightarrow> hq_of r sd (vl(a := v)) dead xs = hq_of r sd vl dead xs"
  by (auto simp: hq_of_def)

lemma one_way_fresh: "a \<notin> set xs \<Longrightarrow> one_way r sd (vl(a := v)) xs = one_way r sd vl xs"
  by (auto simp: one_way_def)

lemma hq_of_inv:
  assumes "ring_inv r" and "one_way r sd vl xs"
  shows "hq_inv (hq_of r sd vl dead xs)"
proof (cases "xs = []")
  case True
  then show ?thesis using assms(1) by (simp add: hq_inv_def hq_of_def ring_inv_def ring_cap_def)
next
  case False
  have b: "ring_size r \<le> ring_cap r" using assms(1) by (simp add: ring_inv_def)
  from assms(2) False show ?thesis
  proof (cases rule: one_way_cases)
    case send
    then show ?thesis using b by (auto simp: hq_inv_def hq_of_def ring_full_def ring_cap_def filter_empty_conv)
  next
    case recv
    then have "ring_list r = []" by (simp flip: length_0_conv)
    with recv b show ?thesis by (auto simp: hq_inv_def hq_of_def filter_empty_conv)
  qed
qed

subsection \<open>Pushing\<close>

lemma hq_push_hand:
  assumes "dropWhile dead xs = a # ys" and "\<not> sd a" and "a \<notin> set ys"
  shows "hq_push v (hq_of r sd vl dead xs) = (Handed a, hq_of r sd (vl(a := Some v)) dead ys)"
proof -
  have "\<not> dead a" using assms(1) by (auto simp: dropWhile_eq_Cons_conv)
  then show ?thesis
    using assms(2) unfolding hq_of_drop [of r sd vl dead xs, symmetric] assms(1) hq_of_fresh [OF assms(3)]
    by (simp add: hq_push_def hq_of_def)
qed

lemma hq_push_refuse:
  assumes "ring_full r" and "one_way r sd vl xs" and "dropWhile dead xs = [] \<or> sd (hd (dropWhile dead xs))"
  shows "hq_push v (hq_of r sd vl dead xs) = (Refused, hq_of r sd vl dead (dropWhile dead xs))"
proof -
  let ?ys = "dropWhile dead xs"
  have "one_way r sd vl ?ys" by (rule one_way_subset [OF assms(2)]) (auto dest: set_dropWhileD)
  then have "\<forall>a \<in> set ?ys. sd a" using one_way_hd(1) assms(3) by blast
  then have "filter (\<lambda>a. \<not> dead a \<and> \<not> sd a) ?ys = []" by (auto simp: filter_empty_conv)
  then show ?thesis
    using assms(1) unfolding hq_of_drop [of r sd vl dead xs, symmetric]
    by (simp add: hq_push_def hq_of_def ring_full_def ring_cap_def)
qed

lemma hq_push_store:
  assumes "ring_inv r" and "\<not> ring_full r" and "one_way r sd vl xs"
    and "dropWhile dead xs = [] \<or> sd (hd (dropWhile dead xs))"
  shows "dropWhile dead xs = []"
    and "hq_push v (hq_of r sd vl dead xs) = (Stored, hq_of (ring_store v r) sd vl dead [])"
proof -
  have "one_way r sd vl (dropWhile dead xs)" by (rule one_way_subset [OF assms(3)]) (auto dest: set_dropWhileD)
  then show e: "dropWhile dead xs = []"
    using one_way_hd(1) assms(2,4) by blast
  have "ring_size r < ring_cap r" using assms(1,2) by (auto simp: ring_full_def ring_cap_def ring_inv_def)
  then show "hq_push v (hq_of r sd vl dead xs) = (Stored, hq_of (ring_store v r) sd vl dead [])"
    using ring_store_inv [OF assms(1,2)] unfolding hq_of_drop [of r sd vl dead xs, symmetric] e
    by (simp add: hq_push_def hq_of_def)
qed

subsection \<open>Popping\<close>

lemma hq_pop_release:
  assumes "ring_inv r" and "one_way r sd vl xs" and "dropWhile dead xs = a # ys" and "sd a"
  obtains v where "vl a = Some v"
    and "ring_fetch r = (None, r) \<and> hq_pop (hq_of r sd vl dead xs) = (Some (v, Some a), hq_of r sd vl dead ys) \<and>
           one_way r sd vl ys \<or>
         (\<exists>x r1. ring_fetch r = (Some x, r1) \<and> ring_inv (ring_store v r1) \<and>
           hq_pop (hq_of r sd vl dead xs) = (Some (x, Some a), hq_of (ring_store v r1) sd vl dead ys) \<and>
           one_way (ring_store v r1) sd vl ys)"
proof -
  have w: "one_way r sd vl (a # ys)"
    by (rule one_way_subset [OF assms(2)]) (use assms(3) in \<open>metis set_dropWhileD subsetI\<close>)
  have full: "ring_full r" and all: "\<And>b. b \<in> set (a # ys) \<Longrightarrow> sd b \<and> vl b \<noteq> None"
    using w assms(4) by (auto elim!: one_way_cases)
  then obtain v where v: "vl a = Some v" by fastforce
  have na: "\<not> dead a" using assms(3) by (auto simp: dropWhile_eq_Cons_conv)
  have d: "hq_of r sd vl dead xs = hq_of r sd vl dead (a # ys)" using hq_of_drop [of r sd vl dead xs] assms(3) by simp
  have oy: "one_way r' sd vl ys" if "ring_full r'" for r' using all that by (auto simp: one_way_def)
  show thesis
  proof (cases "ring_list r")
    case Nil
    have "hq_pop (hq_of r sd vl dead xs) = (Some (v, Some a), hq_of r sd vl dead ys)"
      unfolding d using na assms(4) v Nil by (simp add: hq_pop_def hq_of_def)
    then show thesis using that [OF v] ring_fetch_Nil [OF Nil] oy [OF full] by blast
  next
    case (Cons x us)
    obtain x1 r1 where f: "ring_fetch r = (x1, r1)" by fastforce
    note g = ring_fetch_Cons [OF assms(1) Cons, unfolded f fst_conv snd_conv]
    have cap: "ring_cap r1 = ring_cap r" using ring_cap_fetch [of r] f by simp
    have len: "Suc (length us) = ring_cap r1"
      using full Cons cap by (metis length_Cons ring_cap_def ring_full_def ring_list_length)
    have sz: "ring_size r1 = length us" using g(3) by (metis ring_list_length)
    then have room: "\<not> ring_full r1" using len by (simp add: ring_full_def ring_cap_def)
    note st = ring_store_inv [OF g(2) room, of v]
    have "ring_size (ring_store v r1) = Suc (length us)"
      using st(2) g(3) by (metis length_append_singleton ring_list_length)
    then have "ring_full (ring_store v r1)" using len ring_cap_store [of v r1] by (simp add: ring_full_def ring_cap_def)
    moreover have "hq_pop (hq_of r sd vl dead xs) = (Some (x, Some a), hq_of (ring_store v r1) sd vl dead ys)"
      unfolding d using na assms(4) v Cons st(2) g(3) cap by (simp add: hq_pop_def hq_of_def)
    ultimately show thesis using that [OF v] f g(1) st(1) oy by blast
  qed
qed

lemma hq_pop_plain:
  assumes "ring_inv r" and "one_way r sd vl xs" and "dropWhile dead xs = [] \<or> \<not> sd (hd (dropWhile dead xs))"
  shows "ring_fetch r = (None, r) \<and>
      hq_pop (hq_of r sd vl dead xs) = (None, hq_of r sd vl dead (dropWhile dead xs)) \<or>
    (\<exists>x r1. ring_fetch r = (Some x, r1) \<and> ring_inv r1 \<and> dropWhile dead xs = [] \<and>
      hq_pop (hq_of r sd vl dead xs) = (Some (x, None), hq_of r1 sd vl dead []))"
proof -
  let ?ys = "dropWhile dead xs"
  have w: "one_way r sd vl ?ys" by (rule one_way_subset [OF assms(2)]) (auto dest: set_dropWhileD)
  then have e: "(\<forall>a \<in> set ?ys. \<not> sd a) \<and> (?ys = [] \<or> ring_size r = 0)"
    by (rule one_way_hd(2)) (rule assms(3))
  then have s: "filter (\<lambda>a. \<not> dead a \<and> sd a) ?ys = []" by (auto simp: filter_empty_conv)
  have d: "hq_of r sd vl dead xs = hq_of r sd vl dead ?ys" using hq_of_drop [of r sd vl dead xs] by simp
  show ?thesis
  proof (cases "ring_list r")
    case Nil
    then show ?thesis unfolding d using s ring_fetch_Nil [OF Nil] by (simp add: hq_pop_def hq_of_def)
  next
    case (Cons x us)
    obtain x1 r1 where f: "ring_fetch r = (x1, r1)" by fastforce
    note g = ring_fetch_Cons [OF assms(1) Cons, unfolded f fst_conv snd_conv]
    have "ring_size r \<noteq> 0" using Cons by (metis length_0_conv list.discI ring_list_length)
    then have ye: "?ys = []" using e by argo
    have "ring_cap r1 = ring_cap r" using ring_cap_fetch [of r] f by simp
    then show ?thesis unfolding d ye using g f Cons by (simp add: hq_pop_def hq_of_def)
  qed
qed

end
