(* ===== verification/Mailbox.thy ===== *)
theory Mailbox
  imports Wait_Queue Handoff_Ring
begin

text \<open>
  \<^verbatim>\<open>mailbox<T>\<close> of \<^verbatim>\<open>mailbox.hpp\<close>: the bounded queue shared across loops.  It implements the same
  contract as \<^verbatim>\<open>channel\<close>, with the waiters of \<open>Wait_Queue\<close>: a match does not resume the waiter, it
  sends a message to the waiter's loop.
\<close>

subsection \<open>Definitions\<close>

record 'v mbox = waiting +
  mb_ring :: "'v ring"
  mb_closed :: bool
  mb_sending :: "addr \<Rightarrow> bool"
  mb_value :: "addr \<Rightarrow> 'v option"

definition mailbox_init :: "nat \<Rightarrow> ('v, 'z) mbox_scheme \<Rightarrow> ('v, 'z) mbox_scheme" where
  "mailbox_init capacity w =
     w\<lparr>wq_first := None, wq_last := None, wq_users := 0, mb_ring := ring_init capacity, mb_closed := False\<rparr>"

definition mbox_node :: "loop_id \<Rightarrow> addr \<Rightarrow> bool \<Rightarrow> token_id option \<Rightarrow> 'v option \<Rightarrow> ('v, 'z) mbox_scheme \<Rightarrow> ('v, 'z) mbox_scheme" where
  "mbox_node l a send k v w =
     (remote_init l a k w)\<lparr>mb_sending := (mb_sending w)(a := send), mb_value := (mb_value w)(a := v)\<rparr>"

definition mbox_front :: "bool \<Rightarrow> ('v, 'z) mbox_scheme \<Rightarrow> (ptr \<times> ('v, 'z) mbox_scheme) option" where
  "mbox_front sending w =
     (case remote_front w of
        None \<Rightarrow> None
      | Some (None, w1) \<Rightarrow> Some (None, w1)
      | Some (Some a, w1) \<Rightarrow> Some (if mb_sending w1 a = sending then Some a else None, w1))"

definition mbox_push :: "'v \<Rightarrow> ('v, 'z) mbox_scheme \<Rightarrow> (bool \<times> ('v, 'z) mbox_scheme) option" where
  "mbox_push v w =
     (case mbox_front False w of
        None \<Rightarrow> None
      | Some (Some r, w1) \<Rightarrow> Some (True, remote_deliver None r (w1\<lparr>mb_value := (mb_value w1)(r := Some v)\<rparr>))
      | Some (None, w1) \<Rightarrow>
          if ring_full (mb_ring w1) then Some (False, w1)
          else Some (True, w1\<lparr>mb_ring := ring_store v (mb_ring w1)\<rparr>))"

definition mbox_pop :: "('v, 'z) mbox_scheme \<Rightarrow> ('v option \<times> ('v, 'z) mbox_scheme) option" where
  "mbox_pop w =
     (case ring_fetch (mb_ring w) of (result, r) \<Rightarrow>
        (case mbox_front True (w\<lparr>mb_ring := r\<rparr>) of
           None \<Rightarrow> None
         | Some (None, w1) \<Rightarrow> Some (result, w1)
         | Some (Some s, w1) \<Rightarrow>
             (case result of
                Some x \<Rightarrow>
                  Some (Some x, remote_deliver None s (w1\<lparr>mb_ring := ring_store (the (mb_value w1 s)) (mb_ring w1)\<rparr>))
              | None \<Rightarrow> Some (mb_value w1 s, remote_deliver None s w1))))"

text \<open>\<^verbatim>\<open>node::await_suspend\<close>.\<close>

definition mbox_suspend :: "thread_id \<Rightarrow> addr \<Rightarrow> handle_id \<Rightarrow> ('v, 'z) mbox_scheme \<Rightarrow> (bool, ('v, 'z) mbox_scheme) result option" where
  "mbox_suspend t a h w =
     (case canceled_now t a w of
        (Inl e, w1) \<Rightarrow> Some (Inl e, w1)
      | (Inr True, w1) \<Rightarrow> Some (Inr False, w1)
      | (Inr False, w1) \<Rightarrow>
          if mb_sending w1 a then
            (if mb_closed w1 then Some (Inr False, set_error a (Some Broken_Pipe) w1)
             else case mbox_push (the (mb_value w1 a)) w1 of
                    None \<Rightarrow> None
                  | Some (True, w2) \<Rightarrow> Some (Inr False, w2)
                  | Some (False, w2) \<Rightarrow> Some (remote_enqueue t a h w2))
          else
            (case mbox_pop w1 of
               None \<Rightarrow> None
             | Some (Some x, w2) \<Rightarrow> Some (Inr False, w2\<lparr>mb_value := (mb_value w2)(a := Some x)\<rparr>)
             | Some (None, w2) \<Rightarrow> if mb_closed w2 then Some (Inr False, w2) else Some (remote_enqueue t a h w2)))"

definition mbox_resume :: "addr \<Rightarrow> ('v, 'z) mbox_scheme \<Rightarrow> exn + 'v option" where
  "mbox_resume a w =
     (case op_resume a w of Inl e \<Rightarrow> Inl e | Inr _ \<Rightarrow> Inr (if mb_sending w a then None else mb_value w a))"

definition mbox_try_send :: "'v \<Rightarrow> ('v, 'z) mbox_scheme \<Rightarrow> (bool \<times> ('v, 'z) mbox_scheme) option" where
  "mbox_try_send v w = (if mb_closed w then Some (False, w) else mbox_push v w)"

definition mbox_try_recv :: "('v, 'z) mbox_scheme \<Rightarrow> ('v option \<times> ('v, 'z) mbox_scheme) option" where
  "mbox_try_recv w = mbox_pop w"

partial_function (option) mbox_close_loop :: "('v, 'z) mbox_scheme \<Rightarrow> ('v, 'z) mbox_scheme option" where
  "mbox_close_loop w =
     (case remote_front w of
        None \<Rightarrow> None
      | Some (p, w1) \<Rightarrow>
          (case p of
             None \<Rightarrow> Some w1
           | Some a \<Rightarrow> mbox_close_loop (remote_deliver (if mb_sending w1 a then Some Broken_Pipe else None) a w1)))"

definition mbox_close :: "('v, 'z) mbox_scheme \<Rightarrow> ('v, 'z) mbox_scheme option" where
  "mbox_close w = mbox_close_loop (w\<lparr>mb_closed := True\<rparr>)"

subsection \<open>Frames\<close>

lemma mbox_fields_send [simp]:
  "mb_ring (message_send l a (w :: ('v, 'z) mbox_scheme)) = mb_ring w" "mb_closed (message_send l a w) = mb_closed w"
  "mb_sending (message_send l a w) = mb_sending w" "mb_value (message_send l a w) = mb_value w"
  by (simp_all add: message_send_def loop_wake_def upd_loop_def Let_def split: prod.split)

lemma mbox_fields_deliver [simp]:
  "mb_ring (remote_deliver e a (w :: ('v, 'z) mbox_scheme)) = mb_ring w" "mb_closed (remote_deliver e a w) = mb_closed w"
  "mb_sending (remote_deliver e a w) = mb_sending w" "mb_value (remote_deliver e a w) = mb_value w"
  by (simp_all add: remote_deliver_def set_error_def remote_unlink_def split: prod.split)

lemma mbox_fields_deliver_list [simp]:
  "mb_ring (deliver_list e xs (w :: ('v, 'z) mbox_scheme)) = mb_ring w" "mb_closed (deliver_list e xs w) = mb_closed w"
  "mb_sending (deliver_list e xs w) = mb_sending w" "mb_value (deliver_list e xs w) = mb_value w"
  unfolding deliver_list_def by (induction xs arbitrary: w) auto

lemma mbox_fields_park:
  assumes "wait_park t a h k (w :: ('v, 'z) mbox_scheme) = (r, w')"
  shows "mb_ring w' = mb_ring w" "mb_closed w' = mb_closed w" "mb_sending w' = mb_sending w" "mb_value w' = mb_value w"
  using assms
  by (auto simp: wait_park_def loop_arm_eq armed_def wait_link_def set_error_def upd_loop_def Let_def
      split: prod.splits option.splits sum.splits bool.splits if_splits)

lemma waiting_rep_ring [simp]: "waiting_rep (w\<lparr>mb_ring := r\<rparr>) xs ms = waiting_rep w xs ms"
  by (simp add: waiting_rep_def)

lemma waiting_rep_value [simp]: "waiting_rep (w\<lparr>mb_value := f\<rparr>) xs ms = waiting_rep w xs ms"
  by (simp add: waiting_rep_def)

lemma remote_dead_upd [simp]:
  "remote_dead (w\<lparr>mb_ring := r\<rparr>) = remote_dead w" "remote_dead (w\<lparr>mb_value := f\<rparr>) = remote_dead w"
  by (simp_all add: remote_dead_def fun_eq_iff loop_stopped_def)

subsection \<open>Refinement\<close>

text \<open>A mailbox with waiters \<open>xs\<close> and messages \<open>ms\<close> in flight, and the abstract queue it stands for.\<close>

definition mbox_rep :: "('v, 'z) mbox_scheme \<Rightarrow> addr list \<Rightarrow> (loop_id \<Rightarrow> addr list) \<Rightarrow> bool" where
  "mbox_rep w xs ms \<longleftrightarrow>
     waiting_rep w xs ms \<and> ring_inv (mb_ring w) \<and> one_way (mb_ring w) (mb_sending w) (mb_value w) xs"

lemma mbox_repD:
  assumes "mbox_rep w xs ms"
  shows "waiting_rep w xs ms" "ring_inv (mb_ring w)" "one_way (mb_ring w) (mb_sending w) (mb_value w) xs"
  using assms unfolding mbox_rep_def by auto

definition mbox_abs :: "('v, 'z) mbox_scheme \<Rightarrow> addr list \<Rightarrow> 'v hq" where
  "mbox_abs w xs = hq_of (mb_ring w) (mb_sending w) (mb_value w) (remote_dead w) xs"

abbreviation mbox_pruned :: "('v, 'z) mbox_scheme \<Rightarrow> addr list \<Rightarrow> ('v, 'z) mbox_scheme" where
  "mbox_pruned w xs \<equiv> deliver_list (Some Operation_Canceled) (takeWhile (remote_dead w) xs) w"

lemma mbox_front_eq:
  assumes "waiting_rep w xs ms"
  shows "mbox_front d w = Some (case dropWhile (remote_dead w) xs of
      [] \<Rightarrow> None | a # _ \<Rightarrow> if mb_sending w a = d then Some a else None, mbox_pruned w xs)"
  using remote_front_total [OF assms]
  by (cases "dropWhile (remote_dead w) xs") (simp_all add: mbox_front_def del: dropWhile_eq_Nil_conv)

text \<open>Who is served by \<^verbatim>\<open>push\<close> and \<^verbatim>\<open>pop\<close>: the messages sent, pruned waiters first.\<close>

definition mbox_sent :: "('v, 'z) mbox_scheme \<Rightarrow> addr list \<Rightarrow> addr option \<Rightarrow> (loop_id \<Rightarrow> addr list) \<Rightarrow> (loop_id \<Rightarrow> addr list)" where
  "mbox_sent w xs p ms = mail w (takeWhile (remote_dead w) xs @ (case p of None \<Rightarrow> [] | Some a \<Rightarrow> [a])) ms"

lemma mail_append: "mail w (xs @ ys) ms = mail w ys (mail w xs ms)"
  by (rule ext) (simp add: mail_def)

lemma mail_Nil [simp]: "mail w [] ms = ms"
  by (rule ext) (simp add: mail_def)

text \<open>Serving the first live waiter after pruning.\<close>

lemma mbox_serve:
  assumes "waiting_rep w xs ms" and "dropWhile (remote_dead w) xs = a # ys"
    and "waiting_rep u (a # ys) (mail w (takeWhile (remote_dead w) xs) ms)" and "op_owner u = op_owner w"
  shows "waiting_rep (remote_deliver e a u) ys (mbox_sent w xs (Some a) ms)"
  using waiting_rep_deliver [OF assms(3), of a e] assms(4)
  by (simp add: mbox_sent_def mail_append mail_Cons fun_upd_def)

lemma mbox_push_refines:
  assumes rep: "mbox_rep w xs ms" and q: "hq_push v (mbox_abs w xs) = (r, q')"
  shows "\<exists>w' ys. mbox_push v w = Some (r \<noteq> Refused, w') \<and>
    mbox_rep w' ys (mbox_sent w xs (case r of Handed a \<Rightarrow> Some a | _ \<Rightarrow> None) ms) \<and>
    mbox_abs w' ys = q' \<and> set ys \<subseteq> set xs \<and> op_owner w' = op_owner w \<and> mb_sending w' = mb_sending w \<and>
    mb_closed w' = mb_closed w \<and> remote_dead w' = remote_dead w \<and> op_token w' = op_token w \<and> stop_flag w' = stop_flag w \<and>
    wt_interruptible w' = wt_interruptible w \<and> (\<forall>k. lp_thread (loops w' k) = lp_thread (loops w k)) \<and>
    (\<forall>k. lp_stopping (loops w' k) = lp_stopping (loops w k)) \<and>
    (r = Refused \<longrightarrow> mb_value w' = mb_value w \<and> ring_full (mb_ring w') \<and> (\<forall>a \<in> set ys. mb_sending w a)) \<and>
    (\<forall>a. r = Handed a \<longrightarrow> mb_value w' a = Some v \<and> op_error w' a = None \<and> \<not> mb_sending w' a \<and> a \<in> set xs)"
proof -
  note R = mbox_repD [OF rep]
  let ?ys = "dropWhile (remote_dead w) xs" and ?u = "mbox_pruned w xs"
  have ru: "waiting_rep ?u ?ys (mail w (takeWhile (remote_dead w) xs) ms)" by (rule waiting_rep_front [OF R(1)])
  have sub: "set ?ys \<subseteq> set xs" by (auto dest: set_dropWhileD)
  note way = one_way_subset [OF R(3) sub]
  have q': "hq_push v (hq_of (mb_ring w) (mb_sending w) (mb_value w) (remote_dead w) xs) = (r, q')"
    using q by (simp add: mbox_abs_def)
  show ?thesis
  proof (cases "?ys = [] \<or> mb_sending w (hd ?ys)")
    case none: True
    then have f: "mbox_front False w = Some (None, ?u)"
      using mbox_front_eq [OF R(1), of False] by (cases ?ys) (auto simp del: dropWhile_eq_Nil_conv)
    show ?thesis
    proof (cases "ring_full (mb_ring w)")
      case True
      from hq_push_refuse [OF True R(3) none] q' have "r = Refused" "q' = mbox_abs ?u ?ys"
        by (simp_all add: mbox_abs_def)
      moreover have "\<forall>a \<in> set ?ys. mb_sending w a" using one_way_hd(1) [OF way none] by blast
      moreover have "mbox_push v w = Some (False, ?u)" using f True by (simp add: mbox_push_def)
      moreover have "mbox_rep ?u ?ys (mbox_sent w xs None ms)"
        using ru R(2) way by (simp add: mbox_rep_def mbox_sent_def)
      ultimately show ?thesis using sub True by (intro exI [of _ ?u] exI [of _ ?ys]) simp
    next
      case False
      let ?v = "?u\<lparr>mb_ring := ring_store v (mb_ring ?u)\<rparr>"
      note st = hq_push_store [OF R(2) False R(3) none]
      have "r = Stored" "q' = mbox_abs ?v []" using st(2) [of v] q' by (simp_all add: mbox_abs_def)
      moreover have "mbox_push v w = Some (True, ?v)" using f False by (simp add: mbox_push_def)
      moreover have "mbox_rep ?v [] (mbox_sent w xs None ms)"
        using ru st(1) ring_store_inv [OF R(2) False] by (simp add: mbox_rep_def mbox_sent_def one_way_def)
      ultimately show ?thesis by (intro exI [of _ ?v] exI [of _ "[]"]) simp
    qed
  next
    case False
    then obtain a ys where ys: "?ys = a # ys" and na: "\<not> mb_sending w a" by (cases ?ys) auto
    let ?v = "?u\<lparr>mb_value := (mb_value ?u)(a := Some v)\<rparr>"
    have d: "a \<notin> set ys" using waiting_distinct [OF ru] ys by simp
    have h: "r = Handed a"
      "q' = hq_of (mb_ring w) (mb_sending w) ((mb_value w)(a := Some v)) (remote_dead w) ys"
      using q' unfolding hq_push_hand [of "remote_dead w" xs a ys "mb_sending w", OF ys na d] by simp_all
    have "mbox_push v w = Some (True, remote_deliver None a ?v)"
      using mbox_front_eq [OF R(1), of False] ys na by (simp add: mbox_push_def)
    moreover have "waiting_rep (remote_deliver None a ?v) ys (mbox_sent w xs (Some a) ms)"
      by (rule mbox_serve [OF R(1) ys]) (use ru ys in simp_all)
    then have "mbox_rep (remote_deliver None a ?v) ys (mbox_sent w xs (Some a) ms)"
      using R(2) way na unfolding ys by (simp add: mbox_rep_def one_way_def)
    moreover have "mbox_abs (remote_deliver None a ?v) ys = q'" using h(2) by (simp add: mbox_abs_def)
    moreover have "set ys \<subseteq> set xs" "a \<in> set xs" using sub ys by auto
    ultimately show ?thesis using h(1) na
      by (intro exI [of _ "remote_deliver None a ?v"] exI [of _ ys]) (simp add: fun_eq_iff)
  qed
qed

lemma mbox_pop_refines:
  assumes rep: "mbox_rep w xs ms" and q: "hq_pop (mbox_abs w xs) = (r, q')"
  shows "\<exists>w' ys. mbox_pop w = Some (map_option fst r, w') \<and>
    mbox_rep w' ys (mbox_sent w xs (case r of Some (x, s) \<Rightarrow> s | None \<Rightarrow> None) ms) \<and>
    mbox_abs w' ys = q' \<and> set ys \<subseteq> set xs \<and> op_owner w' = op_owner w \<and> mb_sending w' = mb_sending w \<and>
    mb_closed w' = mb_closed w \<and> remote_dead w' = remote_dead w \<and> op_token w' = op_token w \<and> stop_flag w' = stop_flag w \<and>
    wt_interruptible w' = wt_interruptible w \<and> (\<forall>k. lp_thread (loops w' k) = lp_thread (loops w k)) \<and>
    (\<forall>k. lp_stopping (loops w' k) = lp_stopping (loops w k)) \<and> mb_value w' = mb_value w \<and>
    (r = None \<longrightarrow> ring_size (mb_ring w') = 0 \<and> (\<forall>a \<in> set ys. \<not> mb_sending w a)) \<and>
    (\<forall>x s. r = Some (x, Some s) \<longrightarrow> s \<notin> set ys \<and> op_error w' s = None \<and> s \<in> set xs)"
proof -
  note R = mbox_repD [OF rep]
  let ?D = "remote_dead w"
  let ?ys = "dropWhile ?D xs" and ?ms = "mail w (takeWhile ?D xs) ms"
  obtain x r1 where f: "ring_fetch (mb_ring w) = (x, r1)" by fastforce
  let ?u = "mbox_pruned (w\<lparr>mb_ring := r1\<rparr>) xs"
  have mo: "mail (w\<lparr>mb_ring := r1\<rparr>) = mail w" by (rule mail_owner) simp
  have ru: "waiting_rep ?u ?ys ?ms"
    using waiting_rep_front [of "w\<lparr>mb_ring := r1\<rparr>" xs ms _ ?D] R(1) by (simp add: mo)
  have fe: "mbox_front True (w\<lparr>mb_ring := r1\<rparr>) = Some (case ?ys of
      [] \<Rightarrow> None | a # _ \<Rightarrow> if mb_sending w a then Some a else None, ?u)"
    using mbox_front_eq [of "w\<lparr>mb_ring := r1\<rparr>" xs ms True] R(1) by (simp del: dropWhile_eq_Nil_conv split: list.split)
  have sub: "set ?ys \<subseteq> set xs" by (auto dest: set_dropWhileD)
  note way = one_way_subset [OF R(3) sub]
  have q': "hq_pop (hq_of (mb_ring w) (mb_sending w) (mb_value w) ?D xs) = (r, q')"
    using q by (simp add: mbox_abs_def)
  show ?thesis
  proof (cases "?ys = [] \<or> \<not> mb_sending w (hd ?ys)")
    case none: True
    then have p: "mbox_pop w = Some (x, ?u)"
      using fe f by (cases ?ys) (simp_all add: mbox_pop_def del: dropWhile_eq_Nil_conv)
    from hq_pop_plain [OF R(2) R(3) none] show ?thesis
    proof (elim disjE exE conjE)
      assume e: "ring_fetch (mb_ring w) = (None, mb_ring w)"
        "hq_pop (hq_of (mb_ring w) (mb_sending w) (mb_value w) ?D xs) = (None, hq_of (mb_ring w) (mb_sending w) (mb_value w) ?D ?ys)"
      have z: "ring_size (mb_ring w) = 0" using e(1) ring_fetch_Cons [OF R(2)] by (cases "ring_list (mb_ring w)") (auto simp flip: ring_list_length)
      have "r = None" "q' = mbox_abs ?u ?ys" "x = None" "r1 = mb_ring w" using e q' f by (simp_all add: mbox_abs_def)
      moreover have "\<forall>a \<in> set ?ys. \<not> mb_sending w a" using one_way_hd(2) [OF way none] by blast
      moreover have "mbox_rep ?u ?ys (mbox_sent w xs None ms)"
        using ru R(2) way calculation(4) by (simp add: mbox_rep_def mbox_sent_def)
      ultimately show ?thesis using p sub z by (intro exI [of _ ?u] exI [of _ ?ys]) simp
    next
      fix y r2 assume e: "ring_fetch (mb_ring w) = (Some y, r2)" "ring_inv r2" "?ys = []"
        "hq_pop (hq_of (mb_ring w) (mb_sending w) (mb_value w) ?D xs) = (Some (y, None), hq_of r2 (mb_sending w) (mb_value w) ?D [])"
      have "r = Some (y, None)" "q' = mbox_abs ?u []" "x = Some y" "r1 = r2" using e q' f by (simp_all add: mbox_abs_def)
      moreover have "mbox_rep ?u [] (mbox_sent w xs None ms)"
        using ru e(2) calculation(4) unfolding e(3) by (simp add: mbox_rep_def mbox_sent_def one_way_def)
      ultimately show ?thesis using p by (intro exI [of _ ?u] exI [of _ "[]"]) simp
    qed
  next
    case False
    then obtain a ys where ys: "?ys = a # ys" and sa: "mb_sending w a" by (cases ?ys) auto
    have sub': "set ys \<subseteq> set xs" "a \<in> set xs" "a \<notin> set ys" using sub ys waiting_distinct [OF ru] by auto
    have ms: "mbox_sent (w\<lparr>mb_ring := r1\<rparr>) xs (Some a) ms = mbox_sent w xs (Some a) ms"
      by (simp add: mbox_sent_def mo)
    obtain v where v: "mb_value w a = Some v"
      and c: "ring_fetch (mb_ring w) = (None, mb_ring w) \<and>
          hq_pop (hq_of (mb_ring w) (mb_sending w) (mb_value w) ?D xs) = (Some (v, Some a), hq_of (mb_ring w) (mb_sending w) (mb_value w) ?D ys) \<and>
          one_way (mb_ring w) (mb_sending w) (mb_value w) ys \<or>
        (\<exists>y r2. ring_fetch (mb_ring w) = (Some y, r2) \<and> ring_inv (ring_store v r2) \<and>
          hq_pop (hq_of (mb_ring w) (mb_sending w) (mb_value w) ?D xs) = (Some (y, Some a), hq_of (ring_store v r2) (mb_sending w) (mb_value w) ?D ys) \<and>
          one_way (ring_store v r2) (mb_sending w) (mb_value w) ys)"
      by (rule hq_pop_release [OF R(2) R(3) ys sa])
    from c show ?thesis
    proof (elim disjE exE conjE)
      let ?v = "remote_deliver None a ?u"
      assume e: "ring_fetch (mb_ring w) = (None, mb_ring w)" "one_way (mb_ring w) (mb_sending w) (mb_value w) ys"
        "hq_pop (hq_of (mb_ring w) (mb_sending w) (mb_value w) ?D xs) = (Some (v, Some a), hq_of (mb_ring w) (mb_sending w) (mb_value w) ?D ys)"
      have x: "x = None" "r1 = mb_ring w" using e(1) f by simp_all
      have "waiting_rep ?v ys (mbox_sent w xs (Some a) ms)"
        by (rule mbox_serve [OF R(1) ys]) (use ru ys in simp_all)
      then have "mbox_rep ?v ys (mbox_sent w xs (Some a) ms)" using R(2) e(2) x by (simp add: mbox_rep_def)
      moreover have "r = Some (v, Some a)" "q' = mbox_abs ?v ys" using e(3) q' x by (simp_all add: mbox_abs_def)
      moreover have "mbox_pop w = Some (Some v, ?v)" using fe f x ys sa v by (simp add: mbox_pop_def)
      ultimately show ?thesis using sub' by (intro exI [of _ ?v] exI [of _ ys]) (simp add: fun_eq_iff)
    next
      fix y r2 assume e: "ring_fetch (mb_ring w) = (Some y, r2)" "ring_inv (ring_store v r2)"
        "one_way (ring_store v r2) (mb_sending w) (mb_value w) ys"
        "hq_pop (hq_of (mb_ring w) (mb_sending w) (mb_value w) ?D xs) = (Some (y, Some a), hq_of (ring_store v r2) (mb_sending w) (mb_value w) ?D ys)"
      have x: "x = Some y" "r1 = r2" using e(1) f by simp_all
      let ?s = "?u\<lparr>mb_ring := ring_store v r2\<rparr>"
      let ?v = "remote_deliver None a ?s"
      have "waiting_rep ?v ys (mbox_sent w xs (Some a) ms)"
        by (rule mbox_serve [OF R(1) ys]) (use ru ys in simp_all)
      then have "mbox_rep ?v ys (mbox_sent w xs (Some a) ms)" using e(2,3) by (simp add: mbox_rep_def)
      moreover have "r = Some (y, Some a)" "q' = mbox_abs ?v ys" using e(4) q' by (simp_all add: mbox_abs_def)
      moreover have "mbox_pop w = Some (Some y, ?v)" using fe f x ys sa v by (simp add: mbox_pop_def)
      ultimately show ?thesis using sub' by (intro exI [of _ ?v] exI [of _ ys]) (simp add: fun_eq_iff)
    qed
  qed
qed

subsection \<open>The contract\<close>

definition mbox_view :: "('v, 'z) mbox_scheme \<Rightarrow> 'v hq \<Rightarrow> bool" where
  "mbox_view w q \<longleftrightarrow> (\<exists>xs ms. mbox_rep w xs ms \<and> q = mbox_abs w xs)"

interpretation mb: handoff mbox_view mbox_push mbox_pop
proof
  fix w :: "('v, 'z) mbox_scheme" and q :: "'v hq" and v :: 'v
  assume "mbox_view w q"
  then obtain xs ms where rep: "mbox_rep w xs ms" and q: "q = mbox_abs w xs" unfolding mbox_view_def by blast
  show "hq_inv q" using hq_of_inv mbox_repD(2,3) [OF rep] q unfolding mbox_abs_def by blast
  from mbox_push_refines [OF rep prod.collapse [symmetric], of v] q
  show "\<exists>w'. mbox_push v w = Some (fst (hq_push v q) \<noteq> Refused, w') \<and> mbox_view w' (snd (hq_push v q))"
    unfolding mbox_view_def by metis
  from mbox_pop_refines [OF rep prod.collapse [symmetric]] q
  show "\<exists>w'. mbox_pop w = Some (map_option fst (fst (hq_pop q)), w') \<and> mbox_view w' (snd (hq_pop q))"
    unfolding mbox_view_def by metis
qed

end
