(* ===== verification/Mailbox_Ops.thy ===== *)
theory Mailbox_Ops
  imports Mailbox
begin

text \<open>
  What users of \<^verbatim>\<open>mailbox\<close> see: values cross loops in order, a handed value reaches its receiver
  through the receiver's own loop even when cancellation races with it, a blocked operation waits
  in line, and closing leaves nobody behind.
\<close>

subsection \<open>Order of values\<close>

lemma mbox_init_rep:
  assumes "\<And>a. \<not> rw_linked w a" and "\<And>l. rq_rep (m_next w, lp_messages (loops w l)) (ms l)"
    and "\<And>l k. l \<noteq> k \<Longrightarrow> set (ms l) \<inter> set (ms k) = {}"
  shows "mbox_rep (mailbox_init cap w) [] ms"
proof -
  have "waiting_rep (mailbox_init cap w) [] ms"
    using assms unfolding waiting_rep_def mailbox_init_def by (simp add: dll_ends_def)
  then show ?thesis by (simp add: mbox_rep_def mailbox_init_def one_way_def ring_inv_init)
qed

definition mbox_zero :: "nat mbox" where
  "mbox_zero =
     \<lparr>loops = loops world_init, current_loop = current_loop world_init, clock_now = 0, stop_flag = \<lambda>k. False,
      stop_cbs = \<lambda>k. [], r_next = \<lambda>a. None, m_next = \<lambda>a. None, op_handle = \<lambda>a. a, op_owner = \<lambda>a. 0,
      op_error = \<lambda>a. None, op_canceled = \<lambda>a. False, op_active = \<lambda>a. False, op_callback = \<lambda>a. None,
      op_token = \<lambda>a. None, tm_due = \<lambda>a. 0, wt_next = \<lambda>a. None, wt_prev = \<lambda>a. None,
      wt_interruptible = \<lambda>a. True, wt_hook = \<lambda>a. True, io_next = \<lambda>a. None, io_prev = \<lambda>a. None,
      io_code = \<lambda>a. Op_Nop, io_size = \<lambda>a. 0, io_cancel_sent = \<lambda>a. False, io_hook = \<lambda>a. False,
      io_busy = \<lambda>a. None, io_reserved = \<lambda>a. False, busy_slot = \<lambda>s. False,
      wq_first = None, wq_last = None, wq_users = 0, rw_before = \<lambda>a. None, rw_after = \<lambda>a. None,
      rw_linked = \<lambda>a. False, mb_ring = ring_init 2, mb_closed = False, mb_sending = \<lambda>a. False, mb_value = \<lambda>a. None\<rparr>"

lemma mbox_zero_rep: "mbox_rep mbox_zero [] (\<lambda>l. [])"
proof -
  have "mbox_zero = mailbox_init 2 mbox_zero" by (simp add: mailbox_init_def mbox_zero_def)
  moreover have "mbox_rep (mailbox_init 2 mbox_zero) [] (\<lambda>l. [])"
    by (rule mbox_init_rep) (simp_all add: mbox_zero_def world_init_def loop_init_def rq_rep_init)
  ultimately show ?thesis by simp
qed

text \<open>C30: any sequence of nonblocking sends and receives on a new mailbox ends, and the values come out
  in the order they went in: what was received, followed by what is still queued, is exactly
  what was accepted.\<close>

theorem mailbox_fifo:
  assumes "\<And>a. \<not> rw_linked w a" and "\<And>l. rq_rep (m_next w, lp_messages (loops w l)) (ms l)"
    and "\<And>l k. l \<noteq> k \<Longrightarrow> set (ms l) \<inter> set (ms k) = {}"
  shows "\<exists>ins outs w' xs' ms'. mb.run cs (mailbox_init cap w) = Some (ins, outs, w') \<and> mbox_rep w' xs' ms' \<and>
    outs @ hq_contents (mbox_abs w' xs') = ins"
proof -
  let ?w = "mailbox_init cap w"
  have rep: "mbox_rep ?w [] ms" by (rule mbox_init_rep) (use assms in auto)
  then have v: "mbox_view ?w (mbox_abs ?w [])" unfolding mbox_view_def by blast
  have e: "hq_rcvs (mbox_abs ?w []) = []" "hq_contents (mbox_abs ?w []) = []"
    by (simp_all add: mbox_abs_def hq_of_def hq_contents_def mailbox_init_def)
  from mb.run_fifo [OF v e(1), of cs] e(2) obtain ins outs w' q' where
    "mb.run cs ?w = Some (ins, outs, w')" "mbox_view w' q'" "outs @ hq_contents q' = ins" by auto
  then show ?thesis unfolding mbox_view_def by blast
qed

theorem mailbox_fifo_witness:
  "\<exists>ins outs w' xs' ms'. mb.run [Inl 7, Inl 8, Inl 9, Inr (), Inl 10] (mailbox_init 2 mbox_zero) = Some (ins, outs, w') \<and>
    mbox_rep w' xs' ms' \<and> outs @ hq_contents (mbox_abs w' xs') = ins"
  by (rule mailbox_fifo [where ms = "\<lambda>l. []"]) (simp_all add: mbox_zero_def world_init_def loop_init_def rq_rep_init)

subsection \<open>Handing a value to another loop\<close>

lemma remote_interrupt_delivered [simp]: "\<not> rw_linked w a \<Longrightarrow> (remote_interrupt a ^^ n) w = w"
  by (induction n) (simp_all add: remote_interrupt_def)

lemma take_messages_rep_loop:
  assumes "loop_rep w l A rs ts ws ns"
  shows "loop_rep (snd (take_messages n l q w)) l A rs ts ws ns"
  using assms
proof (induction n arbitrary: q w)
  case 0
  then show ?case by simp
next
  case (Suc n)
  have "loop_rep (w\<lparr>m_next := f, loops := (loops w)(l := (loops w l)\<lparr>lp_messages := q\<rparr>)\<rparr>) l A rs ts ws ns" for f q
    by (rule loop_rep_cong [OF Suc.prems]) auto
  then show ?case using Suc by (auto simp: upd_loop_def split: prod.splits option.splits)
qed

lemma take_messages_fields:
  "op_error (snd (take_messages n l q w)) = op_error w"
  "mb_value (snd (take_messages n l q (u :: ('v, 'z) mbox_scheme))) = mb_value u"
  "mb_sending (snd (take_messages n l q u)) = mb_sending u"
proof -
  show "op_error (snd (take_messages n l q w)) = op_error w"
    by (induction n arbitrary: q w) (auto simp: upd_loop_def split: prod.splits option.splits)
  show "mb_value (snd (take_messages n l q u)) = mb_value u"
    by (induction n arbitrary: q u) (auto simp: upd_loop_def split: prod.splits option.splits)
  show "mb_sending (snd (take_messages n l q u)) = mb_sending u"
    by (induction n arbitrary: q u) (auto simp: upd_loop_def split: prod.splits option.splits)
qed

lemma mbox_fields_notify [simp]:
  "mb_value (wait_notify a (w :: ('v, 'z) mbox_scheme)) = mb_value w" "mb_sending (wait_notify a w) = mb_sending w"
  "mb_ring (wait_notify a w) = mb_ring w" "mb_closed (wait_notify a w) = mb_closed w"
  by (simp_all add: wait_notify_def wait_unlink_def loop_finish_def callback_reset_def ready_push_def
      upd_loop_def Let_def split: prod.split option.split)

lemma mbox_fields_run [simp]:
  "mb_value (deliver_all remote_run xs (w :: ('v, 'z) mbox_scheme)) = mb_value w"
  "mb_sending (deliver_all remote_run xs w) = mb_sending w"
  unfolding deliver_all_def remote_run_def by (induction xs arbitrary: w) auto

text \<open>The turn of a loop that has the messages \<open>xs\<close>, all to waiters parked on it.\<close>

lemma message_turn_ready:
  assumes rep: "loop_rep w l {} rs ts ws ns" and q: "rq_rep (m_next w, lp_messages (loops w l)) xs"
    and ws: "set xs \<subseteq> set ws" and n: "length xs \<le> n"
  obtains q w1 where "take_messages n l rq_init w = (q, w1)"
    and "run_messages remote_run q w1 = Some (deliver_all remote_run xs w1)"
    and "loop_rep (deliver_all remote_run xs w1) l {} (rs @ xs) ts (filter (\<lambda>a. a \<notin> set xs) ws) ns"
proof -
  from take_messages_rep [OF q rq_rep_init, of n] n obtain q1 w1 where
    t: "take_messages n l rq_init w = (q1, w1)" "rq_rep (m_next w1, q1) xs" by auto
  have "loop_rep w1 l {} rs ts ws ns" using take_messages_rep_loop [OF rep, of n rq_init] t(1) by simp
  from deliver_all_ready [OF this rq_rep_distinct [OF q] ws] that [OF t(1) run_messages_all [OF t(2) remote_run_ok]]
  show thesis by blast
qed

text \<open>C15: a value pushed into a mailbox while a receiver of another loop waits is handed to the oldest
  live receiver; cancellation hooks that run before the delivery do not take it back; and the
  receiver's own loop makes it ready in its next turn, behind what was ready and earlier
  messages, to resume with the value and no error.\<close>

theorem mailbox_handoff:
  assumes rep: "mbox_rep w xs ms" and loop: "loop_rep w l {} rs ts ws ns"
    and first: "dropWhile (remote_dead w) xs = a # ys" "\<not> mb_sending w a" "op_owner w a = l"
    and parked: "set (ms l) \<union> {b \<in> set xs. op_owner w b = l} \<subseteq> set ws"
    and budget: "length (ms l) + length xs \<le> n"
  shows "\<exists>w1 q w2 w3 ps. mbox_push v w = Some (True, w1) \<and> (\<forall>k. (remote_interrupt a ^^ k) w1 = w1) \<and>
    take_messages n l rq_init w1 = (q, w2) \<and> run_messages remote_run q w2 = Some w3 \<and>
    ps = ms l @ filter (\<lambda>b. op_owner w b = l) (takeWhile (remote_dead w) xs) @ [a] \<and>
    loop_rep w3 l {} (rs @ ps) ts (filter (\<lambda>b. b \<notin> set ps) ws) ns \<and> mbox_resume a w3 = Inr (Some v)"
proof -
  note R = mbox_repD [OF rep]
  have d: "distinct (a # ys)" using waiting_distinct [OF R(1)] first(1) by (metis distinct_dropWhile)
  let ?u = "mbox_pruned w xs"
  let ?v = "?u\<lparr>mb_value := (mb_value ?u)(a := Some v)\<rparr>" and ?T = "takeWhile (remote_dead w) xs"
  let ?w = "remote_deliver None a ?v" and ?ps = "ms l @ filter (\<lambda>b. op_owner w b = l) ?T @ [a]"
  have p: "mbox_push v w = Some (True, ?w)" using mbox_front_eq [OF R(1), of False] first by (simp add: mbox_push_def)
  have wr: "waiting_rep ?w ys (mbox_sent w xs (Some a) ms)"
    by (rule mbox_serve [OF R(1) first(1)]) (use waiting_rep_front [OF R(1)] first(1) in \<open>simp_all del: takeWhile_dropWhile_id, metis\<close>)
  have q: "rq_rep (m_next ?w, lp_messages (loops ?w l)) ?ps"
    using waiting_repD(3) [OF wr, of l] first(3) by (simp add: mbox_sent_def mail_def)
  have lv: "loop_rep ?v l {} rs ts ws ns" by (rule loop_rep_cong [OF rep_deliver_list [OF loop, of _ ?T]]) auto
  then have lw: "loop_rep ?w l {} rs ts ws ns" by (rule rep_remote_deliver)
  have split: "xs = ?T @ a # ys" using first(1) by (metis takeWhile_dropWhile_id)
  have ax: "a \<in> set xs" using split by (metis in_set_conv_decomp)
  have "set ?ps \<subseteq> set (ms l) \<union> {b \<in> set xs. op_owner w b = l}"
    using ax first(3) by (auto dest: set_takeWhileD)
  then have sub: "set ?ps \<subseteq> set ws" using parked by blast
  have "length (filter (\<lambda>b. op_owner w b = l) ?T) + 1 \<le> length xs"
  proof -
    have "length xs = length ?T + Suc (length ys)" using arg_cong [OF split, of length] by simp
    with length_filter_le [of "\<lambda>b. op_owner w b = l" ?T] show ?thesis by linarith
  qed
  then have len: "length ?ps \<le> n" using budget by simp
  obtain q w2 where t: "take_messages n l rq_init ?w = (q, w2)"
    "run_messages remote_run q w2 = Some (deliver_all remote_run ?ps w2)"
    "loop_rep (deliver_all remote_run ?ps w2) l {} (rs @ ?ps) ts (filter (\<lambda>b. b \<notin> set ?ps) ws) ns"
    by (rule message_turn_ready [OF lw q sub len])
  have "op_error w2 a = None" "mb_value w2 a = Some v" "mb_sending w2 a = False"
    using take_messages_fields [of n l rq_init ?w] take_messages_fields(1) [of n l rq_init ?w] t(1) first(2) by simp_all
  then have "mbox_resume a (deliver_all remote_run ?ps w2) = Inr (Some v)"
    by (simp add: mbox_resume_def op_resume_def)
  moreover have "(remote_interrupt a ^^ k) ?w = ?w" for k by (rule remote_interrupt_delivered) simp
  ultimately show ?thesis using p t
    by (intro exI [of _ ?w] exI [of _ q] exI [of _ w2] exI [of _ "deliver_all remote_run ?ps w2"] exI [of _ ?ps]) simp
qed

text \<open>Receiver 5 of loop 1 waits in an empty mailbox; loop 0 sends.\<close>

definition mbox_waiting :: "nat mbox" where
  "mbox_waiting = mbox_zero
     \<lparr>loops := (loops mbox_zero)(1 := (loop_init 1)\<lparr>lp_waits := Some 5\<rparr>), op_owner := (\<lambda>a. 0)(5 := 1),
      op_active := (\<lambda>a. False)(5 := True), wq_first := Some 5, wq_last := Some 5, rw_linked := (\<lambda>a. False)(5 := True)\<rparr>"

lemmas mbox_simps = mbox_waiting_def mbox_zero_def world_init_def loop_init_def rq_init_def

lemma mbox_waiting_rep: "mbox_rep mbox_waiting [5] (\<lambda>l. [])" "loop_rep mbox_waiting 1 {} [] [] [5] []"
  by (auto simp: mbox_simps mbox_rep_def waiting_rep_def loop_rep_def rq_rep_def dll_def dll_ends_def is_heap_def
      one_way_def ring_inv_init ring_init_def ring_inv_def ring_cap_def)

theorem mailbox_handoff_witness:
  "\<exists>w1 q w2 w3. mbox_push 42 mbox_waiting = Some (True, w1) \<and> take_messages 64 1 rq_init w1 = (q, w2) \<and>
    run_messages remote_run q w2 = Some w3 \<and> loop_rep w3 1 {} [5] [] [] [] \<and> mbox_resume 5 w3 = Inr (Some 42)"
proof -
  have f: "\<not> remote_dead mbox_waiting 5" "\<not> mb_sending mbox_waiting 5" "op_owner mbox_waiting 5 = 1"
    by (simp_all add: mbox_simps remote_dead_def loop_stopped_def)
  have d: "dropWhile (remote_dead mbox_waiting) [5] = [5]" using f(1) by simp
  have s: "set [] \<union> {b \<in> set [5]. op_owner mbox_waiting b = 1} \<subseteq> set [5]" by auto
  from mailbox_handoff [OF mbox_waiting_rep d f(2,3) s, of 64 42] f(1) show ?thesis by auto
qed

subsection \<open>Blocking operations\<close>

text \<open>A node before its first await: no queue or list refers to it.\<close>

definition remote_fresh :: "'z waiting_scheme \<Rightarrow> (loop_id \<Rightarrow> addr list) \<Rightarrow> addr \<Rightarrow> bool" where
  "remote_fresh w ms a \<longleftrightarrow> rw_after w a = None \<and> \<not> rw_linked w a \<and> m_next w a = None \<and> (\<forall>l. a \<notin> set (ms l))"

lemma remote_link_rep:
  assumes "waiting_rep w xs ms" and "remote_fresh w ms a"
  shows "waiting_rep (remote_link a w) (xs @ [a]) ms"
proof -
  note r = waiting_repD [OF assms(1)]
  have f: "rw_after w a = None" "a \<notin> set xs" "m_next w a = None" "\<And>l. a \<notin> set (ms l)"
    using assms(2) r(2) by (auto simp: remote_fresh_def)
  have "dll_ends ((rw_after (remote_link a w), rw_before (remote_link a w)), wq_first (remote_link a w), wq_last (remote_link a w)) (xs @ [a])"
    using dll_push_back [OF r(1) f(2,1)] by (auto simp: remote_link_def split: prod.splits)
  moreover have "m_next (remote_link a w) = m_next w" "loops (remote_link a w) = loops w"
    "rw_linked (remote_link a w) = (rw_linked w)(a := True)" by (simp_all add: remote_link_def split: prod.split)
  ultimately show ?thesis unfolding waiting_rep_def using r f by auto
qed

lemma remote_enqueue_parks:
  assumes rep: "waiting_rep w xs ms" and fresh: "remote_fresh w ms a" and t: "loop_check t (op_owner w a) w"
    and ok: "wt_interruptible w a \<longrightarrow> \<not> refused (op_owner w a) (op_token w a) w"
  obtains w' where "remote_enqueue t a h w = (Inr True, w')" and "waiting_rep w' (xs @ [a]) ms"
    and "remote_dead w' = remote_dead w" and "op_error w' = op_error w"
    and "op_active w' = (op_active w)(a := True)" and "op_handle w' a = h"
proof -
  let ?w1 = "if wt_interruptible w a then armed a (op_token w a) w else w"
  let ?w2 = "?w1\<lparr>op_active := (op_active ?w1)(a := True), op_handle := (op_handle ?w1)(a := h)\<rparr>"
  let ?w3 = "wait_link a ?w2"
  have p: "wait_park t a h (op_token w a) w = (Inr True, ?w3)"
    using t ok by (simp add: wait_park_def Let_def loop_arm_eq)
  have f: "rw_after ?w3 = rw_after w" "rw_before ?w3 = rw_before w" "wq_first ?w3 = wq_first w" "wq_last ?w3 = wq_last w"
    "rw_linked ?w3 = rw_linked w" "m_next ?w3 = m_next w" "lp_messages (loops ?w3 l) = lp_messages (loops w l)" for l
    by (auto simp: wait_link_def armed_def upd_loop_def split: prod.split option.split)
  have rep3: "waiting_rep ?w3 xs ms" by (rule waiting_rep_cong [OF rep f])
  have fr3: "remote_fresh ?w3 ms a" using fresh f by (simp add: remote_fresh_def)
  show thesis
  proof (rule that)
    show "remote_enqueue t a h w = (Inr True, remote_link a ?w3)" using p by (simp add: remote_enqueue_def)
    show "waiting_rep (remote_link a ?w3) (xs @ [a]) ms" by (rule remote_link_rep [OF rep3 fr3])
    show "remote_dead (remote_link a ?w3) = remote_dead w"
      by (auto simp: remote_dead_def fun_eq_iff loop_stopped_def remote_link_def wait_link_def upd_loop_def split: prod.split)
    show "op_error (remote_link a ?w3) = op_error w" "op_active (remote_link a ?w3) = (op_active w)(a := True)"
      "op_handle (remote_link a ?w3) a = h"
      by (auto simp: remote_link_def wait_link_def upd_loop_def fun_eq_iff split: prod.split)
  qed
qed

text \<open>A node of its own loop's thread that may still park.\<close>

definition mbox_ready :: "thread_id \<Rightarrow> addr \<Rightarrow> ('v, 'z) mbox_scheme \<Rightarrow> (loop_id \<Rightarrow> addr list) \<Rightarrow> bool" where
  "mbox_ready t a w ms \<longleftrightarrow> loop_check t (op_owner w a) w \<and> \<not> refused (op_owner w a) (op_token w a) w \<and>
     remote_fresh w ms a \<and> \<not> op_canceled w a"

lemma mbox_fields_link [simp]:
  "mb_ring (remote_link a (w :: ('v, 'z) mbox_scheme)) = mb_ring w" "mb_sending (remote_link a w) = mb_sending w"
  "mb_value (remote_link a w) = mb_value w" "mb_closed (remote_link a w) = mb_closed w"
  by (simp_all add: remote_link_def split: prod.split)

lemma mbox_fields_enqueue:
  assumes "remote_enqueue t a h (w :: ('v, 'z) mbox_scheme) = (r, w')"
  shows "mb_ring w' = mb_ring w" "mb_sending w' = mb_sending w" "mb_value w' = mb_value w" "mb_closed w' = mb_closed w"
  using assms mbox_fields_park [of t a h "op_token w a" w]
  by (auto simp: remote_enqueue_def split: prod.splits sum.splits bool.splits)

lemma fresh_mail:
  "remote_fresh w ms a \<Longrightarrow> a \<notin> set xs \<Longrightarrow> a \<notin> set (mail w xs ms l)"
  by (simp add: remote_fresh_def mail_def)

text \<open>A node that no queue holds stays unlinked while others are served.\<close>

lemma deliver_fresh_frame:
  assumes "waiting_rep w xs ms" and "b \<in> set xs" and "a \<notin> set xs" and "\<And>l. a \<notin> set (ms l)"
  shows "rw_after (remote_deliver e b w) a = rw_after w a" "m_next (remote_deliver e b w) a = m_next w a"
proof -
  note r = waiting_repD [OF assms(1)]
  obtain nx pv f e' where u: "dl_unlink_ends b ((rw_after w, rw_before w), wq_first w, wq_last w) = ((nx, pv), f, e')"
    by (metis prod.exhaust)
  have "nx a = rw_after w a" using dl_unlink_ends_frame [OF u r(1) assms(2,3)] by simp
  then show "rw_after (remote_deliver e b w) a = rw_after w a"
    using u by (simp add: remote_deliver_def remote_unlink_def)
  let ?u = "set_error b e (remote_unlink b w)"
  have "m_next (message_send (op_owner w b) b ?u) a = m_next ?u a"
    by (rule message_send_queue(2) [of _ ms]) (use r assms in \<open>auto simp: set_error_def\<close>)
  then show "m_next (remote_deliver e b w) a = m_next w a" by (simp add: remote_deliver_def set_error_def)
qed

lemma deliver_list_fresh_frame:
  assumes "waiting_rep w (ys @ zs) ms" and "a \<notin> set (ys @ zs)" and "\<And>l. a \<notin> set (ms l)"
  shows "rw_after (deliver_list e ys w) a = rw_after w a \<and> m_next (deliver_list e ys w) a = m_next w a \<and>
    rw_linked (deliver_list e ys w) a = rw_linked w a"
  using assms
proof (induction ys arbitrary: w ms)
  case Nil
  then show ?case by (simp add: deliver_list_def)
next
  case (Cons b ys)
  let ?v = "remote_deliver e b w" and ?ms = "ms(op_owner w b := ms (op_owner w b) @ [b])"
  have "waiting_rep ?v (ys @ zs) ?ms" using waiting_rep_deliver [OF Cons.prems(1), of b e] by simp
  moreover have "a \<notin> set (?ms l)" for l using Cons.prems by auto
  ultimately have "rw_after (deliver_list e ys ?v) a = rw_after ?v a \<and> m_next (deliver_list e ys ?v) a = m_next ?v a \<and>
    rw_linked (deliver_list e ys ?v) a = rw_linked ?v a" using Cons.prems(2) by (intro Cons.IH) auto
  moreover have "rw_after ?v a = rw_after w a" "m_next ?v a = m_next w a"
    by (rule deliver_fresh_frame [OF Cons.prems(1)]; use Cons.prems in auto)+
  ultimately show ?case using Cons.prems(2) by (simp add: deliver_list_def)
qed

text \<open>What a blocked operation finds: the canceled waiters at the head are gone, nothing else changed.\<close>

lemma mbox_push_blocked:
  assumes "waiting_rep w xs ms" and "mbox_push v w = Some (False, w')"
  shows "w' = mbox_pruned w xs"
  using assms(2) mbox_front_eq [OF assms(1), of False]
  by (auto simp: mbox_push_def split: option.splits list.splits if_splits)

lemma mbox_pop_blocked:
  assumes rep: "mbox_rep w xs ms" and "hq_pop (mbox_abs w xs) = (None, q')"
  shows "mbox_pop w = Some (None, mbox_pruned w xs)"
proof -
  note R = mbox_repD [OF rep]
  let ?ys = "dropWhile (remote_dead w) xs"
  have e: "ring_list (mb_ring w) = []" "hq_snds (mbox_abs w xs) = []"
    using assms(2) by (auto simp: hq_pop_def mbox_abs_def hq_of_def split: list.splits)
  have f: "ring_fetch (mb_ring w) = (None, mb_ring w)" by (rule ring_fetch_Nil [OF e(1)])
  have "\<not> mb_sending w a" if "?ys = a # zs" for a zs
  proof -
    have "\<not> remote_dead w a" "a \<in> set xs" using that by (auto simp: dropWhile_eq_Cons_conv) (metis in_set_conv_decomp)
    then show ?thesis using e(2) by (auto simp: mbox_abs_def hq_of_def filter_empty_conv)
  qed
  then have "mbox_front True w = Some (None, mbox_pruned w xs)"
    using mbox_front_eq [OF R(1), of True] by (cases ?ys) (auto simp del: dropWhile_eq_Nil_conv)
  then show ?thesis using f by (simp add: mbox_pop_def)
qed

text \<open>Parking behind the waiters that are left.\<close>

lemma mbox_park:
  assumes rep: "mbox_rep w xs ms" and ok: "mbox_ready t a w ms"
  obtains w' where "remote_enqueue t a h (mbox_pruned w xs) = (Inr True, w')"
    and "waiting_rep w' (dropWhile (remote_dead w) xs @ [a]) (mail w (takeWhile (remote_dead w) xs) ms)"
    and "remote_dead w' = remote_dead w" and "op_active w' a" and "op_handle w' a = h" and "op_error w' a = op_error w a"
    and "mb_ring w' = mb_ring w" and "mb_sending w' = mb_sending w" and "mb_value w' = mb_value w"
    and "\<not> remote_dead w a"
proof -
  note R = mbox_repD [OF rep]
  let ?u = "mbox_pruned w xs" and ?T = "takeWhile (remote_dead w) xs"
  have f: "remote_fresh w ms a" "loop_check t (op_owner w a) w" "\<not> refused (op_owner w a) (op_token w a) w" "\<not> op_canceled w a"
    using ok by (auto simp: mbox_ready_def)
  have ax: "a \<notin> set xs" using f(1) waiting_repD(2) [OF R(1)] by (auto simp: remote_fresh_def)
  have "rw_after ?u a = rw_after w a \<and> m_next ?u a = m_next w a \<and> rw_linked ?u a = rw_linked w a"
    by (rule deliver_list_fresh_frame [of w ?T "dropWhile (remote_dead w) xs" ms])
      (use R(1) ax f(1) in \<open>auto simp: remote_fresh_def\<close>)
  moreover have aT: "a \<notin> set ?T" using ax by (auto dest: set_takeWhileD)
  ultimately have fr: "remote_fresh ?u (mail w ?T ms) a" using f(1) by (simp add: remote_fresh_def mail_def)
  have ch: "loop_check t (op_owner ?u a) ?u" "\<not> refused (op_owner ?u a) (op_token ?u a) ?u"
    using f(2,3) by (cases "op_token w a"; simp add: loop_check_def stop_requested_def)+
  obtain w' where w': "remote_enqueue t a h ?u = (Inr True, w')"
    "waiting_rep w' (dropWhile (remote_dead w) xs @ [a]) (mail w ?T ms)" "remote_dead w' = remote_dead ?u"
    "op_error w' = op_error ?u" "op_active w' = (op_active ?u)(a := True)" "op_handle w' a = h"
    by (rule remote_enqueue_parks [OF waiting_rep_front [OF R(1)] fr ch(1)]) (use ch(2) in auto)
  show thesis
    by (rule that [OF w'(1,2)]) (use w' mbox_fields_enqueue [OF w'(1)] f aT in \<open>auto simp: remote_dead_def\<close>)
qed

text \<open>C31: a send on an open mailbox implements the abstract one: it completes at once when a receiver
  takes the value or the buffer has room; otherwise it parks its coroutine on its own loop, and
  its value is the last to be received.  A receiver that takes the value is sent exactly one message, to
  its own loop and behind those in flight (only canceled waiters before it in the queue are sent one
  too), and its \<^verbatim>\<open>await_resume\<close> returns that value.\<close>

theorem mailbox_send:
  assumes rep: "mbox_rep w xs ms" and ok: "mbox_ready t a w ms" and op: "mb_sending w a" "mb_value w a = Some v"
    and "\<not> mb_closed w" and q: "hq_push v (mbox_abs w xs) = (r, q')"
  shows "\<exists>w' ys. mbox_suspend t a h w = Some (Inr (r = Refused), w') \<and>
    mbox_rep w' ys (mbox_sent w xs (case r of Handed b \<Rightarrow> Some b | _ \<Rightarrow> None) ms) \<and>
    mbox_abs w' ys = (if r = Refused then hq_block_send a v q' else q') \<and>
    (r = Refused \<longrightarrow> op_active w' a \<and> op_handle w' a = h \<and> last_opt ys = Some a \<and> op_error w' a = op_error w a) \<and>
    (\<forall>b. r = Handed b \<longrightarrow> mb_value w' b = Some v \<and> mbox_resume b w' = Inr (Some v))"
proof -
  note R = mbox_repD [OF rep]
  have c: "canceled_now t a w = (Inr False, w)" using ok by (simp add: canceled_now_def mbox_ready_def)
  obtain u ys where u: "mbox_push v w = Some (r \<noteq> Refused, u)" "mbox_abs u ys = q'"
    "mbox_rep u ys (mbox_sent w xs (case r of Handed a \<Rightarrow> Some a | _ \<Rightarrow> None) ms)"
    "r = Refused \<longrightarrow> ring_full (mb_ring u) \<and> (\<forall>a \<in> set ys. mb_sending w a)"
    "\<forall>b. r = Handed b \<longrightarrow> mb_value u b = Some v \<and> op_error u b = None \<and> \<not> mb_sending u b"
    using mbox_push_refines [OF rep q] by blast
  show ?thesis
  proof (cases "r = Refused")
    case False
    then have "mbox_suspend t a h w = Some (Inr (r = Refused), u)" using u(1) c op assms(5) by (simp add: mbox_suspend_def)
    moreover have "mbox_resume b u = Inr (Some v)" if "r = Handed b" for b
      using that u(5) by (simp add: mbox_resume_def op_resume_def)
    ultimately show ?thesis using u(2,3,5) False by (intro exI [of _ u] exI [of _ ys]) simp
  next
    case True
    let ?ys = "dropWhile (remote_dead w) xs"
    have uw: "u = mbox_pruned w xs" using mbox_push_blocked [OF R(1)] u(1) True by simp
    have ye: "ys = ?ys" using waiting_repD(1) [OF mbox_repD(1) [OF u(3)]] waiting_repD(1) [OF waiting_rep_front [OF R(1)]]
      unfolding uw by (rule dll_ends_unique)
    obtain w' where w': "remote_enqueue t a h (mbox_pruned w xs) = (Inr True, w')"
      "waiting_rep w' (?ys @ [a]) (mail w (takeWhile (remote_dead w) xs) ms)"
      "remote_dead w' = remote_dead w" "op_active w' a" "op_handle w' a = h" "op_error w' a = op_error w a"
      "mb_ring w' = mb_ring w" "mb_sending w' = mb_sending w" "mb_value w' = mb_value w" "\<not> remote_dead w a"
      by (rule mbox_park [OF rep ok, of h])
    have "mb_value w b \<noteq> None" if "b \<in> set ?ys" for b
      using that one_way_sender [OF mbox_repD(3) [OF u(3)], of b] u(4) True unfolding uw ye by simp
    then have "one_way (mb_ring w) (mb_sending w) (mb_value w) (?ys @ [a])"
      using u(4) True op unfolding uw ye by (auto simp: one_way_def)
    then have "mbox_rep w' (?ys @ [a]) (mbox_sent w xs None ms)"
      using w' R(2) by (simp add: mbox_rep_def mbox_sent_def)
    moreover have "mbox_abs w' (?ys @ [a]) = hq_block_send a v q'"
      using u(2) w' op unfolding uw ye by (auto simp: mbox_abs_def hq_of_def hq_block_send_def)
    moreover have "mbox_suspend t a h w = Some (Inr True, w')"
      using u(1) c assms(5) op w'(1) True uw by (simp add: mbox_suspend_def)
    ultimately show ?thesis using w' True by auto
  qed
qed

text \<open>C32: a receive implements the abstract one: the oldest value is taken at once, releasing the oldest
  blocked sender; an empty closed mailbox ends the receive without a value; otherwise the
  receive parks its coroutine behind the receivers already waiting.  The released sender has left the
  queue, has no error and is sent exactly one message, to its own loop.\<close>

theorem mailbox_recv:
  assumes rep: "mbox_rep w xs ms" and ok: "mbox_ready t a w ms" and op: "\<not> mb_sending w a" "mb_value w a = None"
    and q: "hq_pop (mbox_abs w xs) = (r, q')"
  shows "\<exists>w' ys. mbox_suspend t a h w = Some (Inr (r = None \<and> \<not> mb_closed w), w') \<and>
    mbox_rep w' ys (mbox_sent w xs (case r of Some (x, s) \<Rightarrow> s | None \<Rightarrow> None) ms) \<and>
    mbox_abs w' ys = (if r = None \<and> \<not> mb_closed w then hq_block_recv a q' else q') \<and>
    mb_value w' a = map_option fst r \<and>
    (r = None \<and> \<not> mb_closed w \<longrightarrow> op_active w' a \<and> op_handle w' a = h \<and> last_opt ys = Some a) \<and>
    (\<forall>x s. r = Some (x, Some s) \<longrightarrow> s \<notin> set ys \<and> op_error w' s = None)"
proof -
  note R = mbox_repD [OF rep]
  have c: "canceled_now t a w = (Inr False, w)" using ok by (simp add: canceled_now_def mbox_ready_def)
  have ax: "a \<notin> set xs" using ok waiting_repD(2) [OF R(1)] by (auto simp: mbox_ready_def remote_fresh_def)
  obtain u ys where u: "mbox_pop w = Some (map_option fst r, u)" "mbox_abs u ys = q'" "set ys \<subseteq> set xs"
    "mbox_rep u ys (mbox_sent w xs (case r of Some (x, s) \<Rightarrow> s | None \<Rightarrow> None) ms)"
    "mb_value u = mb_value w" "mb_closed u = mb_closed w"
    "r = None \<longrightarrow> ring_size (mb_ring u) = 0 \<and> (\<forall>a \<in> set ys. \<not> mb_sending w a)"
    "\<forall>x s. r = Some (x, Some s) \<longrightarrow> s \<notin> set ys \<and> op_error u s = None"
    using mbox_pop_refines [OF rep q] by blast
  show ?thesis
  proof (cases r)
    case (Some p)
    obtain x s where p: "p = (x, s)" by fastforce
    let ?w = "u\<lparr>mb_value := (mb_value u)(a := Some x)\<rparr>"
    have "a \<notin> set ys" using u(3) ax by blast
    then have "mbox_rep ?w ys (mbox_sent w xs s ms)" "mbox_abs ?w ys = q'"
      using u(2,4) Some p by (simp_all add: mbox_rep_def mbox_abs_def hq_of_fresh one_way_fresh)
    moreover have "mbox_suspend t a h w = Some (Inr False, ?w)"
      using u(1) c op(1) Some p by (simp add: mbox_suspend_def)
    ultimately show ?thesis using Some p u(8)
      by (intro exI [of _ ?w] exI [of _ ys]) simp
  next
    case None
    let ?ys = "dropWhile (remote_dead w) xs"
    have q0: "hq_pop (mbox_abs w xs) = (None, q')" using q None by simp
    have uw: "u = mbox_pruned w xs" using mbox_pop_blocked [OF rep q0] u(1) None by simp
    have ye: "ys = ?ys" using waiting_repD(1) [OF mbox_repD(1) [OF u(4)]] waiting_repD(1) [OF waiting_rep_front [OF R(1)]]
      unfolding uw by (rule dll_ends_unique)
    show ?thesis
    proof (cases "mb_closed w")
      case True
      then have "mbox_suspend t a h w = Some (Inr False, u)"
        using u(1,6) c op(1) None by (simp add: mbox_suspend_def)
      then show ?thesis using u(2,4,5) None True op(2) by auto
    next
      case False
      obtain w' where w': "remote_enqueue t a h (mbox_pruned w xs) = (Inr True, w')"
        "waiting_rep w' (?ys @ [a]) (mail w (takeWhile (remote_dead w) xs) ms)"
        "remote_dead w' = remote_dead w" "op_active w' a" "op_handle w' a = h" "op_error w' a = op_error w a"
        "mb_ring w' = mb_ring w" "mb_sending w' = mb_sending w" "mb_value w' = mb_value w" "\<not> remote_dead w a"
        by (rule mbox_park [OF rep ok, of h])
      have "one_way (mb_ring w) (mb_sending w) (mb_value w) (?ys @ [a])"
        using u(7) None op unfolding uw ye by (auto simp: one_way_def)
      then have "mbox_rep w' (?ys @ [a]) (mbox_sent w xs None ms)"
        using w' R(2) by (simp add: mbox_rep_def mbox_sent_def)
      moreover have "mbox_abs w' (?ys @ [a]) = hq_block_recv a q'"
        using u(2) w' op unfolding uw ye by (auto simp: mbox_abs_def hq_of_def hq_block_recv_def)
      moreover have "mbox_suspend t a h w = Some (Inr True, w')"
        using u(1,6) c False op(1) w'(1) None uw by (simp add: mbox_suspend_def)
      ultimately show ?thesis using w' None False op(2) by auto
    qed
  qed
qed

lemma mbox_zero_ready: "mbox_ready 0 3 (mbox_zero\<lparr>mb_sending := s, mb_value := f, mb_ring := r\<rparr>) (\<lambda>l. [])"
  by (simp add: mbox_simps mbox_ready_def loop_check_def loop_stopped_def stop_requested_def remote_fresh_def)

text \<open>
  The mailbox in which receiver 5 waits on loop 1, with a send awaiter 3 on loop 0; and a rendezvous
  mailbox in which sender 5 of loop 1 waits, with a receive awaiter 3.
\<close>

definition mbox_sending :: "nat mbox" where
  "mbox_sending = mbox_waiting\<lparr>mb_sending := (\<lambda>a. a = 3), mb_value := (\<lambda>a. if a = 3 then Some 42 else None)\<rparr>"

definition mbox_rendezvous :: "nat mbox" where
  "mbox_rendezvous = mbox_waiting
     \<lparr>mb_sending := (\<lambda>a. a = 5), mb_value := (\<lambda>a. if a = 5 then Some 42 else None), mb_ring := ring_init 0\<rparr>"

lemma mbox_parked_rep: "mbox_rep mbox_sending [5] (\<lambda>l. [])" "mbox_rep mbox_rendezvous [5] (\<lambda>l. [])"
  using waiting_rep_cong [OF mbox_repD(1) [OF mbox_waiting_rep(1)], of mbox_sending]
    waiting_rep_cong [OF mbox_repD(1) [OF mbox_waiting_rep(1)], of mbox_rendezvous]
  by (simp_all add: mbox_rep_def mbox_sending_def mbox_rendezvous_def mbox_simps one_way_def ring_inv_init ring_init_def
      ring_inv_def ring_cap_def ring_full_def)

lemma mbox_parked_facts:
  "mbox_ready 0 3 mbox_sending (\<lambda>l. [])" "mb_sending mbox_sending 3" "mb_value mbox_sending 3 = Some 42" "\<not> mb_closed mbox_sending"
  "mbox_ready 0 3 mbox_rendezvous (\<lambda>l. [])" "\<not> mb_sending mbox_rendezvous 3" "mb_value mbox_rendezvous 3 = None"
  "op_owner mbox_sending 5 = 1" "op_owner mbox_rendezvous 5 = 1"
  by (simp_all add: mbox_sending_def mbox_rendezvous_def mbox_simps mbox_ready_def loop_check_def loop_stopped_def
      stop_requested_def remote_fresh_def)

lemma mbox_parked_live: "\<not> remote_dead mbox_sending 5" "\<not> remote_dead mbox_rendezvous 5"
  by (simp_all add: remote_dead_def mbox_sending_def mbox_rendezvous_def mbox_simps loop_stopped_def)

lemma mbox_parked_abs:
  "mbox_abs mbox_sending [5] = \<lparr>hq_cap = 2, hq_buf = [], hq_snds = [], hq_rcvs = [5]\<rparr>"
  "mbox_abs mbox_rendezvous [5] = \<lparr>hq_cap = 0, hq_buf = [], hq_snds = [(5, 42)], hq_rcvs = []\<rparr>"
  using mbox_parked_live by (simp_all add: mbox_abs_def hq_of_def) (simp_all add: mbox_sending_def mbox_rendezvous_def mbox_simps)

theorem mailbox_send_witness:
  "\<exists>w' ys. mbox_suspend 0 3 9 mbox_sending = Some (Inr False, w') \<and> mbox_rep w' ys ((\<lambda>l. [])(1 := [5])) \<and>
     mbox_resume 5 w' = Inr (Some 42)"
proof -
  have q: "hq_push 42 (mbox_abs mbox_sending [5]) = (Handed 5, (mbox_abs mbox_sending [5])\<lparr>hq_rcvs := []\<rparr>)"
    by (simp add: hq_push_def mbox_parked_abs)
  have "mbox_sent mbox_sending [5] (Some 5) (\<lambda>l. []) = (\<lambda>l. [])(1 := [5])"
    using mbox_parked_live mbox_parked_facts by (auto simp: mbox_sent_def mail_def)
  with mailbox_send [OF mbox_parked_rep(1) mbox_parked_facts(1-4) q, of 9] show ?thesis by auto
qed

theorem mailbox_recv_witness:
  "\<exists>w' ys. mbox_suspend 0 3 9 mbox_rendezvous = Some (Inr False, w') \<and> mbox_rep w' ys ((\<lambda>l. [])(1 := [5])) \<and>
     mb_value w' 3 = Some 42 \<and> op_error w' 5 = None"
proof -
  have q: "hq_pop (mbox_abs mbox_rendezvous [5]) = (Some (42, Some 5), (mbox_abs mbox_rendezvous [5])\<lparr>hq_snds := []\<rparr>)"
    unfolding mbox_parked_abs hq_pop_def by simp
  have "mbox_sent mbox_rendezvous [5] (Some 5) (\<lambda>l. []) = (\<lambda>l. [])(1 := [5])"
    using mbox_parked_live mbox_parked_facts by (auto simp: mbox_sent_def mail_def)
  with mailbox_recv [OF mbox_parked_rep(2) mbox_parked_facts(5-7) q, of 9] show ?thesis by auto
qed

subsection \<open>Close\<close>

text \<open>The error each waiter is released with.\<close>

definition close_error :: "('v, 'z) mbox_scheme \<Rightarrow> addr \<Rightarrow> errc option" where
  "close_error w a = (if remote_dead w a then Some Operation_Canceled else if mb_sending w a then Some Broken_Pipe else None)"

lemma mbox_close_loop_total:
  assumes "waiting_rep w xs ms"
  shows "\<exists>w'. mbox_close_loop w = Some w' \<and> waiting_rep w' [] (mail w xs ms) \<and> mb_ring w' = mb_ring w \<and> mb_closed w' = mb_closed w \<and>
    (\<forall>a. op_error w' a = (if a \<in> set xs then close_error w a else op_error w a))"
  using assms
proof (induction "length xs" arbitrary: w xs ms rule: less_induct)
  case less
  let ?T = "takeWhile (remote_dead w) xs" and ?u = "mbox_pruned w xs"
  note f = remote_front_total [OF less.prems]
  have ru: "waiting_rep ?u (dropWhile (remote_dead w) xs) (mail w ?T ms)" by (rule waiting_rep_front [OF less.prems])
  show ?case
  proof (cases "dropWhile (remote_dead w) xs")
    case Nil
    then have t: "?T = xs" by (metis append_Nil2 takeWhile_dropWhile_id)
    have "mbox_close_loop w = Some ?u" using f Nil by (subst mbox_close_loop.simps) simp
    moreover have "remote_dead w a" if "a \<in> set xs" for a using that t by (metis set_takeWhileD)
    ultimately show ?thesis using ru unfolding Nil t by (auto simp: close_error_def)
  next
    case (Cons a ys)
    let ?e = "if mb_sending w a then Some Broken_Pipe else None"
    let ?v = "remote_deliver ?e a ?u"
    have spl: "xs = ?T @ a # ys" using Cons by (metis takeWhile_dropWhile_id)
    have na: "\<not> remote_dead w a" using Cons by (auto simp: dropWhile_eq_Cons_conv)
    have rv: "waiting_rep ?v ys (mail w (?T @ [a]) ms)"
      using waiting_rep_deliver [OF ru [unfolded Cons], of a ?e] by (simp add: mail_append mail_Cons fun_upd_def)
    have "length ys < length xs" using arg_cong [OF spl, of length] by simp
    from less.hyps [OF this rv] obtain w' where w': "mbox_close_loop ?v = Some w'"
      "waiting_rep w' [] (mail ?v ys (mail w (?T @ [a]) ms))" "mb_ring w' = mb_ring ?v" "mb_closed w' = mb_closed ?v"
      "\<forall>b. op_error w' b = (if b \<in> set ys then close_error ?v b else op_error ?v b)" by blast
    have "mail ?v = mail w" by (rule mail_owner) simp
    then have "mail ?v ys (mail w (?T @ [a]) ms) = mail w (?T @ a # ys) ms"
      using mail_append [of w "?T @ [a]" ys ms] by simp
    then have m: "mail ?v ys (mail w (?T @ [a]) ms) = mail w xs ms" using spl by simp
    have st: "mbox_close_loop w = mbox_close_loop ?v" using f Cons by (subst mbox_close_loop.simps) simp
    have tw: "remote_dead w b" if "b \<in> set ?T" for b using that by (rule set_takeWhileD [THEN conjunct2])
    have mem: "b \<in> set xs \<longleftrightarrow> b \<in> set ?T \<or> b = a \<or> b \<in> set ys" for b
      using arg_cong [OF spl, of set] by (metis UnE UnI1 UnI2 list.set_intros set_ConsD set_append)
    have ds: "distinct xs" by (rule waiting_distinct [OF less.prems])
    then have dj: "a \<notin> set ys" "a \<notin> set ?T" using spl by (metis distinct_append disjoint_insert(1) distinct.simps(2) list.simps(15), metis distinct_append disjoint_insert(1) list.simps(15))
    have "op_error w' b = (if b \<in> set xs then close_error w b else op_error w b)" for b
      using w'(5) tw [of b] na dj mem [of b] by (auto simp: close_error_def)
    then show ?thesis using w' st m by auto
  qed
qed

text \<open>C33: closing ends and empties the wait queue: every waiter gets exactly one message on its own loop,
  in queue order, blocked senders failing with \<^verbatim>\<open>broken_pipe\<close>, canceled waiters with
  \<^verbatim>\<open>operation_canceled\<close> and receivers without an error; buffered values stay.\<close>

theorem mailbox_close:
  assumes rep: "mbox_rep w xs ms"
  shows "\<exists>w'. mbox_close w = Some w' \<and> mbox_rep w' [] (mail w xs ms) \<and> mb_closed w' \<and> mb_ring w' = mb_ring w \<and>
    (\<forall>a. op_error w' a = (if a \<in> set xs then close_error w a else op_error w a))"
proof -
  let ?w = "w\<lparr>mb_closed := True\<rparr>"
  have "waiting_rep ?w xs ms" by (rule waiting_rep_cong [OF mbox_repD(1) [OF rep]]) simp_all
  moreover have "mail ?w = mail w" by (rule mail_owner) simp
  moreover have "close_error ?w = close_error w" by (simp add: close_error_def remote_dead_def loop_stopped_def fun_eq_iff)
  ultimately show ?thesis
    using mbox_close_loop_total [of ?w xs ms] mbox_repD(2) [OF rep]
    by (auto simp: mbox_close_def mbox_rep_def one_way_def)
qed

theorem mailbox_close_witness:
  "\<exists>w'. mbox_close mbox_waiting = Some w' \<and> mbox_rep w' [] (\<lambda>l. if l = 1 then [5] else []) \<and> mb_closed w' \<and> op_error w' 5 = None"
proof -
  have "mail mbox_waiting [5] (\<lambda>l. []) = (\<lambda>l. if l = 1 then [5] else [])" "close_error mbox_waiting 5 = None"
    by (auto simp: mail_def mbox_simps close_error_def remote_dead_def loop_stopped_def)
  with mailbox_close [OF mbox_waiting_rep(1)] show ?thesis by auto
qed

end
