(* ===== verification/Futex.thy ===== *)
theory Futex
  imports Mailbox_Ops
begin

text \<open>
  \<^verbatim>\<open>futex<T>\<close> of \<^verbatim>\<open>futex.hpp\<close>: coroutines wait while an atomic holds a value.  The check and the
  enqueue are one step under the queue's mutex; the step relation below interleaves waits,
  stores, notifications and cancellations in every order.
\<close>

subsection \<open>Definitions\<close>

record fut = waiting +
  fx_value :: int
  fx_old :: "addr \<Rightarrow> int"

definition futex_awaiter :: "loop_id \<Rightarrow> addr \<Rightarrow> int \<Rightarrow> token_id option \<Rightarrow> bool \<Rightarrow> 'z fut_scheme \<Rightarrow> 'z fut_scheme" where
  "futex_awaiter l a old k cancelable w =
     (remote_init l a k w)\<lparr>fx_old := (fx_old w)(a := old), wt_interruptible := (wt_interruptible w)(a := cancelable)\<rparr>"

definition futex_suspend :: "thread_id \<Rightarrow> addr \<Rightarrow> handle_id \<Rightarrow> 'z fut_scheme \<Rightarrow> (bool, 'z fut_scheme) result" where
  "futex_suspend t a h w =
     (if \<not> loop_check t (op_owner w a) w then (Inl wrong_thread, w)
      else case (if wt_interruptible w a then canceled_now t a w else (Inr False, w)) of
        (Inl e, w1) \<Rightarrow> (Inl e, w1)
      | (Inr True, w1) \<Rightarrow> (Inr False, w1)
      | (Inr False, w1) \<Rightarrow>
          if fx_value w1 \<noteq> fx_old w1 a then (Inr False, w1) else remote_enqueue t a h w1)"

definition futex_notify_one :: "'z fut_scheme \<Rightarrow> 'z fut_scheme option" where
  "futex_notify_one w =
     (case remote_front w of
        None \<Rightarrow> None
      | Some (p, w1) \<Rightarrow> Some (case p of None \<Rightarrow> w1 | Some a \<Rightarrow> remote_deliver None a w1))"

partial_function (option) futex_notify_all :: "'z fut_scheme \<Rightarrow> 'z fut_scheme option" where
  "futex_notify_all w =
     (case remote_front w of
        None \<Rightarrow> None
      | Some (p, w1) \<Rightarrow> (case p of None \<Rightarrow> Some w1 | Some a \<Rightarrow> futex_notify_all (remote_deliver None a w1)))"

subsection \<open>Notifications\<close>

lemma fut_fields_deliver [simp]:
  "fx_value (remote_deliver e a (w :: 'z fut_scheme)) = fx_value w" "fx_old (remote_deliver e a w) = fx_old w"
  by (simp_all add: remote_deliver_def message_send_def loop_wake_def upd_loop_def set_error_def remote_unlink_def Let_def
      split: prod.split)

lemma fut_fields_deliver_list [simp]:
  "fx_value (deliver_list e xs (w :: 'z fut_scheme)) = fx_value w" "fx_old (deliver_list e xs w) = fx_old w"
  unfolding deliver_list_def by (induction xs arbitrary: w) auto

lemma notify_one_state:
  assumes rep: "waiting_rep w xs ms"
  shows "\<exists>w'. futex_notify_one w = Some w' \<and> fx_value w' = fx_value w \<and> fx_old w' = fx_old w \<and>
    waiting_rep w' (tl (dropWhile (remote_dead w) xs))
      (mail w (takeWhile (remote_dead w) xs @ take 1 (dropWhile (remote_dead w) xs)) ms) \<and>
    (\<forall>a. op_error w' a = (if a \<in> set (takeWhile (remote_dead w) xs) then Some Operation_Canceled
        else if hd_opt (dropWhile (remote_dead w) xs) = Some a then None else op_error w a))"
proof -
  let ?T = "takeWhile (remote_dead w) xs" and ?u = "deliver_list (Some Operation_Canceled) (takeWhile (remote_dead w) xs) w"
  have ru: "waiting_rep ?u (dropWhile (remote_dead w) xs) (mail w ?T ms)" by (rule waiting_rep_front [OF rep])
  note f = remote_front_total [OF rep]
  show ?thesis
  proof (cases "dropWhile (remote_dead w) xs")
    case Nil
    then have "futex_notify_one w = Some ?u" using f by (simp add: futex_notify_one_def del: dropWhile_eq_Nil_conv)
    then show ?thesis using ru unfolding Nil by auto
  next
    case (Cons a ys)
    let ?v = "remote_deliver None a ?u"
    have "futex_notify_one w = Some ?v" using f Cons by (simp add: futex_notify_one_def)
    moreover have "waiting_rep ?v ys (mail w (?T @ [a]) ms)"
      using waiting_rep_deliver [OF ru [unfolded Cons], of a None] by (simp add: mail_append mail_Cons fun_upd_def)
    moreover have "a \<notin> set ?T" using Cons by (auto simp: dropWhile_eq_Cons_conv dest: set_takeWhileD)
    ultimately show ?thesis unfolding Cons by auto
  qed
qed

text \<open>\<^verbatim>\<open>notify_one\<close> ends and wakes exactly the oldest live waiter, without an error, by a message to its
  own loop; waiters canceled before it are failed, and everybody behind it keeps waiting.\<close>

theorem notify_one_wakes:
  assumes rep: "waiting_rep w xs ms"
  shows "\<exists>w'. futex_notify_one w = Some w' \<and> fx_value w' = fx_value w \<and>
    waiting_rep w' (tl (dropWhile (remote_dead w) xs))
      (mail w (takeWhile (remote_dead w) xs @ take 1 (dropWhile (remote_dead w) xs)) ms) \<and>
    (\<forall>a. op_error w' a = (if a \<in> set (takeWhile (remote_dead w) xs) then Some Operation_Canceled
        else if hd_opt (dropWhile (remote_dead w) xs) = Some a then None else op_error w a))"
  using notify_one_state [OF rep] by blast

lemma notify_all_total:
  assumes "waiting_rep w xs ms"
  shows "\<exists>w'. futex_notify_all w = Some w' \<and> waiting_rep w' [] (mail w xs ms) \<and>
    fx_value w' = fx_value w \<and> fx_old w' = fx_old w \<and> op_owner w' = op_owner w"
  using assms
proof (induction "length xs" arbitrary: w xs ms rule: less_induct)
  case less
  let ?T = "takeWhile (remote_dead w) xs" and ?u = "deliver_list (Some Operation_Canceled) (takeWhile (remote_dead w) xs) w"
  have ru: "waiting_rep ?u (dropWhile (remote_dead w) xs) (mail w ?T ms)" by (rule waiting_rep_front [OF less.prems])
  note f = remote_front_total [OF less.prems]
  show ?case
  proof (cases "dropWhile (remote_dead w) xs")
    case Nil
    then have t: "?T = xs" by (metis append_Nil2 takeWhile_dropWhile_id)
    have "futex_notify_all w = Some ?u" using f Nil by (subst futex_notify_all.simps) simp
    then show ?thesis using ru unfolding Nil t by simp
  next
    case (Cons a ys)
    let ?v = "remote_deliver None a ?u"
    have spl: "xs = ?T @ a # ys" using Cons by (metis takeWhile_dropWhile_id)
    have rv: "waiting_rep ?v ys (mail w (?T @ [a]) ms)"
      using waiting_rep_deliver [OF ru [unfolded Cons], of a None] by (simp add: mail_append mail_Cons fun_upd_def)
    have "length ys < length xs" using arg_cong [OF spl, of length] by simp
    from less.hyps [OF this rv] obtain w' where w': "futex_notify_all ?v = Some w'"
      "waiting_rep w' [] (mail ?v ys (mail w (?T @ [a]) ms))" "fx_value w' = fx_value ?v" "fx_old w' = fx_old ?v"
      "op_owner w' = op_owner ?v" by blast
    have "mail ?v = mail w" by (rule mail_owner) simp
    then have "mail ?v ys (mail w (?T @ [a]) ms) = mail w xs ms"
      using mail_append [of w "?T @ [a]" ys ms] spl by simp
    moreover have "futex_notify_all w = futex_notify_all ?v" using f Cons by (subst futex_notify_all.simps) simp
    ultimately show ?thesis using w' by simp
  qed
qed

subsection \<open>Interleavings\<close>

text \<open>
  The steps of loops and threads on one futex; the flag tells whether a value was stored and not
  yet followed by \<^verbatim>\<open>notify_all\<close>.  A coroutine suspends on a node no queue refers to yet.
\<close>

inductive futex_step :: "fut \<times> bool \<Rightarrow> fut \<times> bool \<Rightarrow> bool" where
  store: "futex_step (w, d) (w\<lparr>fx_value := v\<rparr>, True)"
| notify_all: "futex_notify_all w = Some w' \<Longrightarrow> futex_step (w, d) (w', False)"
| notify_one: "futex_notify_one w = Some w' \<Longrightarrow> futex_step (w, d) (w', d)"
| suspend: "remote_fresh w (\<lambda>l. []) a \<Longrightarrow> (\<forall>l. rq_tail (lp_messages (loops w l)) \<noteq> Some a) \<Longrightarrow>
    futex_suspend t a h w = (r, w') \<Longrightarrow> futex_step (w, d) (w', d)"
| interrupt: "futex_step (w, d) (remote_interrupt a w, d)"
| cancel: "futex_step (w, d) (cancel_fn a w, d)"
| stop: "futex_step (w, d) (loop_stop l w, d)"

inductive futex_run :: "fut \<times> bool \<Rightarrow> fut \<times> bool \<Rightarrow> bool" where
  refl: "futex_run s s"
| step: "futex_run s u \<Longrightarrow> futex_step u v \<Longrightarrow> futex_run s v"

definition futex_inv :: "fut \<times> bool \<Rightarrow> bool" where
  "futex_inv s \<longleftrightarrow> (case s of (w, dirty) \<Rightarrow>
     \<exists>xs ms. waiting_rep w xs ms \<and> (\<not> dirty \<longrightarrow> (\<forall>a \<in> set xs. fx_old w a = fx_value w)))"

lemma futex_invI:
  "waiting_rep w xs ms \<Longrightarrow> (\<And>a. \<not> d \<Longrightarrow> a \<in> set xs \<Longrightarrow> fx_old w a = fx_value w) \<Longrightarrow> futex_inv (w, d)"
  by (auto simp: futex_inv_def)

text \<open>In a chain every link but the last is set, so a node without link and not at the end of any
  queue is in none.\<close>

lemma rq_not_queued:
  assumes "rq_rep (nx, q) xs" and "nx a = None" and "rq_tail q \<noteq> Some a"
  shows "a \<notin> set xs"
proof
  assume "a \<in> set xs"
  then obtain ys zs where xs: "xs = ys @ a # zs" by (meson split_list)
  with assms(1) have "nx a = hd_opt zs" by (auto simp: rq_rep_def dest: chain_next)
  with assms(2) have "zs = []" by simp
  with assms(1,3) xs show False by (simp add: rq_rep_def)
qed

lemma waiting_rep_interrupt:
  assumes rep: "waiting_rep w xs ms"
  shows "\<exists>ys. waiting_rep (remote_interrupt a w) ys ms \<and> set ys \<subseteq> set xs"
proof (cases "rw_linked w a")
  case False
  then show ?thesis using rep by (auto simp: remote_interrupt_def)
next
  case True
  note r = waiting_repD [OF rep]
  have a: "a \<in> set xs" using True r(2) by simp
  let ?u = "remote_unlink a w"
  have d: "dll_ends ((rw_after ?u, rw_before ?u), wq_first ?u, wq_last ?u) (remove1 a xs)"
    using dll_unlink_ends [OF r(1) a] by (auto simp: remote_unlink_def split: prod.splits)
  have s: "set (remove1 a xs) = set xs - {a}" using dll_ends_distinct [OF r(1)] by (rule set_remove1_eq)
  have "waiting_rep ?u (remove1 a xs) ms" unfolding waiting_rep_def using d s r(2,3,4,5,6) by auto
  then have "waiting_rep (wait_notify a (set_error a (Some Operation_Canceled) ?u)) (remove1 a xs) ms"
    by (rule waiting_rep_cong)
      (auto simp: wait_notify_def wait_unlink_def loop_finish_def callback_reset_def ready_push_def set_error_def
        upd_loop_def Let_def split: prod.split option.split)
  then show ?thesis using True s by (auto simp: remote_interrupt_def)
qed

lemma futex_suspend_rep:
  assumes rep: "waiting_rep w xs ms" and fresh: "remote_fresh w ms a" and "futex_suspend t a h w = (r, w')"
  shows "(waiting_rep w' xs ms \<or> fx_value w = fx_old w a \<and> waiting_rep w' (xs @ [a]) ms) \<and>
    fx_value w' = fx_value w \<and> fx_old w' = fx_old w"
proof -
  have e: "waiting_rep (set_error a x w) xs ms" for x by (rule waiting_rep_cong [OF rep]) (auto simp: set_error_def)
  have f: "fx_value u' = fx_value u" "fx_old u' = fx_old u" if "remote_enqueue t a h u = (r', u')" for u u' :: "'b fut_scheme" and r'
    using that
    by (auto simp: remote_enqueue_def wait_park_def loop_arm_eq armed_def wait_link_def set_error_def upd_loop_def
        remote_link_def Let_def split: prod.splits option.splits sum.splits bool.splits if_splits)
  show ?thesis
  proof (cases "loop_check t (op_owner w a) w \<and> (wt_interruptible w a \<longrightarrow> \<not> refused (op_owner w a) (op_token w a) w) \<and>
      fx_value w = fx_old w a")
    case True
    then have "futex_suspend t a h w = remote_enqueue t a h w" by (auto simp: futex_suspend_def canceled_now_def)
    moreover obtain u where "remote_enqueue t a h w = (Inr True, u)" "waiting_rep u (xs @ [a]) ms"
      by (rule remote_enqueue_parks [OF rep fresh, of t h]) (use True in auto)
    ultimately show ?thesis using True f(1) [of w _ w'] f(2) [of w _ w'] assms(3) by auto
  next
    case False
    then have "w' = w \<or> w' = set_error a (Some Operation_Canceled) w"
      using assms(3) by (auto simp: futex_suspend_def canceled_now_def split: if_splits)
    then show ?thesis using rep e by (auto simp: set_error_def)
  qed
qed

lemma futex_step_inv:
  assumes "futex_step s s'" and "futex_inv s"
  shows "futex_inv s'"
  using assms
proof (induction rule: futex_step.induct)
  case (store w d v)
  then obtain xs ms where rep: "waiting_rep w xs ms" by (auto simp: futex_inv_def)
  have "waiting_rep (w\<lparr>fx_value := v\<rparr>) xs ms" by (rule waiting_rep_cong [OF rep]) auto
  then show ?case by (auto simp: futex_inv_def)
next
  case (notify_all w w' d)
  then obtain xs ms where rep: "waiting_rep w xs ms" by (auto simp: futex_inv_def)
  from notify_all_total [OF rep] notify_all(1) have "waiting_rep w' [] (mail w xs ms)" by auto
  then show ?case by (rule futex_invI) simp
next
  case (notify_one w w' d)
  then obtain xs ms where rep: "waiting_rep w xs ms" and ok: "\<not> d \<longrightarrow> (\<forall>a \<in> set xs. fx_old w a = fx_value w)"
    by (auto simp: futex_inv_def)
  let ?T = "takeWhile (remote_dead w) xs" and ?D = "dropWhile (remote_dead w) xs"
  from notify_one_state [OF rep] notify_one have w': "waiting_rep w' (tl ?D) (mail w (?T @ take 1 ?D) ms)"
    "fx_value w' = fx_value w" "fx_old w' = fx_old w" by auto
  have "set (tl ?D) \<subseteq> set xs" by (metis list.set_sel(2) set_dropWhileD subsetI tl_Nil)
  then show ?case using ok w' by (intro futex_invI [OF w'(1)]) auto
next
  case (suspend w a t h r w' d)
  then obtain xs ms where rep: "waiting_rep w xs ms" and ok: "\<not> d \<longrightarrow> (\<forall>a \<in> set xs. fx_old w a = fx_value w)"
    by (auto simp: futex_inv_def)
  have "a \<notin> set (ms l)" for l
    by (rule rq_not_queued [OF waiting_repD(3) [OF rep, of l]]) (use suspend(1,2) in \<open>auto simp: remote_fresh_def\<close>)
  then have "remote_fresh w ms a" using suspend(1) by (simp add: remote_fresh_def)
  from futex_suspend_rep [OF rep this suspend(3)] ok show ?case by (fastforce simp: futex_inv_def)
next
  case (interrupt w d a)
  then obtain xs ms where rep: "waiting_rep w xs ms" and ok: "\<not> d \<longrightarrow> (\<forall>a \<in> set xs. fx_old w a = fx_value w)"
    by (auto simp: futex_inv_def)
  from waiting_rep_interrupt [OF rep, of a] obtain ys where ys: "waiting_rep (remote_interrupt a w) ys ms" "set ys \<subseteq> set xs"
    by auto
  have "fx_value (remote_interrupt a w) = fx_value w" "fx_old (remote_interrupt a w) = fx_old w"
    by (auto simp: remote_interrupt_def remote_unlink_def set_error_def wait_notify_def wait_unlink_def loop_finish_def
        callback_reset_def ready_push_def upd_loop_def Let_def split: prod.split option.split)
  then show ?case using ok ys by (intro futex_invI [OF ys(1)]) auto
next
  case (cancel w d a)
  then obtain xs ms where rep: "waiting_rep w xs ms" and ok: "\<not> d \<longrightarrow> (\<forall>a \<in> set xs. fx_old w a = fx_value w)"
    by (auto simp: futex_inv_def)
  have "waiting_rep (cancel_fn a w) xs ms" by (rule waiting_rep_cong [OF rep]) (auto simp: cancel_fn_def loop_wake_def upd_loop_def)
  then show ?case using ok by (intro futex_invI) (auto simp: cancel_fn_def loop_wake_def upd_loop_def)
next
  case (stop w d l)
  then obtain xs ms where rep: "waiting_rep w xs ms" and ok: "\<not> d \<longrightarrow> (\<forall>a \<in> set xs. fx_old w a = fx_value w)"
    by (auto simp: futex_inv_def)
  have "waiting_rep (loop_stop l w) xs ms" by (rule waiting_rep_cong [OF rep]) (auto simp: loop_stop_def loop_wake_def upd_loop_def)
  then show ?case using ok by (intro futex_invI) (auto simp: loop_stop_def loop_wake_def upd_loop_def)
qed

text \<open>C17: no wake-up is lost: in every interleaving of waits, stores, notifications, cancellations and
  stops that starts from an empty queue, once every store has been followed by \<^verbatim>\<open>notify_all\<close>, a
  coroutine that is still queued waits for the value the atomic really holds.\<close>

theorem futex_no_lost_wakeup:
  assumes "waiting_rep w [] ms" and "futex_run (w, False) (w', False)"
  shows "\<forall>a. rw_linked w' a \<longrightarrow> fx_old w' a = fx_value w'"
proof -
  have "futex_inv (w, False)" using assms(1) by (auto simp: futex_inv_def)
  with assms(2) have "futex_inv (w', False)" by (induction rule: futex_run.induct) (auto intro: futex_step_inv)
  then show ?thesis by (auto simp: futex_inv_def dest: waiting_repD(2))
qed

text \<open>A futex on 0: a coroutine waits, the value changes, the notification follows.\<close>

definition fut_zero :: fut where
  "fut_zero =
     \<lparr>loops = loops world_init, current_loop = current_loop world_init, clock_now = 0, stop_flag = \<lambda>k. False,
      stop_cbs = \<lambda>k. [], r_next = \<lambda>a. None, m_next = \<lambda>a. None, op_handle = \<lambda>a. a, op_owner = \<lambda>a. 0,
      op_error = \<lambda>a. None, op_canceled = \<lambda>a. False, op_active = \<lambda>a. False, op_callback = \<lambda>a. None,
      op_token = \<lambda>a. None, tm_due = \<lambda>a. 0, wt_next = \<lambda>a. None, wt_prev = \<lambda>a. None,
      wt_interruptible = \<lambda>a. True, wt_hook = \<lambda>a. True, io_next = \<lambda>a. None, io_prev = \<lambda>a. None,
      io_code = \<lambda>a. Op_Nop, io_size = \<lambda>a. 0, io_cancel_sent = \<lambda>a. False, io_hook = \<lambda>a. False,
      io_busy = \<lambda>a. None, io_reserved = \<lambda>a. False, busy_slot = \<lambda>s. False,
      wq_first = None, wq_last = None, wq_users = 0, rw_before = \<lambda>a. None, rw_after = \<lambda>a. None,
      rw_linked = \<lambda>a. False, fx_value = 0, fx_old = \<lambda>a. 0\<rparr>"

lemma fut_zero_rep: "waiting_rep fut_zero [] (\<lambda>l. [])"
  by (simp add: waiting_rep_def fut_zero_def world_init_def loop_init_def rq_rep_init dll_ends_def)

theorem notify_one_wakes_witness: "\<exists>w'. futex_notify_one fut_zero = Some w' \<and> waiting_rep w' [] (\<lambda>l. []) \<and> fx_value w' = 0"
proof -
  have "fx_value fut_zero = 0" by (simp add: fut_zero_def)
  with notify_one_wakes [OF fut_zero_rep] show ?thesis by auto
qed

theorem futex_no_lost_wakeup_witness:
  "\<exists>w1 w2. futex_suspend 0 3 7 fut_zero = (Inr True, w1) \<and> rw_linked w1 3 \<and>
     futex_run (fut_zero, False) (w1, False) \<and> fx_old w1 3 = fx_value w1 \<and>
     futex_notify_all (w1\<lparr>fx_value := 1\<rparr>) = Some w2 \<and> futex_run (fut_zero, False) (w2, False) \<and> \<not> rw_linked w2 3"
proof -
  have fresh: "remote_fresh fut_zero (\<lambda>l. []) 3" "\<forall>l. rq_tail (lp_messages (loops fut_zero l)) \<noteq> Some 3"
    by (simp_all add: remote_fresh_def fut_zero_def world_init_def loop_init_def rq_init_def)
  have c: "loop_check 0 (op_owner fut_zero 3) fut_zero" "\<not> refused (op_owner fut_zero 3) (op_token fut_zero 3) fut_zero"
    "fx_value fut_zero = fx_old fut_zero 3"
    by (simp_all add: loop_check_def loop_stopped_def stop_requested_def fut_zero_def world_init_def loop_init_def)
  obtain w1 where e: "remote_enqueue 0 3 7 fut_zero = (Inr True, w1)" "waiting_rep w1 ([] @ [3]) (\<lambda>l. [])"
    by (rule remote_enqueue_parks [OF fut_zero_rep fresh(1) c(1), of 7]) (use c(2) in auto)
  have s: "futex_suspend 0 3 7 fut_zero = (Inr True, w1)" using c e(1) by (simp add: futex_suspend_def canceled_now_def)
  have l1: "rw_linked w1 3" using waiting_repD(2) [OF e(2), of 3] by simp
  have r1: "futex_run (fut_zero, False) (w1, False)"
    using futex_run.step [OF futex_run.refl futex_step.suspend [OF fresh s]] .
  have "waiting_rep (w1\<lparr>fx_value := 1\<rparr>) [3] (\<lambda>l. [])" by (rule waiting_rep_cong [OF e(2) [simplified]]) auto
  from notify_all_total [OF this] obtain w2 where
    n: "futex_notify_all (w1\<lparr>fx_value := 1\<rparr>) = Some w2" and r2: "waiting_rep w2 [] (mail (w1\<lparr>fx_value := 1\<rparr>) [3] (\<lambda>l. []))"
    by blast
  have "futex_run (fut_zero, False) (w2, False)"
    using futex_run.step [OF futex_run.step [OF r1 futex_step.store] futex_step.notify_all [OF n]] .
  moreover have "\<not> rw_linked w2 3" using waiting_repD(2) [OF r2, of 3] by simp
  ultimately show ?thesis using s l1 r1 n futex_no_lost_wakeup [OF fut_zero_rep r1] by blast
qed

end
