(* ===== verification/Event.thy ===== *)
theory Event
  imports Loop_Sched
begin

text \<open>
  \<^verbatim>\<open>class event\<close> of \<^verbatim>\<open>event.hpp\<close>: the manual-reset broadcast event of one loop.  An awaiter stays
  linked to its event until it is destroyed, so the event's list also holds awaiters that are
  already retired; notifying those does nothing.
\<close>

subsection \<open>Definitions\<close>

type_synonym event_id = nat

record events = world +
  ev_loop :: "event_id \<Rightarrow> loop_id"
  ev_set :: "event_id \<Rightarrow> bool"
  ev_head :: "event_id \<Rightarrow> ptr"
  aw_event :: "addr \<Rightarrow> event_id"
  aw_next :: field_ptr
  aw_prev :: field_ptr
  aw_linked :: "addr \<Rightarrow> bool"

definition event_init :: "loop_id \<Rightarrow> event_id \<Rightarrow> 'z events_scheme \<Rightarrow> 'z events_scheme" where
  "event_init l e w =
     w\<lparr>ev_loop := (ev_loop w)(e := l), ev_set := (ev_set w)(e := False), ev_head := (ev_head w)(e := None)\<rparr>"

text \<open>\<^verbatim>\<open>~event\<close>: \<^const>\<open>False\<close> is \<^verbatim>\<open>std::terminate\<close>.\<close>

definition event_destroy :: "event_id \<Rightarrow> 'z events_scheme \<Rightarrow> bool" where
  "event_destroy e w \<longleftrightarrow> ev_head w e = None"

partial_function (option) notify_from :: "ptr \<Rightarrow> 'z events_scheme \<Rightarrow> 'z events_scheme option" where
  "notify_from p w =
     (case p of
        None \<Rightarrow> Some w
      | Some a \<Rightarrow> (let w1 = wait_notify a w in notify_from (aw_next w1 a) w1))"

definition event_set :: "thread_id \<Rightarrow> event_id \<Rightarrow> 'z events_scheme \<Rightarrow> (unit, 'z events_scheme) result option" where
  "event_set t e w =
     (if \<not> loop_check t (ev_loop w e) w then Some (Inl wrong_thread, w)
      else case notify_from (ev_head w e) (w\<lparr>ev_set := (ev_set w)(e := True)\<rparr>) of
             None \<Rightarrow> None
           | Some w1 \<Rightarrow> Some (Inr (), w1))"

definition event_reset :: "thread_id \<Rightarrow> event_id \<Rightarrow> 'z events_scheme \<Rightarrow> (unit, 'z events_scheme) result" where
  "event_reset t e w =
     (if \<not> loop_check t (ev_loop w e) w then (Inl wrong_thread, w)
      else (Inr (), w\<lparr>ev_set := (ev_set w)(e := False)\<rparr>))"

definition awaiter_init :: "event_id \<Rightarrow> addr \<Rightarrow> token_id option \<Rightarrow> bool \<Rightarrow> 'z events_scheme \<Rightarrow> 'z events_scheme" where
  "awaiter_init e a k cancelable w =
     w\<lparr>op_owner := (op_owner w)(a := ev_loop w e), op_error := (op_error w)(a := None),
       op_canceled := (op_canceled w)(a := False), op_token := (op_token w)(a := k),
       wt_prev := (wt_prev w)(a := None), wt_interruptible := (wt_interruptible w)(a := cancelable),
       wt_hook := (wt_hook w)(a := False), aw_event := (aw_event w)(a := e),
       aw_next := (aw_next w)(a := None), aw_prev := (aw_prev w)(a := None), aw_linked := (aw_linked w)(a := False)\<rparr>"

definition awaiter_link :: "addr \<Rightarrow> 'z events_scheme \<Rightarrow> 'z events_scheme" where
  "awaiter_link a w =
     (case dl_push_front a ((aw_next w, aw_prev w), ev_head w (aw_event w a)) of
        ((nx, pv), first) \<Rightarrow>
          w\<lparr>aw_next := nx, aw_prev := pv, ev_head := (ev_head w)(aw_event w a := first),
            aw_linked := (aw_linked w)(a := True)\<rparr>)"

definition awaiter_suspend :: "thread_id \<Rightarrow> addr \<Rightarrow> handle_id \<Rightarrow> 'z events_scheme \<Rightarrow> (bool, 'z events_scheme) result" where
  "awaiter_suspend t a h w =
     (case wait_park t a h (op_token w a) w of
        (Inr True, w1) \<Rightarrow>
          (let w2 = awaiter_link a w1 in
           (Inr True, if ev_set w2 (aw_event w2 a) then wait_notify a w2 else w2))
      | (r, w1) \<Rightarrow> (r, w1))"

definition awaiter_destroy :: "addr \<Rightarrow> 'z events_scheme \<Rightarrow> 'z events_scheme" where
  "awaiter_destroy a w =
     (if \<not> aw_linked w a then w
      else case dl_unlink a ((aw_next w, aw_prev w), ev_head w (aw_event w a)) of
             ((nx, pv), first) \<Rightarrow> w\<lparr>aw_next := nx, aw_prev := pv, ev_head := (ev_head w)(aw_event w a := first)\<rparr>)"

subsection \<open>Frames\<close>

lemma event_fields_notify [simp]:
  "ev_loop (wait_notify a (w :: 'z events_scheme)) = ev_loop w" "ev_set (wait_notify a w) = ev_set w"
  "ev_head (wait_notify a w) = ev_head w" "aw_event (wait_notify a w) = aw_event w" "aw_next (wait_notify a w) = aw_next w"
  "aw_prev (wait_notify a w) = aw_prev w" "aw_linked (wait_notify a w) = aw_linked w"
  by (simp_all add: wait_notify_def wait_unlink_def loop_finish_def callback_reset_def ready_push_def
      upd_loop_def Let_def split: prod.split option.split)

lemma event_fields_park:
  assumes "wait_park t a h k (w :: 'z events_scheme) = (r, w')"
  shows "ev_loop w' = ev_loop w" "ev_set w' = ev_set w" "ev_head w' = ev_head w" "aw_event w' = aw_event w"
    "aw_next w' = aw_next w" "aw_prev w' = aw_prev w" "aw_linked w' = aw_linked w"
  using assms
  by (auto simp: wait_park_def loop_arm_eq armed_def wait_link_def set_error_def upd_loop_def Let_def
      split: prod.splits option.splits sum.splits bool.splits if_splits)

lemma awaiter_link_frame [simp]:
  "ev_set (awaiter_link a w) = ev_set w" "aw_event (awaiter_link a w) = aw_event w" "ev_loop (awaiter_link a w) = ev_loop w"
  "op_active (awaiter_link a w) = op_active w" "op_owner (awaiter_link a w) = op_owner w"
  "op_error (awaiter_link a w) = op_error w" "op_handle (awaiter_link a w) = op_handle w"
  by (simp_all add: awaiter_link_def split: prod.split)

lemma rep_awaiter_link: "loop_rep w l A rs ts ws ns \<Longrightarrow> loop_rep (awaiter_link a w) l A rs ts ws ns"
  by (erule loop_rep_cong) (auto simp: awaiter_link_def split: prod.split)

lemma rep_event_set: "loop_rep (w\<lparr>ev_set := f\<rparr>) l A rs ts ws ns = loop_rep w l A rs ts ws ns"
  by (simp add: loop_rep_def)

subsection \<open>Representation\<close>

text \<open>
  Event \<open>e\<close> of loop \<open>l\<close> has the awaiters \<open>xs\<close>, latest first; a linked awaiter is active exactly
  while it waits on the loop, and a set event has nobody waiting.
\<close>

definition event_rep :: "'z events_scheme \<Rightarrow> event_id \<Rightarrow> loop_id \<Rightarrow> addr list \<Rightarrow> addr list \<Rightarrow> bool" where
  "event_rep w e l xs ws \<longleftrightarrow>
     ev_loop w e = l \<and> dll ((aw_next w, aw_prev w), ev_head w e) xs \<and>
     (\<forall>a \<in> set xs. aw_event w a = e \<and> op_owner w a = l \<and> (op_active w a \<longrightarrow> a \<in> set ws)) \<and>
     (ev_set w e \<longrightarrow> (\<forall>a \<in> set xs. \<not> op_active w a))"

lemma event_repD:
  assumes "event_rep w e l xs ws"
  shows "ev_loop w e = l" "dll ((aw_next w, aw_prev w), ev_head w e) xs" "\<And>a. a \<in> set xs \<Longrightarrow> aw_event w a = e"
    "\<And>a. a \<in> set xs \<Longrightarrow> op_owner w a = l" "\<And>a. a \<in> set xs \<Longrightarrow> op_active w a \<Longrightarrow> a \<in> set ws"
    "\<And>a. ev_set w e \<Longrightarrow> a \<in> set xs \<Longrightarrow> \<not> op_active w a"
  using assms unfolding event_rep_def by blast+

text \<open>Notifying a list of awaiters queues those still parked, in list order.\<close>

definition notify_list :: "addr list \<Rightarrow> 'z events_scheme \<Rightarrow> 'z events_scheme" where
  "notify_list xs w = fold wait_notify xs w"

lemma notify_list_frame [simp]:
  "ev_loop (notify_list xs w) = ev_loop w" "ev_set (notify_list xs w) = ev_set w" "ev_head (notify_list xs w) = ev_head w"
  "aw_event (notify_list xs w) = aw_event w" "aw_next (notify_list xs w) = aw_next w" "aw_prev (notify_list xs w) = aw_prev w"
  "aw_linked (notify_list xs w) = aw_linked w" "op_owner (notify_list xs w) = op_owner w"
  "op_error (notify_list xs w) = op_error w" "lp_thread (loops (notify_list xs w) k) = lp_thread (loops w k)"
  "op_active (notify_list xs w) a = (a \<notin> set xs \<and> op_active w a)"
  unfolding notify_list_def by (induction xs arbitrary: w) auto

lemma notify_from_list:
  assumes "chain (aw_next w) p xs"
  shows "notify_from p w = Some (notify_list xs w)"
  using assms
proof (induction xs arbitrary: p w)
  case Nil
  then show ?case by (subst notify_from.simps) (simp add: notify_list_def)
next
  case (Cons a xs)
  then have "p = Some a" "chain (aw_next (wait_notify a w)) (aw_next w a) xs" by simp_all
  then show ?case using Cons.IH [of "wait_notify a w" "aw_next w a"]
    by (subst notify_from.simps) (simp add: notify_list_def Let_def)
qed

lemma rep_notify_list:
  assumes "loop_rep w l {} rs ts ws ns" and "distinct xs" and "\<And>a. a \<in> set xs \<Longrightarrow> op_owner w a = l"
    and "\<And>a. a \<in> set xs \<Longrightarrow> op_active w a \<Longrightarrow> a \<in> set ws"
  shows "loop_rep (notify_list xs w) l {} (rs @ filter (op_active w) xs) ts (filter (\<lambda>a. a \<notin> set xs) ws) ns"
  using assms
proof (induction xs arbitrary: w rs ws)
  case Nil
  then show ?case by (simp add: notify_list_def)
next
  case (Cons a xs)
  let ?v = "wait_notify a w"
  note r = loop_repD [OF Cons.prems(1)]
  have d: "distinct ws" using r(6) by simp
  have act: "filter (op_active ?v) xs = filter (op_active w) xs" using Cons.prems(2) by (intro filter_cong) auto
  show ?case
  proof (cases "op_active w a")
    case True
    then have a: "a \<in> set ws" using Cons.prems(4) by simp
    have "loop_rep (notify_list xs ?v) l {} ((rs @ [a]) @ filter (op_active ?v) xs) ts (filter (\<lambda>b. b \<notin> set xs) (remove1 a ws)) ns"
      using Cons.prems a d by (intro Cons.IH rep_wait_notify) (auto split: if_splits)
    moreover have "filter (\<lambda>b. b \<notin> set xs) (remove1 a ws) = filter (\<lambda>b. b \<notin> set (a # xs)) ws"
      using d by (auto simp: filter_neq_remove1 intro: filter_cong)
    ultimately show ?thesis using True act by (simp add: notify_list_def)
  next
    case False
    then have "a \<notin> set ws" using r(9) Cons.prems(3) by auto
    then have "filter (\<lambda>b. b \<notin> set xs) ws = filter (\<lambda>b. b \<notin> set (a # xs)) ws" by (auto intro: filter_cong)
    moreover have "loop_rep (notify_list xs w) l {} (rs @ filter (op_active w) xs) ts (filter (\<lambda>b. b \<notin> set xs) ws) ns"
      using Cons.prems by (intro Cons.IH) auto
    ultimately show ?thesis using False wait_notify_retired [OF False] by (simp add: notify_list_def)
  qed
qed

subsection \<open>Correctness\<close>

text \<open>C34: \<^verbatim>\<open>set\<close> ends and queues every coroutine that waits on the event exactly once, the latest
  first; awaiters already retired by cancellation are not queued again, and afterwards nobody
  is left waiting on the set event.\<close>

theorem event_set_wakes:
  assumes loop: "loop_rep w l {} rs ts ws ns" and rep: "event_rep w e l xs ws" and t: "loop_check t l w"
  shows "\<exists>w'. event_set t e w = Some (Inr (), w') \<and> ev_set w' e \<and>
    loop_rep w' l {} (rs @ filter (op_active w) xs) ts (filter (\<lambda>a. a \<notin> set xs) ws) ns \<and>
    event_rep w' e l xs (filter (\<lambda>a. a \<notin> set xs) ws)"
proof -
  note E = event_repD [OF rep]
  let ?u = "w\<lparr>ev_set := (ev_set w)(e := True)\<rparr>"
  have ch: "chain (aw_next ?u) (ev_head w e) xs" using E(2) by (simp add: dll_def)
  have "event_set t e w = Some (Inr (), notify_list xs ?u)"
    using t E(1) notify_from_list [OF ch] by (simp add: event_set_def)
  moreover have "loop_rep ?u l {} rs ts ws ns" using loop by (simp add: rep_event_set)
  from rep_notify_list [OF this dll_distinct [OF E(2)]] E(4,5)
  have "loop_rep (notify_list xs ?u) l {} (rs @ filter (op_active w) xs) ts (filter (\<lambda>a. a \<notin> set xs) ws) ns" by simp
  moreover have "event_rep (notify_list xs ?u) e l xs (filter (\<lambda>a. a \<notin> set xs) ws)"
    using E by (simp add: event_rep_def)
  ultimately show ?thesis by (intro exI [of _ "notify_list xs ?u"]) simp
qed

text \<open>Awaiting an event never strands a coroutine: on an unset event it parks and is linked to the
  event, on a set one it goes straight to the ready queue; in both cases the structure of loop
  and event is kept, so nobody waits on a set event.\<close>

theorem event_await_parks:
  assumes loop: "loop_rep w l {} rs ts ws ns" and rep: "event_rep w e l xs ws" and t: "loop_check t l w"
    and a: "op_fresh w l a" "wt_prev w a = None" "aw_event w a = e" "aw_prev w a = None" "a \<notin> set xs"
    and ok: "wt_interruptible w a \<longrightarrow> \<not> refused l (op_token w a) w"
  shows "\<exists>w'. awaiter_suspend t a h w = (Inr True, w') \<and> op_handle w' a = h \<and>
    (if ev_set w e then loop_rep w' l {} (rs @ [a]) ts ws ns \<and> event_rep w' e l (a # xs) ws
     else loop_rep w' l {} rs ts (a # ws) ns \<and> event_rep w' e l (a # xs) (a # ws) \<and> op_active w' a)"
proof -
  note E = event_repD [OF rep]
  obtain w1 where p: "wait_park t a h (op_token w a) w = (Inr True, w1)" "loop_rep w1 l {} rs ts (a # ws) ns"
    "op_handle w1 a = h" "op_owner w1 = op_owner w"
    by (rule wait_park_parks [OF loop a(1,2) t, of "op_token w a" h]) (use ok in auto)
  note f = event_fields_park [OF p(1)]
  let ?v = "awaiter_link a w1"
  have lv: "loop_rep ?v l {} rs ts (a # ws) ns" by (rule rep_awaiter_link [OF p(2)])
  note R = loop_repD [OF lv]
  have own: "op_owner w a = l" using a(1) by (simp add: op_fresh_def)
  have dl: "dll ((aw_next ?v, aw_prev ?v), ev_head ?v e) (a # xs)"
    using dl.rep_add [OF E(2) a(5)] a(3,4) f by (auto simp: awaiter_link_def split: prod.splits)
  have mem: "op_active ?v b \<longrightarrow> b \<in> set (a # ws)" if "b \<in> set xs" for b
  proof -
    have "op_owner ?v b = l" "op_owner w b = l" using that E(4) p(4) by simp_all
    then have "op_active ?v b = (b \<in> set (ts @ (a # ws) @ ns))" "op_active w b = (b \<in> set (ts @ ws @ ns))"
      using R(9) [of b] loop_repD(9) [OF loop, of b] by auto
    then show ?thesis using E(5) [OF that] by auto
  qed
  have ev: "aw_event ?v b = e \<and> op_owner ?v b = l" if "b \<in> set (a # xs)" for b
    using that E(3,4) a(3) own p(4) f by auto
  show ?thesis
  proof (cases "ev_set w e")
    case False
    have "awaiter_suspend t a h w = (Inr True, ?v)" using p(1) False f a(3) by (simp add: awaiter_suspend_def Let_def)
    moreover have "event_rep ?v e l (a # xs) (a # ws)"
      using dl mem ev E(1) f False unfolding event_rep_def by auto
    moreover have "op_active ?v a" using R(9) [of a] own p(4) by simp
    ultimately show ?thesis using lv p(3) False by (intro exI [of _ ?v]) simp
  next
    case True
    let ?n = "wait_notify a ?v"
    have "awaiter_suspend t a h w = (Inr True, ?n)" using p(1) True f a(3) by (simp add: awaiter_suspend_def Let_def)
    moreover have "loop_rep ?n l {} (rs @ [a]) ts ws ns" using rep_wait_notify [OF lv, of a] by simp
    moreover have "\<not> op_active ?n b" if "b \<in> set (a # xs)" for b
    proof (cases "b = a")
      case False
      then have "b \<in> set xs" "b \<notin> set ws" using that E(5,6) [of b] True loop_repD(9) [OF loop, of b] E(4) by auto
      then show ?thesis using mem [of b] False by auto
    qed simp
    then have "event_rep ?n e l (a # xs) ws" using dl ev E(1) f unfolding event_rep_def by auto
    ultimately show ?thesis using p(3) True by (intro exI [of _ ?n]) simp
  qed
qed

text \<open>Event 0 of loop 0, unset, with coroutine 4 waiting on it.\<close>

definition event_world :: events where
  "event_world = world.extend
     (world_init\<lparr>loops := (loops world_init)(0 := (loop_init 0)\<lparr>lp_waits := Some 4\<rparr>), op_active := (\<lambda>a. False)(4 := True)\<rparr>)
     \<lparr>ev_loop = \<lambda>e. 0, ev_set = \<lambda>e. False, ev_head = (\<lambda>e. None)(0 := Some 4), aw_event = \<lambda>a. 0,
      aw_next = \<lambda>a. None, aw_prev = \<lambda>a. None, aw_linked = (\<lambda>a. False)(4 := True)\<rparr>"

lemmas event_world_simps = event_world_def world.defs world_init_def loop_init_def rq_init_def

lemma event_world_rep: "loop_rep event_world 0 {} [] [] [4] []" "event_rep event_world 0 0 [4] [4]"
  "loop_check 0 0 event_world"
  by (auto simp: event_world_simps loop_rep_def rq_rep_def dll_def is_heap_def event_rep_def loop_check_def)

theorem event_set_wakes_witness:
  "\<exists>w'. event_set 0 0 event_world = Some (Inr (), w') \<and> loop_rep w' 0 {} [4] [] [] []"
proof -
  have "op_active event_world 4" by (simp add: event_world_simps)
  with event_set_wakes [OF event_world_rep] show ?thesis by auto
qed

theorem event_await_parks_witness:
  "\<exists>w'. awaiter_suspend 0 6 9 event_world = (Inr True, w') \<and> loop_rep w' 0 {} [] [] [6, 4] [] \<and> event_rep w' 0 0 [6, 4] [6, 4]"
proof -
  have "op_fresh event_world 0 6" "wt_prev event_world 6 = None" "aw_event event_world 6 = 0" "aw_prev event_world 6 = None"
    "6 \<notin> set [4 :: nat]" "wt_interruptible event_world 6 \<longrightarrow> \<not> refused 0 (op_token event_world 6) event_world"
    by (simp_all add: event_world_simps op_fresh_def loop_stopped_def stop_requested_def)
  from event_await_parks [OF event_world_rep this, of 9] show ?thesis by (auto simp: event_world_simps)
qed

end
