(* ===== verification/Ports.thy ===== *)
theory Ports
  imports Event
begin

text \<open>
  Native requests as objects (\<^verbatim>\<open>detail/io.hpp\<close>), endpoints, TCP sockets, UDP sockets and files
  (\<^verbatim>\<open>socket.cpp\<close>, \<^verbatim>\<open>udp.cpp\<close>, \<^verbatim>\<open>file.cpp\<close>) as they are on Linux.  System calls are the
  record \<open>sys\<close> of functions over an unknown state \<open>'o\<close>; a negative result is a negated error
  number.  Awaiting a request is a parameter of the coroutines: suspension, completion and
  resumption are modelled in \<open>Loop\<close> and \<open>Uring\<close>.
\<close>

unbundle bit_operations_syntax

subsection \<open>Endpoints\<close>

record endpoint =
  ep_family :: nat
  ep_host :: nat
  ep_port_be :: "16 word"
  ep_size :: nat

definition AF_INET :: nat where "AF_INET = 2"
definition AF_INET6 :: nat where "AF_INET6 = 10"
definition size_in :: nat where "size_in = 16"
definition size_in6 :: nat where "size_in6 = 28"
definition size_storage :: nat where "size_storage = 128"

text \<open>\<^verbatim>\<open>htons\<close> and \<^verbatim>\<open>ntohs\<close> on a little-endian machine.\<close>

definition htons :: "16 word \<Rightarrow> 16 word" where
  "htons x = push_bit 8 x OR drop_bit 8 x"

text \<open>The parsers of numeric addresses, \<^verbatim>\<open>inet_pton\<close> for each family, are parameters.\<close>

definition endpoint_of :: "(string \<Rightarrow> nat option) \<Rightarrow> (string \<Rightarrow> nat option) \<Rightarrow> string \<Rightarrow> 16 word \<Rightarrow> exn + endpoint" where
  "endpoint_of pton4 pton6 ip port =
     (if CHR 0x00 \<in> set ip then Inl (Invalid_Argument ''invalid address'')
      else case pton4 ip of
        Some h \<Rightarrow> Inr \<lparr>ep_family = AF_INET, ep_host = h, ep_port_be = htons port, ep_size = size_in\<rparr>
      | None \<Rightarrow>
          (case pton6 ip of
             None \<Rightarrow> Inl (Invalid_Argument ''invalid numeric address'')
           | Some h \<Rightarrow> Inr \<lparr>ep_family = AF_INET6, ep_host = h, ep_port_be = htons port, ep_size = size_in6\<rparr>))"

definition endpoint_port :: "endpoint \<Rightarrow> 16 word" where
  "endpoint_port e = (if ep_family e = AF_INET then htons (ep_port_be e) else htons (ep_port_be e))"

subsection \<open>Native requests\<close>

type_synonym sock_id = nat
type_synonym file_id = nat

text \<open>A socket's two directions are the slots \<open>2 * s\<close> (reading) and \<open>2 * s + 1\<close> (writing).\<close>

record 'o ports = events +
  os :: 'o
  io_fd :: "addr \<Rightarrow> int"
  io_buf :: "addr \<Rightarrow> nat"
  io_offset :: "addr \<Rightarrow> 64 word"
  io_peer :: "addr \<Rightarrow> endpoint option"
  io_addr_size :: "addr \<Rightarrow> nat"
  io_accepted :: "addr \<Rightarrow> int"
  io_bytes :: "addr \<Rightarrow> nat"
  sk_loop :: "sock_id \<Rightarrow> loop_id"
  sk_fd :: "sock_id \<Rightarrow> int"
  fl_loop :: "file_id \<Rightarrow> loop_id"
  fl_fd :: "file_id \<Rightarrow> int"
  fl_active :: "file_id \<Rightarrow> nat"

record 'o sys =
  sys_socket :: "nat \<Rightarrow> nat \<Rightarrow> 'o \<Rightarrow> int \<times> 'o"
  sys_cloexec :: "int \<Rightarrow> 'o \<Rightarrow> int \<times> 'o"
  sys_setsockopt :: "int \<Rightarrow> nat \<Rightarrow> nat \<Rightarrow> int \<Rightarrow> 'o \<Rightarrow> int \<times> 'o"
  sys_bind :: "int \<Rightarrow> endpoint \<Rightarrow> 'o \<Rightarrow> int \<times> 'o"
  sys_listen :: "int \<Rightarrow> int \<Rightarrow> 'o \<Rightarrow> int \<times> 'o"
  sys_shutdown :: "int \<Rightarrow> 'o \<Rightarrow> int \<times> 'o"
  sys_getsockname :: "int \<Rightarrow> 'o \<Rightarrow> int \<times> endpoint"
  sys_open :: "string \<Rightarrow> nat set \<Rightarrow> 'o \<Rightarrow> int \<times> 'o"
  sys_fstat :: "int \<Rightarrow> 'o \<Rightarrow> int \<times> bool"
  sys_close :: "int \<Rightarrow> 'o \<Rightarrow> 'o"

definition sys_exn :: "int \<Rightarrow> exn" where
  "sys_exn n = System_Error (Errno (nat (- n)))"

text \<open>\<^verbatim>\<open>detail::close\<close>: closing an invalid descriptor does nothing.\<close>

definition close_fd :: "'o sys \<Rightarrow> int \<Rightarrow> ('o, 'z) ports_scheme \<Rightarrow> ('o, 'z) ports_scheme" where
  "close_fd S fd w = (if fd = -1 then w else w\<lparr>os := sys_close S fd (os w)\<rparr>)"

text \<open>The constructor of \<^verbatim>\<open>detail::io\<close>.\<close>

definition io_init :: "loop_id \<Rightarrow> opcode \<Rightarrow> int \<Rightarrow> nat \<Rightarrow> nat \<Rightarrow> token_id option \<Rightarrow> nat option \<Rightarrow> addr \<Rightarrow> ('o, 'z) ports_scheme \<Rightarrow> ('o, 'z) ports_scheme" where
  "io_init l kind fd buf len k slot a w =
     w\<lparr>op_owner := (op_owner w)(a := l), op_error := (op_error w)(a := None), op_canceled := (op_canceled w)(a := False),
       op_active := (op_active w)(a := False), op_token := (op_token w)(a := k), r_next := (r_next w)(a := None),
       io_code := (io_code w)(a := kind), io_fd := (io_fd w)(a := fd), io_buf := (io_buf w)(a := buf),
       io_size := (io_size w)(a := len), io_offset := (io_offset w)(a := 0), io_peer := (io_peer w)(a := None),
       io_addr_size := (io_addr_size w)(a := 0), io_accepted := (io_accepted w)(a := -1), io_bytes := (io_bytes w)(a := 0),
       io_next := (io_next w)(a := None), io_prev := (io_prev w)(a := None), io_cancel_sent := (io_cancel_sent w)(a := False),
       io_hook := (io_hook w)(a := False), io_busy := (io_busy w)(a := slot), io_reserved := (io_reserved w)(a := False)\<rparr>"

text \<open>\<^verbatim>\<open>~io\<close>, and with the check of \<^verbatim>\<open>~op\<close> (\<^const>\<open>None\<close> is \<^verbatim>\<open>std::terminate\<close>).\<close>

definition io_cleanup :: "'o sys \<Rightarrow> addr \<Rightarrow> ('o, 'z) ports_scheme \<Rightarrow> ('o, 'z) ports_scheme" where
  "io_cleanup S a w = close_fd S (io_accepted w a) (io_release a w)"

definition io_destroy :: "'o sys \<Rightarrow> addr \<Rightarrow> ('o, 'z) ports_scheme \<Rightarrow> ('o, 'z) ports_scheme option" where
  "io_destroy S a w = (let w1 = io_cleanup S a w in if op_active w1 a then None else Some w1)"

text \<open>\<^verbatim>\<open>io::await_resume\<close>: give the direction back, then throw or return the byte count.\<close>

definition io_resume :: "addr \<Rightarrow> ('o, 'z) ports_scheme \<Rightarrow> (nat, ('o, 'z) ports_scheme) result" where
  "io_resume a w =
     (let w1 = io_release a w in
      case op_resume a w1 of Inl e \<Rightarrow> (Inl e, w1) | Inr _ \<Rightarrow> (Inr (io_bytes w1 a), w1))"

subsection \<open>Sockets\<close>

definition INT_MAX :: nat where "INT_MAX = 2147483647"

definition clip :: "nat \<Rightarrow> nat" where
  "clip n = min n INT_MAX"

definition reading :: "sock_id \<Rightarrow> nat" where "reading s = 2 * s"
definition writing :: "sock_id \<Rightarrow> nat" where "writing s = 2 * s + 1"

definition socket_check :: "thread_id \<Rightarrow> sock_id \<Rightarrow> ('o, 'z) ports_scheme \<Rightarrow> exn + unit" where
  "socket_check t s w =
     (if \<not> loop_check t (sk_loop w s) w then Inl wrong_thread
      else if sk_fd w s = -1 then Inl (Logic_Error ''empty socket'') else Inr ())"

definition SOCK_STREAM :: nat where "SOCK_STREAM = 1"
definition SOCK_DGRAM :: nat where "SOCK_DGRAM = 2"
definition SOL_SOCKET :: nat where "SOL_SOCKET = 1"
definition SO_REUSEADDR :: nat where "SO_REUSEADDR = 2"
definition IPPROTO_TCP :: nat where "IPPROTO_TCP = 6"
definition TCP_NODELAY :: nat where "TCP_NODELAY = 1"

definition socket_open :: "'o sys \<Rightarrow> nat \<Rightarrow> nat \<Rightarrow> ('o, 'z) ports_scheme \<Rightarrow> (int, ('o, 'z) ports_scheme) result" where
  "socket_open S family kind w =
     (case sys_socket S family kind (os w) of (fd, o') \<Rightarrow>
        let w1 = w\<lparr>os := o'\<rparr> in if fd < 0 then (Inl (sys_exn fd), w1) else (Inr fd, w1))"

text \<open>The adopting constructor: the descriptor is closed when configuration fails.\<close>

definition socket_adopt :: "'o sys \<Rightarrow> thread_id \<Rightarrow> loop_id \<Rightarrow> int \<Rightarrow> sock_id \<Rightarrow> ('o, 'z) ports_scheme \<Rightarrow> (unit, ('o, 'z) ports_scheme) result" where
  "socket_adopt S t l fd s w =
     (let w1 = w\<lparr>sk_loop := (sk_loop w)(s := l), sk_fd := (sk_fd w)(s := fd),
                 busy_slot := (busy_slot w)(reading s := False, writing s := False)\<rparr> in
      case socket_check t s w1 of
        Inl e \<Rightarrow> (Inl e, close_fd S fd w1)
      | Inr _ \<Rightarrow>
          (case sys_cloexec S fd (os w1) of (r, o') \<Rightarrow>
             let w2 = w1\<lparr>os := o'\<rparr> in
             if r < 0 then (Inl (sys_exn r), close_fd S fd w2) else (Inr (), w2)))"

definition socket_busy :: "sock_id \<Rightarrow> ('o, 'z) ports_scheme \<Rightarrow> bool" where
  "socket_busy s w \<longleftrightarrow> busy_slot w (reading s) \<or> busy_slot w (writing s)"

definition socket_move :: "thread_id \<Rightarrow> sock_id \<Rightarrow> sock_id \<Rightarrow> ('o, 'z) ports_scheme \<Rightarrow> (unit, ('o, 'z) ports_scheme) result" where
  "socket_move t other s w =
     (let w1 = w\<lparr>sk_loop := (sk_loop w)(s := sk_loop w other), sk_fd := (sk_fd w)(s := -1),
                 busy_slot := (busy_slot w)(reading s := False, writing s := False)\<rparr> in
      case socket_check t other w1 of
        Inl e \<Rightarrow> (Inl e, w1)
      | Inr _ \<Rightarrow>
          if socket_busy other w1 then (Inl (Logic_Error ''move of busy socket''), w1)
          else (Inr (), w1\<lparr>sk_fd := (sk_fd w1)(s := sk_fd w1 other, other := -1)\<rparr>))"

definition socket_destroy :: "'o sys \<Rightarrow> sock_id \<Rightarrow> ('o, 'z) ports_scheme \<Rightarrow> ('o, 'z) ports_scheme option" where
  "socket_destroy S s w = (if socket_busy s w then None else Some (close_fd S (sk_fd w s) w))"

text \<open>A system call on the descriptor of a socket whose failure is thrown.\<close>

definition sys_call :: "('o \<Rightarrow> int \<times> 'o) \<Rightarrow> ('o, 'z) ports_scheme \<Rightarrow> (unit, ('o, 'z) ports_scheme) result" where
  "sys_call f w = (case f (os w) of (r, o') \<Rightarrow> let w1 = w\<lparr>os := o'\<rparr> in if r < 0 then (Inl (sys_exn r), w1) else (Inr (), w1))"

text \<open>\<^verbatim>\<open>socket::listen\<close>; the local socket is destroyed when a call throws.\<close>

definition socket_listen :: "'o sys \<Rightarrow> thread_id \<Rightarrow> loop_id \<Rightarrow> endpoint \<Rightarrow> int \<Rightarrow> sock_id \<Rightarrow> ('o, 'z) ports_scheme \<Rightarrow> (unit, ('o, 'z) ports_scheme) result" where
  "socket_listen S t l address backlog s w =
     (if \<not> loop_check t l w then (Inl wrong_thread, w)
      else if backlog \<le> 0 then (Inl (Invalid_Argument ''invalid backlog''), w)
      else case socket_open S (ep_family address) SOCK_STREAM w of
        (Inl e, w1) \<Rightarrow> (Inl e, w1)
      | (Inr fd, w1) \<Rightarrow>
          (case socket_adopt S t l fd s w1 of
             (Inl e, w2) \<Rightarrow> (Inl e, w2)
           | (Inr _, w2) \<Rightarrow>
               (case sys_call (sys_setsockopt S fd SOL_SOCKET SO_REUSEADDR 1) w2 of
                  (Inl e, w3) \<Rightarrow> (Inl e, close_fd S fd w3)
                | (Inr _, w3) \<Rightarrow>
                    (case sys_call (sys_bind S fd address) w3 of
                       (Inl e, w4) \<Rightarrow> (Inl e, close_fd S fd w4)
                     | (Inr _, w4) \<Rightarrow>
                         (case sys_call (sys_listen S fd backlog) w4 of
                            (Inl e, w5) \<Rightarrow> (Inl e, close_fd S fd w5)
                          | (Inr _, w5) \<Rightarrow> (Inr (), w5))))))"

text \<open>
  Coroutines await a request at address \<open>a\<close> of their frame; \<open>await\<close> runs it to its resumption.
  \<^verbatim>\<open>socket::connect\<close> and \<^verbatim>\<open>socket::accept\<close>.
\<close>

definition socket_connect :: "'o sys \<Rightarrow> (addr \<Rightarrow> ('o, 'z) ports_scheme \<Rightarrow> (nat, ('o, 'z) ports_scheme) result) \<Rightarrow>
    thread_id \<Rightarrow> loop_id \<Rightarrow> endpoint \<Rightarrow> token_id option \<Rightarrow> addr \<Rightarrow> sock_id \<Rightarrow> ('o, 'z) ports_scheme \<Rightarrow> (unit, ('o, 'z) ports_scheme) result" where
  "socket_connect S await t l address k a s w =
     (if \<not> loop_check t l w then (Inl wrong_thread, w)
      else case socket_open S (ep_family address) SOCK_STREAM w of
        (Inl e, w1) \<Rightarrow> (Inl e, w1)
      | (Inr fd, w1) \<Rightarrow>
          (case socket_adopt S t l fd s w1 of
             (Inl e, w2) \<Rightarrow> (Inl e, w2)
           | (Inr _, w2) \<Rightarrow>
               (let w3 = io_init l Op_Connect fd 0 0 k None a w2;
                    w4 = w3\<lparr>io_peer := (io_peer w3)(a := Some address), io_addr_size := (io_addr_size w3)(a := ep_size address)\<rparr> in
                case await a w4 of
                  (Inl e, w5) \<Rightarrow> (Inl e, close_fd S fd (io_cleanup S a w5))
                | (Inr _, w5) \<Rightarrow> (Inr (), io_cleanup S a w5))))"

definition socket_accept :: "'o sys \<Rightarrow> (addr \<Rightarrow> ('o, 'z) ports_scheme \<Rightarrow> (nat, ('o, 'z) ports_scheme) result) \<Rightarrow>
    thread_id \<Rightarrow> sock_id \<Rightarrow> token_id option \<Rightarrow> addr \<Rightarrow> sock_id \<Rightarrow> ('o, 'z) ports_scheme \<Rightarrow> (unit, ('o, 'z) ports_scheme) result" where
  "socket_accept S await t s k a peer w =
     (case socket_check t s w of
        Inl e \<Rightarrow> (Inl e, w)
      | Inr _ \<Rightarrow>
          (case await a (io_init (sk_loop w s) Op_Accept (sk_fd w s) 0 0 k (Some (reading s)) a w) of
             (Inl e, w1) \<Rightarrow> (Inl e, io_cleanup S a w1)
           | (Inr _, w1) \<Rightarrow>
               (case socket_adopt S t (sk_loop w1 s) (io_accepted w1 a) peer (w1\<lparr>io_accepted := (io_accepted w1)(a := -1)\<rparr>) of
                  (r, w2) \<Rightarrow> (r, io_cleanup S a w2))))"

definition socket_read :: "thread_id \<Rightarrow> sock_id \<Rightarrow> nat \<Rightarrow> nat \<Rightarrow> token_id option \<Rightarrow> addr \<Rightarrow> ('o, 'z) ports_scheme \<Rightarrow> (unit, ('o, 'z) ports_scheme) result" where
  "socket_read t s buf len k a w =
     (case socket_check t s w of
        Inl e \<Rightarrow> (Inl e, w)
      | Inr _ \<Rightarrow> (Inr (), io_init (sk_loop w s) Op_Read (sk_fd w s) buf (clip len) k (Some (reading s)) a w))"

definition socket_write :: "thread_id \<Rightarrow> sock_id \<Rightarrow> nat \<Rightarrow> nat \<Rightarrow> token_id option \<Rightarrow> addr \<Rightarrow> ('o, 'z) ports_scheme \<Rightarrow> (unit, ('o, 'z) ports_scheme) result" where
  "socket_write t s buf len k a w =
     (case socket_check t s w of
        Inl e \<Rightarrow> (Inl e, w)
      | Inr _ \<Rightarrow> (Inr (), io_init (sk_loop w s) Op_Write (sk_fd w s) buf (clip len) k (Some (writing s)) a w))"

definition socket_shutdown :: "'o sys \<Rightarrow> thread_id \<Rightarrow> sock_id \<Rightarrow> ('o, 'z) ports_scheme \<Rightarrow> (unit, ('o, 'z) ports_scheme) result" where
  "socket_shutdown S t s w =
     (case socket_check t s w of
        Inl e \<Rightarrow> (Inl e, w)
      | Inr _ \<Rightarrow>
          if busy_slot w (writing s) then (Inl (Logic_Error ''shutdown during write''), w)
          else sys_call (sys_shutdown S (sk_fd w s)) w)"

definition socket_nodelay :: "'o sys \<Rightarrow> thread_id \<Rightarrow> sock_id \<Rightarrow> bool \<Rightarrow> ('o, 'z) ports_scheme \<Rightarrow> (unit, ('o, 'z) ports_scheme) result" where
  "socket_nodelay S t s enabled w =
     (case socket_check t s w of
        Inl e \<Rightarrow> (Inl e, w)
      | Inr _ \<Rightarrow> sys_call (sys_setsockopt S (sk_fd w s) IPPROTO_TCP TCP_NODELAY (if enabled then 1 else 0)) w)"

definition socket_local :: "'o sys \<Rightarrow> thread_id \<Rightarrow> sock_id \<Rightarrow> ('o, 'z) ports_scheme \<Rightarrow> exn + endpoint" where
  "socket_local S t s w =
     (case socket_check t s w of
        Inl e \<Rightarrow> Inl e
      | Inr _ \<Rightarrow> (case sys_getsockname S (sk_fd w s) (os w) of (r, e) \<Rightarrow> if r < 0 then Inl (sys_exn r) else Inr e))"

text \<open>\<^verbatim>\<open>write_all\<close>: \<open>write p n\<close> is one awaited \<^verbatim>\<open>socket.write\<close> of \<open>n\<close> bytes from \<open>p\<close>.\<close>

partial_function (option) write_all :: "(nat \<Rightarrow> nat \<Rightarrow> 'w \<Rightarrow> (nat, 'w) result) \<Rightarrow> nat \<Rightarrow> nat \<Rightarrow> 'w \<Rightarrow> (unit, 'w) result option" where
  "write_all write p len w =
     (if len = 0 then Some (Inr (), w)
      else case write p len w of (r, w1) \<Rightarrow>
        (case r of
           Inl e \<Rightarrow> Some (Inl e, w1)
         | Inr n \<Rightarrow>
             if n = 0 then Some (Inl (System_Error Broken_Pipe), w1)
             else write_all write (p + n) (len - n) w1))"

definition socket_write_await :: "'o sys \<Rightarrow> (addr \<Rightarrow> ('o, 'z) ports_scheme \<Rightarrow> (nat, ('o, 'z) ports_scheme) result) \<Rightarrow> thread_id \<Rightarrow> sock_id \<Rightarrow>
    token_id option \<Rightarrow> addr \<Rightarrow> nat \<Rightarrow> nat \<Rightarrow> ('o, 'z) ports_scheme \<Rightarrow> (nat, ('o, 'z) ports_scheme) result" where
  "socket_write_await S await t s k a p len w =
     (case socket_write t s p len k a w of
        (Inl e, w1) \<Rightarrow> (Inl e, w1)
      | (Inr _, w1) \<Rightarrow> (case await a w1 of (r, w2) \<Rightarrow> (r, io_cleanup S a w2)))"

definition socket_write_all :: "'o sys \<Rightarrow> (addr \<Rightarrow> ('o, 'z) ports_scheme \<Rightarrow> (nat, ('o, 'z) ports_scheme) result) \<Rightarrow> thread_id \<Rightarrow> sock_id \<Rightarrow>
    token_id option \<Rightarrow> addr \<Rightarrow> nat \<Rightarrow> nat \<Rightarrow> ('o, 'z) ports_scheme \<Rightarrow> (unit, ('o, 'z) ports_scheme) result option" where
  "socket_write_all S await t s k a = write_all (socket_write_await S await t s k a)"

subsection \<open>Datagram sockets\<close>

definition udp_bind :: "'o sys \<Rightarrow> thread_id \<Rightarrow> loop_id \<Rightarrow> endpoint \<Rightarrow> sock_id \<Rightarrow> ('o, 'z) ports_scheme \<Rightarrow> (unit, ('o, 'z) ports_scheme) result" where
  "udp_bind S t l address s w =
     (case socket_open S (ep_family address) SOCK_DGRAM w of
        (Inl e, w1) \<Rightarrow> (Inl e, w1)
      | (Inr fd, w1) \<Rightarrow>
          (case socket_adopt S t l fd s w1 of
             (Inl e, w2) \<Rightarrow> (Inl e, w2)
           | (Inr _, w2) \<Rightarrow>
               (case sys_call (sys_bind S fd address) w2 of
                  (Inl e, w3) \<Rightarrow> (Inl e, close_fd S fd w3)
                | (Inr _, w3) \<Rightarrow> (Inr (), w3))))"

definition udp_recv :: "'o sys \<Rightarrow> (addr \<Rightarrow> ('o, 'z) ports_scheme \<Rightarrow> (nat, ('o, 'z) ports_scheme) result) \<Rightarrow>
    thread_id \<Rightarrow> sock_id \<Rightarrow> nat \<Rightarrow> nat \<Rightarrow> token_id option \<Rightarrow> addr \<Rightarrow> ('o, 'z) ports_scheme \<Rightarrow> (nat \<times> endpoint option \<times> nat, ('o, 'z) ports_scheme) result" where
  "udp_recv S await t s buf len k a w =
     (case socket_check t s w of
        Inl e \<Rightarrow> (Inl e, w)
      | Inr _ \<Rightarrow>
          (let w1 = io_init (sk_loop w s) Op_Recv_From (sk_fd w s) buf (clip len) k (Some (reading s)) a w in
           case await a (w1\<lparr>io_addr_size := (io_addr_size w1)(a := size_storage)\<rparr>) of
             (Inl e, w2) \<Rightarrow> (Inl e, io_cleanup S a w2)
           | (Inr n, w2) \<Rightarrow> (Inr (n, io_peer w2 a, io_addr_size w2 a), io_cleanup S a w2)))"

definition udp_send :: "'o sys \<Rightarrow> (addr \<Rightarrow> ('o, 'z) ports_scheme \<Rightarrow> (nat, ('o, 'z) ports_scheme) result) \<Rightarrow>
    thread_id \<Rightarrow> sock_id \<Rightarrow> nat \<Rightarrow> nat \<Rightarrow> endpoint \<Rightarrow> token_id option \<Rightarrow> addr \<Rightarrow> ('o, 'z) ports_scheme \<Rightarrow> (nat, ('o, 'z) ports_scheme) result" where
  "udp_send S await t s buf len peer k a w =
     (case socket_check t s w of
        Inl e \<Rightarrow> (Inl e, w)
      | Inr _ \<Rightarrow>
          if len > 65507 then (Inl (System_Error Message_Size), w)
          else
            (let w1 = io_init (sk_loop w s) Op_Send_To (sk_fd w s) buf len k (Some (writing s)) a w in
             case await a (w1\<lparr>io_peer := (io_peer w1)(a := Some peer), io_addr_size := (io_addr_size w1)(a := ep_size peer)\<rparr>) of
               (Inl e, w2) \<Rightarrow> (Inl e, io_cleanup S a w2)
             | (Inr n, w2) \<Rightarrow> (if n \<noteq> len then Inl (System_Error Message_Size) else Inr n, io_cleanup S a w2)))"

subsection \<open>Files\<close>

datatype file_mode = Mode_Read | Mode_Read_Write | Mode_Create

definition O_RDONLY :: nat where "O_RDONLY = 0"
definition O_RDWR :: nat where "O_RDWR = 2"
definition O_CREAT :: nat where "O_CREAT = 64"
definition O_EXCL :: nat where "O_EXCL = 128"
definition O_NONBLOCK :: nat where "O_NONBLOCK = 2048"
definition O_DIRECT :: nat where "O_DIRECT = 16384"
definition O_CLOEXEC :: nat where "O_CLOEXEC = 524288"

definition file_flags :: "file_mode \<Rightarrow> bool \<Rightarrow> nat set" where
  "file_flags access direct =
     {if access = Mode_Read then O_RDONLY else O_RDWR} \<union> (if direct then {O_DIRECT} else {}) \<union>
     (if access = Mode_Create then {O_CREAT, O_EXCL} else {}) \<union> {O_CLOEXEC, O_NONBLOCK}"

definition file_close :: "'o sys \<Rightarrow> file_id \<Rightarrow> ('o, 'z) ports_scheme \<Rightarrow> ('o, 'z) ports_scheme" where
  "file_close S f w =
     (if fl_fd w f = -1 then w
      else (let w1 = w\<lparr>os := sys_close S (fl_fd w f) (os w)\<rparr> in w1\<lparr>fl_fd := (fl_fd w1)(f := -1)\<rparr>))"

definition file_open :: "'o sys \<Rightarrow> thread_id \<Rightarrow> loop_id \<Rightarrow> string \<Rightarrow> file_mode \<Rightarrow> bool \<Rightarrow> file_id \<Rightarrow> ('o, 'z) ports_scheme \<Rightarrow> (unit, ('o, 'z) ports_scheme) result" where
  "file_open S t l path access direct f w =
     (let w0 = w\<lparr>fl_loop := (fl_loop w)(f := l), fl_fd := (fl_fd w)(f := -1), fl_active := (fl_active w)(f := 0)\<rparr> in
      if \<not> loop_check t l w0 then (Inl wrong_thread, w0)
      else if path = [] \<or> CHR 0x00 \<in> set path then (Inl (Invalid_Argument ''invalid file path''), w0)
      else case sys_open S path (file_flags access direct) (os w0) of (fd, o1) \<Rightarrow>
        let w1 = w0\<lparr>os := o1, fl_fd := (fl_fd w0)(f := fd)\<rparr> in
        if fd < 0 then (Inl (sys_exn fd), w1)
        else (case sys_fstat S fd (os w1) of (r, regular) \<Rightarrow>
                if r < 0 then (Inl (sys_exn r), file_close S f w1)
                else if \<not> regular then (Inl (Invalid_Argument ''not a regular file''), file_close S f w1)
                else (Inr (), w1)))"

definition file_check :: "thread_id \<Rightarrow> file_id \<Rightarrow> ('o, 'z) ports_scheme \<Rightarrow> exn + unit" where
  "file_check t f w =
     (if \<not> loop_check t (fl_loop w f) w then Inl wrong_thread
      else if fl_fd w f = -1 then Inl (Logic_Error ''empty file'') else Inr ())"

definition file_move :: "thread_id \<Rightarrow> file_id \<Rightarrow> file_id \<Rightarrow> ('o, 'z) ports_scheme \<Rightarrow> (unit, ('o, 'z) ports_scheme) result" where
  "file_move t other f w =
     (let w1 = w\<lparr>fl_loop := (fl_loop w)(f := fl_loop w other), fl_fd := (fl_fd w)(f := -1), fl_active := (fl_active w)(f := 0)\<rparr> in
      case file_check t other w1 of
        Inl e \<Rightarrow> (Inl e, w1)
      | Inr _ \<Rightarrow>
          if fl_active w1 other \<noteq> 0 then (Inl (Logic_Error ''move of busy file''), w1)
          else (Inr (), w1\<lparr>fl_fd := (fl_fd w1)(f := fl_fd w1 other, other := -1)\<rparr>))"

definition file_destroy :: "'o sys \<Rightarrow> file_id \<Rightarrow> ('o, 'z) ports_scheme \<Rightarrow> ('o, 'z) ports_scheme option" where
  "file_destroy S f w = (if fl_active w f \<noteq> 0 then None else Some (file_close S f w))"

text \<open>\<^verbatim>\<open>struct use\<close>: a file is busy from the check to the end of the coroutine, however it ends.\<close>

definition file_use :: "file_id \<Rightarrow> ('o, 'z) ports_scheme \<Rightarrow> ('o, 'z) ports_scheme" where
  "file_use f w = w\<lparr>fl_active := (fl_active w)(f := fl_active w f + 1)\<rparr>"

definition file_unuse :: "file_id \<Rightarrow> ('o, 'z) ports_scheme \<Rightarrow> ('o, 'z) ports_scheme" where
  "file_unuse f w = w\<lparr>fl_active := (fl_active w)(f := fl_active w f - 1)\<rparr>"

definition file_canceled :: "loop_id \<Rightarrow> token_id option \<Rightarrow> ('o, 'z) ports_scheme \<Rightarrow> bool" where
  "file_canceled l k w \<longleftrightarrow> loop_stopped l w \<or> stop_requested k w"

definition INT64_MAX :: "64 word" where "INT64_MAX = 9223372036854775807"

definition file_range :: "nat \<Rightarrow> 64 word \<Rightarrow> bool" where
  "file_range len off \<longleftrightarrow> \<not> (off > INT64_MAX \<or> word_of_nat len > INT64_MAX - off)"

definition file_transfer :: "'o sys \<Rightarrow> (addr \<Rightarrow> ('o, 'z) ports_scheme \<Rightarrow> (nat, ('o, 'z) ports_scheme) result) \<Rightarrow>
    thread_id \<Rightarrow> file_id \<Rightarrow> nat \<Rightarrow> nat \<Rightarrow> 64 word \<Rightarrow> bool \<Rightarrow> token_id option \<Rightarrow> addr \<Rightarrow> ('o, 'z) ports_scheme \<Rightarrow> (nat, ('o, 'z) ports_scheme) result" where
  "file_transfer S await t f buf bytes off write k a w =
     (case file_check t f w of
        Inl e \<Rightarrow> (Inl e, w)
      | Inr _ \<Rightarrow>
          (let w1 = file_use f w; len = clip bytes in
           if file_canceled (fl_loop w1 f) k w1 then (Inl (System_Error Operation_Canceled), file_unuse f w1)
           else if \<not> file_range len off then (Inl (Invalid_Argument ''file offset overflow''), file_unuse f w1)
           else if len = 0 then (Inr 0, file_unuse f w1)
           else
             (let w2 = io_init (fl_loop w1 f) (if write then Op_File_Write else Op_File_Read) (fl_fd w1 f) buf len k None a w1 in
              case await a (w2\<lparr>io_offset := (io_offset w2)(a := off)\<rparr>) of (r, w3) \<Rightarrow> (r, file_unuse f (io_cleanup S a w3)))))"

definition file_flush :: "'o sys \<Rightarrow> (addr \<Rightarrow> ('o, 'z) ports_scheme \<Rightarrow> (nat, ('o, 'z) ports_scheme) result) \<Rightarrow>
    thread_id \<Rightarrow> file_id \<Rightarrow> token_id option \<Rightarrow> addr \<Rightarrow> ('o, 'z) ports_scheme \<Rightarrow> (unit, ('o, 'z) ports_scheme) result" where
  "file_flush S await t f k a w =
     (case file_check t f w of
        Inl e \<Rightarrow> (Inl e, w)
      | Inr _ \<Rightarrow>
          (let w1 = file_use f w in
           if file_canceled (fl_loop w1 f) k w1 then (Inl (System_Error Operation_Canceled), file_unuse f w1)
           else (case await a (io_init (fl_loop w1 f) Op_File_Sync (fl_fd w1 f) 0 0 k None a w1) of
                   (Inl e, w2) \<Rightarrow> (Inl e, file_unuse f (io_cleanup S a w2))
                 | (Inr _, w2) \<Rightarrow> (Inr (), file_unuse f (io_cleanup S a w2)))))"

text \<open>\<^verbatim>\<open>write_all(file&, ...)\<close>: \<open>write p n off\<close> is one awaited \<^verbatim>\<open>file.write\<close>; the offset wraps at 64 bits.\<close>

partial_function (option) file_write_all :: "(nat \<Rightarrow> nat \<Rightarrow> 64 word \<Rightarrow> 'w \<Rightarrow> (nat, 'w) result) \<Rightarrow> nat \<Rightarrow> nat \<Rightarrow> 64 word \<Rightarrow> 'w \<Rightarrow> (unit, 'w) result option" where
  "file_write_all write p len off w =
     (if len = 0 then Some (Inr (), w)
      else case write p len off w of (r, w1) \<Rightarrow>
        (case r of
           Inl e \<Rightarrow> Some (Inl e, w1)
         | Inr n \<Rightarrow>
             if n = 0 then Some (Inl (System_Error Io_Error), w1)
             else file_write_all write (p + n) (len - n) (off + word_of_nat n) w1))"

end
