(* ===== verification/Uring.thy ===== *)
theory Uring
  imports Ports
begin

text \<open>
  The Linux backend (\<^verbatim>\<open>uring.cpp\<close>): the ring of a loop, submission, cancellation and the
  processing of completions.  The kernel and liburing are not part of the program: they are the
  record \<open>kern\<close> of functions over an unknown state \<open>'k\<close>, an argument of the definitions.  A
  submission entry is modelled as the liburing preparation that made it, with its arguments,
  and the fields the program writes itself.
\<close>

subsection \<open>Submission and completion entries\<close>

datatype msg_ref = Msg_Io addr nat nat nat | Msg_User nat

datatype (plugins only: code) prep =
    Prep_Nop
  | Prep_Read int nat "32 word" "64 word" | Prep_Write int nat "32 word" "64 word"
  | Prep_Read_Fixed int nat "32 word" "64 word" int | Prep_Write_Fixed int nat "32 word" "64 word" int
  | Prep_Readv int nat "32 word" "64 word" | Prep_Writev int nat "32 word" "64 word"
  | Prep_Fsync int nat | Prep_Fallocate int int "64 word" "64 word"
  | Prep_Splice int int int int "32 word" nat
  | Prep_Recv int nat "64 word" int | Prep_Send int nat "64 word" int
  | Prep_Accept int int | Prep_Connect int nat nat
  | Prep_Recvmsg int msg_ref int | Prep_Sendmsg int msg_ref int
  | Prep_Poll_Add int nat | Prep_Cancel addr int
  | Prep_Openat int nat int nat | Prep_Openat_Direct int nat int nat "32 word"
  | Prep_Close_Direct "32 word" | Prep_Socket_Direct int int int "32 word" nat
  | Prep_Accept_Direct int int "32 word"
  | Prep_Statx int nat int nat nat | Prep_Renameat int nat int nat nat
  | Prep_Unlink nat int | Prep_Mkdir nat nat | Prep_Waitid int int nat int nat
  | Prep_Send_Zc int nat "64 word" int nat | Prep_Sendmsg_Zc int nat int
  | Prep_Recv_Multishot int | Prep_Recvmsg_Multishot int nat int | Prep_Accept_Multishot int int
  | Prep_Read_Multishot int nat nat nat | Prep_Poll_Multishot int nat | Prep_Timeout int nat nat
  | Prep_Other nat

datatype user_data = Ud_Wake | Ud_Op addr | Ud_Cancel addr

record sqe =
  sq_prep :: prep
  sq_flags :: "8 word"
  sq_ioprio :: "16 word"
  sq_buf_index :: "16 word"
  sq_buf_group :: "16 word"
  sq_data :: user_data

definition sqe_of :: "prep \<Rightarrow> sqe" where
  "sqe_of p = \<lparr>sq_prep = p, sq_flags = 0, sq_ioprio = 0, sq_buf_index = 0, sq_buf_group = 0, sq_data = Ud_Wake\<rparr>"

text \<open>
  \<^verbatim>\<open>io_uring_sqe_set_data\<close>: the wake poll carries 0, a request its address, and a cancellation
  the address with the low bit set, which alignment keeps free.
\<close>

definition sqe_set_data :: "user_data \<Rightarrow> sqe \<Rightarrow> sqe" where
  "sqe_set_data d s = s\<lparr>sq_data := d\<rparr>"

record cqe =
  cq_data :: user_data
  cq_res :: int
  cq_flags :: "32 word"

unbundle bit_operations_syntax

definition IOSQE_FIXED_FILE :: "8 word" where "IOSQE_FIXED_FILE = 1"
definition IOSQE_IO_DRAIN :: "8 word" where "IOSQE_IO_DRAIN = 2"
definition IOSQE_IO_LINK :: "8 word" where "IOSQE_IO_LINK = 4"
definition IOSQE_IO_HARDLINK :: "8 word" where "IOSQE_IO_HARDLINK = 8"
definition IOSQE_BUFFER_SELECT :: "8 word" where "IOSQE_BUFFER_SELECT = 32"
definition IOSQE_CQE_SKIP_SUCCESS :: "8 word" where "IOSQE_CQE_SKIP_SUCCESS = 64"

definition CQE_F_BUFFER :: "32 word" where "CQE_F_BUFFER = 1"
definition CQE_F_MORE :: "32 word" where "CQE_F_MORE = 2"
definition CQE_F_NOTIF :: "32 word" where "CQE_F_NOTIF = 8"

definition cqe_more :: "cqe \<Rightarrow> bool" where
  "cqe_more c \<longleftrightarrow> cq_flags c AND CQE_F_MORE \<noteq> 0"

definition EINTR :: int where "EINTR = 4"
definition EAGAIN :: int where "EAGAIN = 11"
definition EINVAL :: int where "EINVAL = 22"
definition ETIME :: int where "ETIME = 62"
definition MSG_NOSIGNAL :: int where "MSG_NOSIGNAL = 16384"
definition SOCK_CLOEXEC :: int where "SOCK_CLOEXEC = 524288"
definition POLLIN :: nat where "POLLIN = 1"


subsection \<open>Options\<close>

definition SETUP_IOPOLL :: "32 word" where "SETUP_IOPOLL = 1"
definition SETUP_SQPOLL :: "32 word" where "SETUP_SQPOLL = 2"
definition SETUP_SQ_AFF :: "32 word" where "SETUP_SQ_AFF = 4"
definition SETUP_CQSIZE :: "32 word" where "SETUP_CQSIZE = 8"
definition SETUP_ATTACH_WQ :: "32 word" where "SETUP_ATTACH_WQ = 32"
definition SETUP_SUBMIT_ALL :: "32 word" where "SETUP_SUBMIT_ALL = 128"
definition SETUP_COOP_TASKRUN :: "32 word" where "SETUP_COOP_TASKRUN = 256"
definition SETUP_TASKRUN_FLAG :: "32 word" where "SETUP_TASKRUN_FLAG = 512"
definition SETUP_SINGLE_ISSUER :: "32 word" where "SETUP_SINGLE_ISSUER = 4096"
definition SETUP_DEFER_TASKRUN :: "32 word" where "SETUP_DEFER_TASKRUN = 8192"

lemmas setup_defs = SETUP_IOPOLL_def SETUP_SQPOLL_def SETUP_SQ_AFF_def SETUP_CQSIZE_def SETUP_ATTACH_WQ_def
  SETUP_SUBMIT_ALL_def SETUP_COOP_TASKRUN_def SETUP_TASKRUN_FLAG_def SETUP_SINGLE_ISSUER_def SETUP_DEFER_TASKRUN_def

record uring_options =
  opt_entries :: "32 word"
  opt_cq_entries :: "32 word"
  opt_flags :: "32 word"
  opt_idle_ms :: "32 word"
  opt_cpu :: "32 word"
  opt_budget :: "32 word"
  opt_submit_batch :: "32 word"
  opt_wq_fd :: int
  opt_register_fd :: bool
  opt_single_issuer :: bool

definition default_options :: uring_options where
  "default_options =
     \<lparr>opt_entries = 256, opt_cq_entries = 0, opt_flags = 0, opt_idle_ms = 1000, opt_cpu = 0, opt_budget = 64,
      opt_submit_batch = 0, opt_wq_fd = -1, opt_register_fd = False, opt_single_issuer = True\<rparr>"

definition setup_allowed :: "32 word" where
  "setup_allowed = SETUP_IOPOLL OR SETUP_SQPOLL OR SETUP_SQ_AFF OR SETUP_SINGLE_ISSUER OR SETUP_COOP_TASKRUN OR
     SETUP_DEFER_TASKRUN OR SETUP_TASKRUN_FLAG OR SETUP_SUBMIT_ALL"

definition options_invalid :: "uring_options \<Rightarrow> bool" where
  "options_invalid c \<longleftrightarrow>
     opt_entries c = 0 \<or> opt_entries c > 32768 \<or> opt_budget c = 0 \<or> opt_flags c AND NOT setup_allowed \<noteq> 0 \<or>
     opt_submit_batch c > opt_entries c \<or> opt_wq_fd c < -1 \<or>
     (opt_cq_entries c \<noteq> 0 \<and> opt_cq_entries c < opt_entries c) \<or>
     (opt_flags c AND SETUP_SQ_AFF \<noteq> 0 \<and> opt_flags c AND SETUP_SQPOLL = 0) \<or>
     (opt_flags c AND SETUP_SQPOLL \<noteq> 0 \<and>
      opt_flags c AND (SETUP_COOP_TASKRUN OR SETUP_DEFER_TASKRUN OR SETUP_TASKRUN_FLAG) \<noteq> 0)"

record ring_params =
  rp_flags :: "32 word"
  rp_wq_fd :: "32 word"
  rp_cq_entries :: "32 word"
  rp_idle :: "32 word"
  rp_cpu :: "32 word"

definition ring_params_of :: "uring_options \<Rightarrow> ring_params" where
  "ring_params_of c =
     \<lparr>rp_flags = (opt_flags c OR (if opt_single_issuer c then SETUP_SINGLE_ISSUER else 0))
        OR (if opt_wq_fd c \<ge> 0 then SETUP_ATTACH_WQ else 0)
        OR (if opt_cq_entries c \<noteq> 0 then SETUP_CQSIZE else 0),
      rp_wq_fd = (if opt_wq_fd c \<ge> 0 then word_of_int (opt_wq_fd c) else 0),
      rp_cq_entries = opt_cq_entries c, rp_idle = opt_idle_ms c, rp_cpu = opt_cpu c\<rparr>"

subsection \<open>The ring of a loop\<close>

text \<open>
  liburing and the system calls the backend makes.  A negative result is a negated error number;
  \<open>k_event_read\<close> is the outcome of reading the event descriptor once interruptions are retried.
\<close>

record 'k kern =
  k_init :: "32 word \<Rightarrow> ring_params \<Rightarrow> 'k \<Rightarrow> int \<times> 'k"
  k_register_fd :: "'k \<Rightarrow> int \<times> 'k"
  k_unregister_fd :: "'k \<Rightarrow> int \<times> 'k"
  k_exit :: "'k \<Rightarrow> 'k"
  k_eventfd :: "'k \<Rightarrow> int \<times> 'k"
  k_close :: "int \<Rightarrow> 'k \<Rightarrow> 'k"
  k_sq_ready :: "'k \<Rightarrow> nat"
  k_sq_space :: "'k \<Rightarrow> nat"
  k_sq_entries :: "'k \<Rightarrow> nat"
  k_get_sqe :: "'k \<Rightarrow> 'k option"
  k_put :: "sqe \<Rightarrow> 'k \<Rightarrow> 'k"
  k_submit :: "'k \<Rightarrow> int \<times> 'k"
  k_wait :: "int option \<Rightarrow> 'k \<Rightarrow> int \<times> 'k"
  k_get_events :: "'k \<Rightarrow> int \<times> 'k"
  k_ppoll :: "int option \<Rightarrow> 'k \<Rightarrow> int \<times> 'k"
  k_peek :: "nat \<Rightarrow> 'k \<Rightarrow> cqe list"
  k_advance :: "nat \<Rightarrow> 'k \<Rightarrow> 'k"
  k_event_read :: "'k \<Rightarrow> int"

text \<open>\<^verbatim>\<open>struct loop::driver\<close>.\<close>

record 'k driver =
  dr_ring :: 'k
  dr_event :: int
  dr_iopoll :: bool
  dr_registered :: bool
  dr_submit_batch :: nat
  dr_watching :: bool
  dr_watch_waking :: bool
  dr_drains :: "32 word"

text \<open>\<^verbatim>\<open>driver::sqe\<close>: reserve an entry, submitting a full batch or a full ring first.\<close>

partial_function (option) slot_loop :: "'k kern \<Rightarrow> 'k \<Rightarrow> (unit, 'k) result option" where
  "slot_loop K k =
     (case k_get_sqe K k of
        Some k1 \<Rightarrow> Some (Inr (), k1)
      | None \<Rightarrow>
          (case k_submit K k of (n, k1) \<Rightarrow>
             if n < 0 \<and> n \<noteq> - EINTR then Some (Inl (sys_exn n), k1) else slot_loop K k1))"

definition driver_sqe :: "'k kern \<Rightarrow> bool \<Rightarrow> 'k driver \<Rightarrow> (unit, 'k driver) result option" where
  "driver_sqe K flush d =
     (let first = (if flush \<and> dr_submit_batch d \<noteq> 0 \<and> k_sq_ready K (dr_ring d) \<ge> dr_submit_batch d
                   then k_submit K (dr_ring d) else (0, dr_ring d)) in
      case first of (n, k) \<Rightarrow>
        if n < 0 \<and> n \<noteq> - EINTR then Some (Inl (sys_exn n), d\<lparr>dr_ring := k\<rparr>)
        else (case slot_loop K k of None \<Rightarrow> None | Some (r, k1) \<Rightarrow> Some (r, d\<lparr>dr_ring := k1\<rparr>)))"

definition driver_put :: "'k kern \<Rightarrow> sqe \<Rightarrow> 'k driver \<Rightarrow> 'k driver" where
  "driver_put K s d = d\<lparr>dr_ring := k_put K s (dr_ring d)\<rparr>"

definition driver_watch :: "'k kern \<Rightarrow> 'k driver \<Rightarrow> (unit, 'k driver) result option" where
  "driver_watch K d =
     (case driver_sqe K True d of
        Some (Inr _, d1) \<Rightarrow>
          Some (Inr (), (driver_put K (sqe_set_data Ud_Wake (sqe_of (Prep_Poll_Add (dr_event d1) POLLIN))) d1)\<lparr>dr_watching := True\<rparr>)
      | r \<Rightarrow> r)"

text \<open>\<^verbatim>\<open>loop::loop(const uring::options&)\<close>: the budget and the driver, or the error with everything released.\<close>

definition ring_open :: "'k kern \<Rightarrow> uring_options \<Rightarrow> 'k \<Rightarrow> int \<times> 'k" where
  "ring_open K c k =
     (let p = ring_params_of c in
      case k_init K (opt_entries c) p k of (r, k1) \<Rightarrow>
        if r = - EINVAL \<and> opt_single_issuer c \<and> opt_flags c AND (SETUP_SINGLE_ISSUER OR SETUP_DEFER_TASKRUN) = 0
        then k_init K (opt_entries c) (p\<lparr>rp_flags := rp_flags p AND NOT SETUP_SINGLE_ISSUER\<rparr>) k1
        else (r, k1))"

definition ring_close :: "'k kern \<Rightarrow> 'k driver \<Rightarrow> 'k" where
  "ring_close K d =
     (let k1 = (if dr_event d \<ge> 0 then k_close K (dr_event d) (dr_ring d) else dr_ring d);
          k2 = (if dr_registered d then snd (k_unregister_fd K k1) else k1)
      in k_exit K k2)"

definition loop_open :: "'k kern \<Rightarrow> uring_options \<Rightarrow> 'k \<Rightarrow> (nat \<times> 'k driver, 'k) result option" where
  "loop_open K c k =
     (if options_invalid c then Some (Inl (Invalid_Argument ''invalid uring options''), k)
      else case ring_open K c k of (r, k1) \<Rightarrow>
        if r < 0 then Some (Inl (sys_exn r), k1)
        else
          (let d0 = \<lparr>dr_ring = k1, dr_event = -1, dr_iopoll = opt_flags c AND SETUP_IOPOLL \<noteq> 0, dr_registered = False,
                     dr_submit_batch = unat (opt_submit_batch c), dr_watching = False, dr_watch_waking = False, dr_drains = 0\<rparr>;
               reg = (if opt_register_fd c then k_register_fd K k1 else (0, k1));
               d1 = d0\<lparr>dr_ring := snd reg, dr_registered := (opt_register_fd c \<and> fst reg \<ge> 0)\<rparr> in
           if fst reg < 0 then Some (Inl (sys_exn (fst reg)), ring_close K d1)
           else
             (case k_eventfd K (dr_ring d1) of (fd, k2) \<Rightarrow>
                let d2 = d1\<lparr>dr_ring := k2, dr_event := (if fd < 0 then -1 else fd)\<rparr> in
                if fd < 0 then Some (Inl (sys_exn fd), ring_close K d2)
                else if dr_iopoll d2 then Some (Inr (unat (opt_budget c), d2), dr_ring d2)
                else (case driver_watch K d2 of
                        None \<Rightarrow> None
                      | Some (Inl e, d3) \<Rightarrow> Some (Inl e, ring_close K d3)
                      | Some (Inr _, d3) \<Rightarrow> Some (Inr (unat (opt_budget c), d3), dr_ring d3)))))"

subsection \<open>Requests\<close>

text \<open>The world with the drivers of all loops and the Linux fields of native requests.\<close>

record ('o, 'k) uworld = "'o ports" +
  drv :: "loop_id \<Rightarrow> 'k driver"
  io_namelen :: "addr \<Rightarrow> nat"
  io_trunc :: "addr \<Rightarrow> bool"
  io_canceling :: "addr \<Rightarrow> bool"
  io_done :: "addr \<Rightarrow> bool"
  io_draining :: "addr \<Rightarrow> bool"
  io_native :: "addr \<Rightarrow> sqe option"
  io_result :: "addr \<Rightarrow> bool"

definition upd_drv :: "loop_id \<Rightarrow> ('k driver \<Rightarrow> 'k driver) \<Rightarrow> ('o, 'k, 'z) uworld_scheme \<Rightarrow> ('o, 'k, 'z) uworld_scheme" where
  "upd_drv l f w = w\<lparr>drv := (drv w)(l := f (drv w l))\<rparr>"

text \<open>Run a driver operation on the driver of loop \<open>l\<close>.\<close>

definition with_drv :: "loop_id \<Rightarrow> ('k driver \<Rightarrow> (unit, 'k driver) result option) \<Rightarrow> ('o, 'k, 'z) uworld_scheme \<Rightarrow> (unit, ('o, 'k, 'z) uworld_scheme) result option" where
  "with_drv l f w =
     (case f (drv w l) of None \<Rightarrow> None | Some (r, d) \<Rightarrow> Some (r, upd_drv l (\<lambda>_. d) w))"

partial_function (option) reserve_loop :: "'k kern \<Rightarrow> nat \<Rightarrow> 'k \<Rightarrow> (unit, 'k) result option" where
  "reserve_loop K need k =
     (if k_sq_space K k \<ge> need then Some (Inr (), k)
      else (case k_submit K k of (n, k1) \<Rightarrow>
              if n < 0 \<and> n \<noteq> - EINTR then Some (Inl (sys_exn n), k1) else reserve_loop K need k1))"

definition access_reserve :: "'k kern \<Rightarrow> thread_id \<Rightarrow> loop_id \<Rightarrow> nat \<Rightarrow> bool \<Rightarrow> ('o, 'k, 'z) uworld_scheme \<Rightarrow> (unit, ('o, 'k, 'z) uworld_scheme) result option" where
  "access_reserve K t l need drain w =
     (if \<not> loop_check t l w then Some (Inl wrong_thread, w)
      else if need > k_sq_entries K (dr_ring (drv w l))
        then Some (Inl (Invalid_Argument ''batch exceeds ring capacity''), w)
      else case with_drv l (\<lambda>d. case reserve_loop K need (dr_ring d) of
                                   None \<Rightarrow> None | Some (r, k) \<Rightarrow> Some (r, d\<lparr>dr_ring := k\<rparr>)) w of
             Some (Inr _, w1) \<Rightarrow>
               Some (Inr (),
                 if drain \<and> dr_watching (drv w1 l) \<and> \<not> dr_watch_waking (drv w1 l)
                 then upd_drv l (\<lambda>d. d\<lparr>dr_watch_waking := True\<rparr>) (loop_wake l w1) else w1)
           | r \<Rightarrow> r)"

text \<open>The entry of a request by its kind.\<close>

definition io_prep :: "addr \<Rightarrow> sqe \<Rightarrow> ('o, 'k, 'z) uworld_scheme \<Rightarrow> sqe" where
  "io_prep a native w =
     (case io_code w a of
        Op_Native \<Rightarrow> native
      | Op_Nop \<Rightarrow> sqe_of Prep_Nop
      | Op_File_Read \<Rightarrow> sqe_of (Prep_Read (io_fd w a) (io_buf w a) (word_of_nat (io_size w a)) (io_offset w a))
      | Op_File_Write \<Rightarrow> sqe_of (Prep_Write (io_fd w a) (io_buf w a) (word_of_nat (io_size w a)) (io_offset w a))
      | Op_File_Sync \<Rightarrow> sqe_of (Prep_Fsync (io_fd w a) 0)
      | Op_Read \<Rightarrow> sqe_of (Prep_Recv (io_fd w a) (io_buf w a) (word_of_nat (io_size w a)) 0)
      | Op_Write \<Rightarrow> sqe_of (Prep_Send (io_fd w a) (io_buf w a) (word_of_nat (io_size w a)) MSG_NOSIGNAL)
      | Op_Accept \<Rightarrow> sqe_of (Prep_Accept (io_fd w a) SOCK_CLOEXEC)
      | Op_Connect \<Rightarrow> sqe_of (Prep_Connect (io_fd w a) a (io_addr_size w a))
      | Op_Recv_From \<Rightarrow> sqe_of (Prep_Recvmsg (io_fd w a) (Msg_Io a (io_addr_size w a) (io_buf w a) (io_size w a)) 0)
      | Op_Send_To \<Rightarrow> sqe_of (Prep_Sendmsg (io_fd w a) (Msg_Io a (io_addr_size w a) (io_buf w a) (io_size w a)) MSG_NOSIGNAL))"

definition io_storage :: "opcode \<Rightarrow> bool" where
  "io_storage c \<longleftrightarrow> c = Op_File_Read \<or> c = Op_File_Write \<or> c = Op_Native"

text \<open>\<^verbatim>\<open>loop::submit\<close>.\<close>

definition uring_submit :: "'k kern \<Rightarrow> thread_id \<Rightarrow> loop_id \<Rightarrow> addr \<Rightarrow> ('o, 'k, 'z) uworld_scheme \<Rightarrow> (unit, ('o, 'k, 'z) uworld_scheme) result option" where
  "uring_submit K t l a w =
     (if dr_iopoll (drv w l) \<and> \<not> io_storage (io_code w a)
      then Some (Inl (System_Error Operation_Not_Supported), w)
      else
        (let native = (case io_native w a of None \<Rightarrow> sqe_of (Prep_Other 0) | Some s \<Rightarrow> s);
             drain = (sq_flags native AND IOSQE_IO_DRAIN \<noteq> 0);
             pre = (if drain \<and> dr_watching (drv w l) \<and> \<not> dr_watch_waking (drv w l)
                    then access_reserve K t l 1 True w else Some (Inr (), w)) in
         case pre of
           Some (Inr _, w1) \<Rightarrow>
             (let w2 = (if drain then upd_drv l (\<lambda>d. d\<lparr>dr_drains := dr_drains d + 1\<rparr>)
                                        (w1\<lparr>io_draining := (io_draining w1)(a := True)\<rparr>) else w1) in
              case with_drv l (driver_sqe K (\<not> io_hook w2 a)) w2 of
                Some (Inr _, w3) \<Rightarrow>
                  (let w4 = (if io_code w3 a = Op_Recv_From \<or> io_code w3 a = Op_Send_To
                             then w3\<lparr>io_namelen := (io_namelen w3)(a := io_addr_size w3 a)\<rparr> else w3)
                   in Some (Inr (), upd_drv l (driver_put K (sqe_set_data (Ud_Op a) (io_prep a native w4))) w4))
              | r \<Rightarrow> r)
         | r \<Rightarrow> r))"

text \<open>\<^verbatim>\<open>access::start\<close>: publish a batch entry, whose slot is already reserved.\<close>

definition access_start :: "'k kern \<Rightarrow> thread_id \<Rightarrow> addr \<Rightarrow> ('o, 'k, 'z) uworld_scheme \<Rightarrow> (unit, ('o, 'k, 'z) uworld_scheme) result option" where
  "access_start K t a w =
     (let l = op_owner w a in
      uring_submit K t l a (io_link l a (w\<lparr>op_active := (op_active w)(a := True)\<rparr>)))"

text \<open>\<^verbatim>\<open>loop::cancel\<close>.\<close>

definition uring_cancel :: "'k kern \<Rightarrow> loop_id \<Rightarrow> addr \<Rightarrow> ('o, 'k, 'z) uworld_scheme \<Rightarrow> (unit, ('o, 'k, 'z) uworld_scheme) result option" where
  "uring_cancel K l a w =
     (case with_drv l (driver_sqe K True) w of
        Some (Inr _, w1) \<Rightarrow>
          Some (Inr (), (upd_drv l (driver_put K (sqe_set_data (Ud_Cancel a) (sqe_of (Prep_Cancel a 0)))) w1)
            \<lparr>io_canceling := (io_canceling w1)(a := True), io_cancel_sent := (io_cancel_sent w1)(a := True)\<rparr>)
      | r \<Rightarrow> r)"

subsection \<open>Completions\<close>

text \<open>
  One completion.  \<open>result\<close> is the request's \<^verbatim>\<open>result\<close> hook, called when set, and \<open>retire\<close> its
  \<^verbatim>\<open>retire\<close> hook; both belong to the kind of request.
\<close>

record 'w hooks =
  hk_result :: "addr \<Rightarrow> int \<Rightarrow> 32 word \<Rightarrow> 'w \<Rightarrow> 'w"
  hk_retire :: "addr \<Rightarrow> 'w \<Rightarrow> 'w"

definition uring_retire :: "('o, 'k, 'z) uworld_scheme hooks \<Rightarrow> loop_id \<Rightarrow> addr \<Rightarrow> ('o, 'k, 'z) uworld_scheme \<Rightarrow> ('o, 'k, 'z) uworld_scheme" where
  "uring_retire H l a w =
     loop_complete (hk_retire H) l a
       (if io_draining w a then upd_drv l (\<lambda>d. d\<lparr>dr_drains := dr_drains d - 1\<rparr>) w else w)"

definition cqe_result :: "('o, 'k, 'z) uworld_scheme hooks \<Rightarrow> addr \<Rightarrow> cqe \<Rightarrow> ('o, 'k, 'z) uworld_scheme \<Rightarrow> ('o, 'k, 'z) uworld_scheme" where
  "cqe_result H a c w =
     (let w1 = w\<lparr>io_done := (io_done w)(a := \<not> cqe_more c)\<rparr>;
          w2 = (if io_result w1 a then hk_result H a (cq_res c) (cq_flags c) w1
                else if cq_res c < 0 then set_error a (Some (Errno (nat (- cq_res c)))) w1
                else if io_code w1 a = Op_Accept then w1\<lparr>io_accepted := (io_accepted w1)(a := cq_res c)\<rparr>
                else w1\<lparr>io_bytes := (io_bytes w1)(a := nat (cq_res c))\<rparr>)
      in if io_code w2 a = Op_Recv_From \<and> cq_res c \<ge> 0
         then (let w3 = w2\<lparr>io_addr_size := (io_addr_size w2)(a := io_namelen w2 a)\<rparr>
               in if io_trunc w3 a then set_error a (Some Message_Size) w3 else w3)
         else w2)"

definition cqe_step :: "('o, 'k, 'z) uworld_scheme hooks \<Rightarrow> loop_id \<Rightarrow> cqe \<Rightarrow> ('o, 'k, 'z) uworld_scheme \<Rightarrow> ('o, 'k, 'z) uworld_scheme" where
  "cqe_step H l c w =
     (case cq_data c of
        Ud_Wake \<Rightarrow> w
      | Ud_Cancel a \<Rightarrow>
          (let w1 = w\<lparr>io_canceling := (io_canceling w)(a := False)\<rparr>
           in if io_done w1 a then uring_retire H l a w1 else w1)
      | Ud_Op a \<Rightarrow>
          (let w1 = cqe_result H a c w
           in if io_done w1 a \<and> \<not> io_canceling w1 a then uring_retire H l a w1 else w1))"

definition uring_poll_delay :: "'k driver \<Rightarrow> int \<Rightarrow> int" where
  "uring_poll_delay d delay = (if dr_drains d \<noteq> 0 \<and> (delay < 0 \<or> delay > 1000000) then 1000000 else delay)"

text \<open>The wait of \<^verbatim>\<open>loop::poll\<close>: on a storage-only ring, a nonblocking poll and, when idle, \<^verbatim>\<open>ppoll\<close>.\<close>

definition uring_wait :: "'k kern \<Rightarrow> loop_id \<Rightarrow> int \<Rightarrow> ('o, 'k, 'z) uworld_scheme \<Rightarrow> (int, ('o, 'k, 'z) uworld_scheme) result" where
  "uring_wait K l delay w =
     (let d = drv w l; limit = (if delay \<ge> 0 then Some delay else None) in
      if dr_iopoll d then
        (case k_submit K (dr_ring d) of (r0, k0) \<Rightarrow>
           case (if r0 \<ge> 0 then k_get_events K k0 else (r0, k0)) of (r, k1) \<Rightarrow>
             case (if lp_io (loops w l) = None then k_ppoll K limit k1 else (0, k1)) of (p, k2) \<Rightarrow>
               let w1 = upd_drv l (\<lambda>d. d\<lparr>dr_ring := k2\<rparr>) w in
               if p < 0 \<and> p \<noteq> - EINTR then (Inl (sys_exn p), w1)
               else (Inr r, upd_loop l (\<lambda>L. L\<lparr>lp_signals := 0\<rparr>) w1))
      else (case k_wait K limit (dr_ring d) of (r, k1) \<Rightarrow> (Inr r, upd_drv l (\<lambda>d. d\<lparr>dr_ring := k1\<rparr>) w)))"

definition uring_woken :: "'k kern \<Rightarrow> loop_id \<Rightarrow> ('o, 'k, 'z) uworld_scheme \<Rightarrow> (unit, ('o, 'k, 'z) uworld_scheme) result" where
  "uring_woken K l w =
     (let w1 = upd_drv l (\<lambda>d. d\<lparr>dr_watching := False, dr_watch_waking := False\<rparr>) w;
          r = k_event_read K (dr_ring (drv w1 l)) in
      if r < 0 \<and> r \<noteq> - EAGAIN then (Inl (sys_exn r), w1)
      else (Inr (), upd_loop l (\<lambda>L. L\<lparr>lp_signals := 0\<rparr>) w1))"

definition uring_rearm :: "'k kern \<Rightarrow> loop_id \<Rightarrow> ('o, 'k, 'z) uworld_scheme \<Rightarrow> (unit, ('o, 'k, 'z) uworld_scheme) result option" where
  "uring_rearm K l w =
     (if \<not> dr_iopoll (drv w l) \<and> \<not> dr_watching (drv w l) \<and> dr_drains (drv w l) = 0
      then with_drv l (driver_watch K) w else Some (Inr (), w))"

text \<open>\<^verbatim>\<open>loop::poll\<close>.\<close>

definition uring_poll :: "'k kern \<Rightarrow> ('o, 'k, 'z) uworld_scheme hooks \<Rightarrow> loop_id \<Rightarrow> int \<Rightarrow> ('o, 'k, 'z) uworld_scheme \<Rightarrow> (unit, ('o, 'k, 'z) uworld_scheme) result option" where
  "uring_poll K H l delay w =
     (case uring_wait K l (uring_poll_delay (drv w l) delay) w of
        (Inl e, w1) \<Rightarrow> Some (Inl e, w1)
      | (Inr r, w1) \<Rightarrow>
          if r < 0 \<and> r \<noteq> - ETIME \<and> r \<noteq> - EINTR then Some (Inl (sys_exn r), w1)
          else
            (let batch = k_peek K 128 (dr_ring (drv w1 l));
                 w2 = fold (cqe_step H l) batch w1;
                 w3 = upd_drv l (\<lambda>d. d\<lparr>dr_ring := k_advance K (length batch) (dr_ring d)\<rparr>) w2 in
             if \<exists>c \<in> set batch. cq_data c = Ud_Wake
             then (case uring_woken K l w3 of
                     (Inl e, w4) \<Rightarrow> Some (Inl e, w4)
                   | (Inr _, w4) \<Rightarrow> uring_rearm K l w4)
             else uring_rearm K l w3))"

text \<open>\<^verbatim>\<open>loop::~loop\<close>: the condition under which it does not terminate the program.\<close>

definition loop_destroyable :: "loop_id \<Rightarrow> 'z world_scheme \<Rightarrow> bool" where
  "loop_destroyable l w \<longleftrightarrow>
     (let L = loops w l in \<not> lp_running L \<and> lp_roots L = 0 \<and> lp_io L = None \<and> lp_waits L = None \<and> lp_holds L = 0 \<and>
      rq_empty (lp_messages L) \<and> lp_timers L = [] \<and> rq_empty (lp_ready L))"

definition uring_destroy :: "'k kern \<Rightarrow> loop_id \<Rightarrow> ('o, 'k, 'z) uworld_scheme \<Rightarrow> 'k option" where
  "uring_destroy K l w =
     (if \<not> loop_destroyable l w then None
      else
        (let d = drv w l;
             u = (if dr_registered d then k_unregister_fd K (dr_ring d) else (0, dr_ring d)) in
         if fst u < 0 then None else Some (k_close K (dr_event d) (k_exit K (snd u)))))"

end
