(* ===== verification/Uring_Ops.thy ===== *)
theory Uring_Ops
  imports Uring
begin

text \<open>
  The typed Linux operations of \<^verbatim>\<open>uring_ops.cpp\<close>: aligned memory, registered file and buffer
  tables, positional requests and batches of linked entries.  Registration calls are the record \<open>reg\<close> over the ring state.
\<close>

subsection \<open>Validation\<close>

definition verify :: "int \<Rightarrow> exn + unit" where
  "verify r = (if r < 0 then Inl (sys_exn r) else Inr ())"

definition INT_MAX64 :: "64 word" where "INT_MAX64 = 2147483647"
definition INT_MAX32 :: "32 word" where "INT_MAX32 = 2147483647"

definition bounds :: "64 word \<Rightarrow> 64 word \<Rightarrow> exn + unit" where
  "bounds n off =
     (if n > INT_MAX64 \<or> off > INT64_MAX \<or> n > INT64_MAX - off
      then Inl (Invalid_Argument ''uring I/O range overflow'') else Inr ())"

text \<open>A span is an address and a length in bytes.\<close>

type_synonym span = "nat \<times> 64 word"

definition transfer :: "int \<Rightarrow> span \<Rightarrow> 64 word \<Rightarrow> bool \<Rightarrow> int \<Rightarrow> exn + sqe" where
  "transfer fd data off write slot =
     (case bounds (snd data) off of
        Inl e \<Rightarrow> Inl e
      | Inr _ \<Rightarrow>
          Inr (sqe_of
            (if slot \<ge> 0
             then (if write then Prep_Write_Fixed fd (fst data) (ucast (snd data)) off slot
                   else Prep_Read_Fixed fd (fst data) (ucast (snd data)) off slot)
             else (if write then Prep_Write fd (fst data) (ucast (snd data)) off
                   else Prep_Read fd (fst data) (ucast (snd data)) off))))"

definition single_bit :: "64 word \<Rightarrow> bool" where
  "single_bit x \<longleftrightarrow> x \<noteq> 0 \<and> x AND (x - 1) = 0"

text \<open>\<^verbatim>\<open>memory::memory\<close>: the checks before the aligned allocation.\<close>

definition memory_check :: "64 word \<Rightarrow> 64 word \<Rightarrow> exn + unit" where
  "memory_check n alignment =
     (if n = 0 \<or> alignment < 16 \<or> \<not> single_bit alignment
      then Inl (Invalid_Argument ''invalid aligned allocation'') else Inr ())"

record iovec =
  iov_base :: "nat option"
  iov_len :: "64 word"

subsection \<open>Registered tables\<close>

record 'k reg =
  rg_files :: "int list \<Rightarrow> 'k \<Rightarrow> int \<times> 'k"
  rg_files_sparse :: "32 word \<Rightarrow> 'k \<Rightarrow> int \<times> 'k"
  rg_files_swap :: "32 word \<Rightarrow> int list \<Rightarrow> 'k \<Rightarrow> int \<times> 'k"
  rg_files_drop :: "'k \<Rightarrow> int \<times> 'k"
  rg_buffers :: "iovec list \<Rightarrow> 'k \<Rightarrow> int \<times> 'k"
  rg_buffers_sparse :: "32 word \<Rightarrow> 'k \<Rightarrow> int \<times> 'k"
  rg_buffers_swap :: "32 word \<Rightarrow> iovec list \<Rightarrow> 'k \<Rightarrow> int \<times> 'k"
  rg_buffers_clone :: "loop_id \<Rightarrow> 'k \<Rightarrow> int \<times> 'k"
  rg_buffers_drop :: "'k \<Rightarrow> int \<times> 'k"
  rg_workers :: "nat \<times> nat \<Rightarrow> 'k \<Rightarrow> int \<times> (nat \<times> nat) \<times> 'k"
  rg_affinity :: "nat set option \<Rightarrow> 'k \<Rightarrow> int \<times> 'k"
  rg_napi :: "nat \<Rightarrow> bool \<Rightarrow> 'k \<Rightarrow> int \<times> 'k"
  rg_probe :: "'k \<Rightarrow> int + (nat \<Rightarrow> bool)"

type_synonym table_id = nat
type_synonym batch_id = nat

text \<open>Tables, the pins a request holds on them, and batches of entries with their shared results.\<close>

record ('o, 'k) tworld = "('o, 'k) uworld" +
  ft_loop :: "table_id \<Rightarrow> loop_id"
  ft_size :: "table_id \<Rightarrow> nat"
  ft_active :: "table_id \<Rightarrow> nat"
  bt_loop :: "table_id \<Rightarrow> loop_id"
  bt_regions :: "table_id \<Rightarrow> iovec list"
  bt_active :: "table_id \<Rightarrow> nat"
  op_files :: "addr \<Rightarrow> table_id option"
  op_buffers :: "addr \<Rightarrow> table_id option"
  ba_pending :: "batch_id \<Rightarrow> nat"
  ba_results :: "batch_id \<Rightarrow> int list"
  ba_done :: "batch_id \<Rightarrow> event_id"
  en_batch :: "addr \<Rightarrow> batch_id"
  en_index :: "addr \<Rightarrow> nat"

text \<open>A registration call on the ring of a loop, from the loop's thread; a failure is thrown.\<close>

definition reg_call :: "thread_id \<Rightarrow> loop_id \<Rightarrow> ('k \<Rightarrow> int \<times> 'k) \<Rightarrow> ('o, 'k, 'z) tworld_scheme \<Rightarrow> (int, ('o, 'k, 'z) tworld_scheme) result" where
  "reg_call t l f w =
     (if \<not> loop_check t l w then (Inl wrong_thread, w)
      else case f (dr_ring (drv w l)) of (r, k) \<Rightarrow>
        let w1 = upd_drv l (\<lambda>d. d\<lparr>dr_ring := k\<rparr>) w in
        case verify r of Inl e \<Rightarrow> (Inl e, w1) | Inr _ \<Rightarrow> (Inr r, w1))"

definition reg_unit :: "(int, 'w) result \<Rightarrow> (unit, 'w) result" where
  "reg_unit r = (case r of (Inl e, w) \<Rightarrow> (Inl e, w) | (Inr _, w) \<Rightarrow> (Inr (), w))"

definition files_table :: "'k reg \<Rightarrow> thread_id \<Rightarrow> loop_id \<Rightarrow> int list \<Rightarrow> table_id \<Rightarrow> ('o, 'k, 'z) tworld_scheme \<Rightarrow> (unit, ('o, 'k, 'z) tworld_scheme) result" where
  "files_table R t l fds f w =
     (let w1 = w\<lparr>ft_loop := (ft_loop w)(f := l), ft_size := (ft_size w)(f := length fds), ft_active := (ft_active w)(f := 0)\<rparr> in
      if fds = [] \<or> length fds > INT_MAX then (Inl (Invalid_Argument ''invalid file table size''), w1)
      else reg_unit (reg_call t l (rg_files R fds) w1))"

definition files_sparse :: "'k reg \<Rightarrow> thread_id \<Rightarrow> loop_id \<Rightarrow> 32 word \<Rightarrow> table_id \<Rightarrow> ('o, 'k, 'z) tworld_scheme \<Rightarrow> (unit, ('o, 'k, 'z) tworld_scheme) result" where
  "files_sparse R t l n f w =
     (let w1 = w\<lparr>ft_loop := (ft_loop w)(f := l), ft_size := (ft_size w)(f := unat n), ft_active := (ft_active w)(f := 0)\<rparr> in
      if n = 0 \<or> n > INT_MAX32 then (Inl (Invalid_Argument ''invalid file table size''), w1)
      else reg_unit (reg_call t l (rg_files_sparse R n) w1))"

text \<open>The destructors; \<^const>\<open>None\<close> is \<^verbatim>\<open>std::terminate\<close>.\<close>

definition files_destroy :: "'k reg \<Rightarrow> thread_id \<Rightarrow> table_id \<Rightarrow> ('o, 'k, 'z) tworld_scheme \<Rightarrow> ('o, 'k, 'z) tworld_scheme option" where
  "files_destroy R t f w =
     (if ft_active w f \<noteq> 0 then None
      else case reg_call t (ft_loop w f) (rg_files_drop R) w of (Inl _, _) \<Rightarrow> None | (Inr _, w1) \<Rightarrow> Some w1)"

definition files_update :: "'k reg \<Rightarrow> thread_id \<Rightarrow> table_id \<Rightarrow> 32 word \<Rightarrow> int list \<Rightarrow> ('o, 'k, 'z) tworld_scheme \<Rightarrow> (int, ('o, 'k, 'z) tworld_scheme) result" where
  "files_update R t f off fds w =
     (if \<not> loop_check t (ft_loop w f) w then (Inl wrong_thread, w)
      else if ft_active w f \<noteq> 0 then (Inl (Logic_Error ''file table still referenced''), w)
      else if unat off > ft_size w f \<or> length fds > ft_size w f - unat off
        then (Inl (Out_Of_Range ''file update range''), w)
      else if fds = [] then (Inr 0, w)
      else reg_call t (ft_loop w f) (rg_files_swap R off fds) w)"

definition files_check :: "thread_id \<Rightarrow> table_id \<Rightarrow> 32 word \<Rightarrow> ('o, 'k, 'z) tworld_scheme \<Rightarrow> exn + unit" where
  "files_check t f index w =
     (if \<not> loop_check t (ft_loop w f) w then Inl wrong_thread
      else if unat index \<ge> ft_size w f then Inl (Out_Of_Range ''file table index'') else Inr ())"

definition region_invalid :: "iovec \<Rightarrow> bool" where
  "region_invalid v \<longleftrightarrow> iov_base v = None \<or> iov_len v = 0 \<or> iov_len v > INT_MAX64"

definition empty_region :: iovec where
  "empty_region = \<lparr>iov_base = None, iov_len = 0\<rparr>"

definition buffers_table :: "'k reg \<Rightarrow> thread_id \<Rightarrow> loop_id \<Rightarrow> iovec list \<Rightarrow> table_id \<Rightarrow> ('o, 'k, 'z) tworld_scheme \<Rightarrow> (unit, ('o, 'k, 'z) tworld_scheme) result" where
  "buffers_table R t l regions b w =
     (let w1 = w\<lparr>bt_loop := (bt_loop w)(b := l), bt_regions := (bt_regions w)(b := regions), bt_active := (bt_active w)(b := 0)\<rparr> in
      if regions = [] \<or> length regions > 65536 then (Inl (Invalid_Argument ''invalid buffer table size''), w1)
      else if \<exists>v \<in> set regions. region_invalid v then (Inl (Invalid_Argument ''invalid registered buffer''), w1)
      else reg_unit (reg_call t l (rg_buffers R regions) w1))"

definition buffers_sparse :: "'k reg \<Rightarrow> thread_id \<Rightarrow> loop_id \<Rightarrow> 32 word \<Rightarrow> table_id \<Rightarrow> ('o, 'k, 'z) tworld_scheme \<Rightarrow> (unit, ('o, 'k, 'z) tworld_scheme) result" where
  "buffers_sparse R t l n b w =
     (let w1 = w\<lparr>bt_loop := (bt_loop w)(b := l), bt_active := (bt_active w)(b := 0), bt_regions := (bt_regions w)(b := [])\<rparr> in
      if n = 0 \<or> n > 65536 then (Inl (Invalid_Argument ''invalid buffer table size''), w1)
      else reg_unit (reg_call t l (rg_buffers_sparse R n)
             (w1\<lparr>bt_regions := (bt_regions w1)(b := replicate (unat n) empty_region)\<rparr>)))"

definition buffers_clone :: "'k reg \<Rightarrow> thread_id \<Rightarrow> loop_id \<Rightarrow> table_id \<Rightarrow> table_id \<Rightarrow> ('o, 'k, 'z) tworld_scheme \<Rightarrow> (unit, ('o, 'k, 'z) tworld_scheme) result" where
  "buffers_clone R t l src b w =
     (let w1 = w\<lparr>bt_loop := (bt_loop w)(b := l), bt_regions := (bt_regions w)(b := bt_regions w src), bt_active := (bt_active w)(b := 0)\<rparr>
      in reg_unit (reg_call t l (rg_buffers_clone R (bt_loop w src)) w1))"

definition buffers_destroy :: "'k reg \<Rightarrow> thread_id \<Rightarrow> table_id \<Rightarrow> ('o, 'k, 'z) tworld_scheme \<Rightarrow> ('o, 'k, 'z) tworld_scheme option" where
  "buffers_destroy R t b w =
     (if bt_active w b \<noteq> 0 then None
      else case reg_call t (bt_loop w b) (rg_buffers_drop R) w of (Inl _, _) \<Rightarrow> None | (Inr _, w1) \<Rightarrow> Some w1)"

text \<open>\<^verbatim>\<open>std::copy_n(regions.begin(), n, regions_.begin() + offset)\<close>.\<close>

definition splice_regions :: "iovec list \<Rightarrow> nat \<Rightarrow> nat \<Rightarrow> iovec list \<Rightarrow> iovec list" where
  "splice_regions new n off old = take off old @ take n new @ drop (off + n) old"

definition update_invalid :: "iovec \<Rightarrow> bool" where
  "update_invalid v \<longleftrightarrow> (iov_base v = None) \<noteq> (iov_len v = 0) \<or> iov_len v > INT_MAX64"

definition buffers_update :: "'k reg \<Rightarrow> thread_id \<Rightarrow> table_id \<Rightarrow> 32 word \<Rightarrow> iovec list \<Rightarrow> ('o, 'k, 'z) tworld_scheme \<Rightarrow> (int, ('o, 'k, 'z) tworld_scheme) result" where
  "buffers_update R t b off regions w =
     (let old = bt_regions w b in
      if \<not> loop_check t (bt_loop w b) w then (Inl wrong_thread, w)
      else if bt_active w b \<noteq> 0 then (Inl (Logic_Error ''buffer table still referenced''), w)
      else if unat off > length old \<or> length regions > length old - unat off
        then (Inl (Out_Of_Range ''buffer update range''), w)
      else if \<exists>v \<in> set regions. update_invalid v then (Inl (Invalid_Argument ''invalid registered buffer''), w)
      else if regions = [] then (Inr 0, w)
      else case reg_call t (bt_loop w b) (rg_buffers_swap R off regions) w of
        (Inl e, w1) \<Rightarrow> (Inl e, w1)
      | (Inr n, w1) \<Rightarrow>
          (Inr n, w1\<lparr>bt_regions := (bt_regions w1)(b := splice_regions regions (nat n) (unat off) (bt_regions w1 b))\<rparr>))"

definition buffers_at :: "thread_id \<Rightarrow> table_id \<Rightarrow> 32 word \<Rightarrow> ('o, 'k, 'z) tworld_scheme \<Rightarrow> exn + span" where
  "buffers_at t b index w =
     (if \<not> loop_check t (bt_loop w b) w then Inl wrong_thread
      else if unat index \<ge> length (bt_regions w b) then Inl (Out_Of_Range ''vector::_M_range_check'')
      else (let v = bt_regions w b ! unat index in
            case iov_base v of
              None \<Rightarrow> Inl (Logic_Error ''empty buffer slot'')
            | Some p \<Rightarrow> Inr (p, iov_len v)))"

definition uring_workers :: "'k reg \<Rightarrow> thread_id \<Rightarrow> loop_id \<Rightarrow> nat \<times> nat \<Rightarrow> ('o, 'k, 'z) tworld_scheme \<Rightarrow> (nat \<times> nat, ('o, 'k, 'z) tworld_scheme) result" where
  "uring_workers R t l limits w =
     (if \<not> loop_check t l w then (Inl wrong_thread, w)
      else case rg_workers R limits (dr_ring (drv w l)) of (r, prev, k) \<Rightarrow>
        let w1 = upd_drv l (\<lambda>d. d\<lparr>dr_ring := k\<rparr>) w in
        case verify r of Inl e \<Rightarrow> (Inl e, w1) | Inr _ \<Rightarrow> (Inr prev, w1))"

definition uring_affinity :: "'k reg \<Rightarrow> thread_id \<Rightarrow> loop_id \<Rightarrow> nat set option \<Rightarrow> ('o, 'k, 'z) tworld_scheme \<Rightarrow> (unit, ('o, 'k, 'z) tworld_scheme) result" where
  "uring_affinity R t l cpus w = reg_unit (reg_call t l (rg_affinity R cpus) w)"

definition uring_napi :: "'k reg \<Rightarrow> thread_id \<Rightarrow> loop_id \<Rightarrow> nat \<Rightarrow> bool \<Rightarrow> ('o, 'k, 'z) tworld_scheme \<Rightarrow> (unit, ('o, 'k, 'z) tworld_scheme) result" where
  "uring_napi R t l usecs prefer w = reg_unit (reg_call t l (rg_napi R usecs prefer) w)"

definition uring_supports :: "'k reg \<Rightarrow> thread_id \<Rightarrow> loop_id \<Rightarrow> nat \<Rightarrow> ('o, 'k, 'z) tworld_scheme \<Rightarrow> exn + bool" where
  "uring_supports R t l opcode w =
     (if \<not> loop_check t l w then Inl wrong_thread
      else case rg_probe R (dr_ring (drv w l)) of
        Inl e \<Rightarrow> Inl (sys_exn (if e = 0 then -12 else - e))
      | Inr p \<Rightarrow> Inr (p opcode))"

subsection \<open>Requests\<close>

text \<open>A freshly constructed native request with its own entry and \<^verbatim>\<open>result\<close> hook.\<close>

definition native_init :: "loop_id \<Rightarrow> sqe \<Rightarrow> token_id option \<Rightarrow> nat option \<Rightarrow> addr \<Rightarrow> ('o, 'k, 'z) uworld_scheme \<Rightarrow> ('o, 'k, 'z) uworld_scheme" where
  "native_init l s k dir a w =
     (let w1 = io_init l Op_Native (-1) 0 0 k dir a w in
      w1\<lparr>io_native := (io_native w1)(a := Some s), io_result := (io_result w1)(a := True), io_done := (io_done w1)(a := False),
         io_canceling := (io_canceling w1)(a := False), io_draining := (io_draining w1)(a := False)\<rparr>)"

text \<open>\<^verbatim>\<open>op::op\<close>: a native request with optional pins on a file and a buffer table.\<close>

definition op_new :: "thread_id \<Rightarrow> loop_id \<Rightarrow> sqe \<Rightarrow> token_id option \<Rightarrow> table_id option \<Rightarrow> table_id option \<Rightarrow> nat option \<Rightarrow> addr \<Rightarrow>
    ('o, 'k, 'z) tworld_scheme \<Rightarrow> (unit, ('o, 'k, 'z) tworld_scheme) result" where
  "op_new t l s k f b dir a w =
     (let w0 = native_init l s k dir a w;
          w1 = w0\<lparr>op_files := (op_files w0)(a := f), op_buffers := (op_buffers w0)(a := b)\<rparr> in
      if \<not> loop_check t l w1 then (Inl wrong_thread, w1)
      else if sq_flags s AND (IOSQE_CQE_SKIP_SUCCESS OR IOSQE_IO_LINK OR IOSQE_IO_HARDLINK) \<noteq> 0
        then (Inl (Invalid_Argument ''standalone operation cannot skip or link completions''), w1)
      else if (case f of None \<Rightarrow> False | Some i \<Rightarrow> ft_loop w1 i \<noteq> l) \<or> (case b of None \<Rightarrow> False | Some i \<Rightarrow> bt_loop w1 i \<noteq> l)
        then (Inl (Invalid_Argument ''registered resource belongs to another loop''), w1)
      else
        (let w2 = (case f of None \<Rightarrow> w1 | Some i \<Rightarrow> w1\<lparr>ft_active := (ft_active w1)(i := ft_active w1 i + 1)\<rparr>)
         in (Inr (), case b of None \<Rightarrow> w2 | Some i \<Rightarrow> w2\<lparr>bt_active := (bt_active w2)(i := bt_active w2 i + 1)\<rparr>)))"

definition op_destroy :: "addr \<Rightarrow> ('o, 'k, 'z) tworld_scheme \<Rightarrow> ('o, 'k, 'z) tworld_scheme option" where
  "op_destroy a w =
     (if op_active w a then None
      else
        (let w1 = (case op_files w a of None \<Rightarrow> w | Some i \<Rightarrow> w\<lparr>ft_active := (ft_active w)(i := ft_active w i - 1)\<rparr>)
         in Some (case op_buffers w1 a of None \<Rightarrow> w1 | Some i \<Rightarrow> w1\<lparr>bt_active := (bt_active w1)(i := bt_active w1 i - 1)\<rparr>)))"

text \<open>The \<^verbatim>\<open>result\<close> hook of \<^verbatim>\<open>op\<close>.\<close>

definition op_result :: "addr \<Rightarrow> int \<Rightarrow> 32 word \<Rightarrow> ('o, 'k, 'z) tworld_scheme \<Rightarrow> ('o, 'k, 'z) tworld_scheme" where
  "op_result a res flags w =
     (if flags AND CQE_F_NOTIF \<noteq> 0 then w
      else if res < 0 then set_error a (Some (Errno (nat (- res)))) w
      else w\<lparr>io_bytes := (io_bytes w)(a := nat res)\<rparr>)"

text \<open>A request prepared by a fallible step.\<close>

definition op_from :: "exn + sqe \<Rightarrow> thread_id \<Rightarrow> loop_id \<Rightarrow> token_id option \<Rightarrow> table_id option \<Rightarrow> table_id option \<Rightarrow> nat option \<Rightarrow> addr \<Rightarrow>
    ('o, 'k, 'z) tworld_scheme \<Rightarrow> (unit, ('o, 'k, 'z) tworld_scheme) result" where
  "op_from r t l k f b dir a w = (case r of Inl e \<Rightarrow> (Inl e, w) | Inr s \<Rightarrow> op_new t l s k f b dir a w)"

definition fixed :: "sqe \<Rightarrow> sqe" where
  "fixed s = s\<lparr>sq_flags := sq_flags s OR IOSQE_FIXED_FILE\<rparr>"

text \<open>The preparation of a request on slot \<open>index\<close> of a file table, after its check.\<close>

definition slot_prep :: "thread_id \<Rightarrow> table_id \<Rightarrow> 32 word \<Rightarrow> ('o, 'k, 'z) tworld_scheme \<Rightarrow> exn + sqe \<Rightarrow> exn + sqe" where
  "slot_prep t f index w s = (case files_check t f index w of Inl e \<Rightarrow> Inl e | Inr _ \<Rightarrow> s)"

definition AT_FDCWD :: int where "AT_FDCWD = -100"

definition files_open :: "thread_id \<Rightarrow> table_id \<Rightarrow> 32 word \<Rightarrow> nat option \<Rightarrow> int \<Rightarrow> nat \<Rightarrow> token_id option \<Rightarrow> addr \<Rightarrow> ('o, 'k, 'z) tworld_scheme \<Rightarrow> (unit, ('o, 'k, 'z) tworld_scheme) result" where
  "files_open t f index path flags mode k a w =
     op_from (slot_prep t f index w
       (case path of None \<Rightarrow> Inl (Invalid_Argument ''null path'')
        | Some p \<Rightarrow> Inr (sqe_of (Prep_Openat_Direct AT_FDCWD p flags mode index)))) t (ft_loop w f) k (Some f) None None a w"

definition files_close :: "thread_id \<Rightarrow> table_id \<Rightarrow> 32 word \<Rightarrow> token_id option \<Rightarrow> addr \<Rightarrow> ('o, 'k, 'z) tworld_scheme \<Rightarrow> (unit, ('o, 'k, 'z) tworld_scheme) result" where
  "files_close t f index k a w =
     op_from (slot_prep t f index w (Inr (sqe_of (Prep_Close_Direct index)))) t (ft_loop w f) k (Some f) None None a w"

definition files_socket :: "thread_id \<Rightarrow> table_id \<Rightarrow> 32 word \<Rightarrow> int \<Rightarrow> int \<Rightarrow> int \<Rightarrow> token_id option \<Rightarrow> addr \<Rightarrow> ('o, 'k, 'z) tworld_scheme \<Rightarrow> (unit, ('o, 'k, 'z) tworld_scheme) result" where
  "files_socket t f index domain type protocol k a w =
     op_from (slot_prep t f index w (Inr (sqe_of (Prep_Socket_Direct domain type protocol index 0)))) t (ft_loop w f) k (Some f) None None a w"

text \<open>\<^verbatim>\<open>access::owner\<close> and \<^verbatim>\<open>access::direction\<close> check the socket.\<close>

definition files_accept :: "thread_id \<Rightarrow> table_id \<Rightarrow> 32 word \<Rightarrow> sock_id \<Rightarrow> token_id option \<Rightarrow> addr \<Rightarrow> ('o, 'k, 'z) tworld_scheme \<Rightarrow> (unit, ('o, 'k, 'z) tworld_scheme) result" where
  "files_accept t f index s k a w =
     op_from (slot_prep t f index w
       (case socket_check t s w of
          Inl e \<Rightarrow> Inl e
        | Inr _ \<Rightarrow> if sk_loop w s \<noteq> ft_loop w f then Inl (Invalid_Argument ''foreign listener'')
                   else Inr (sqe_of (Prep_Accept_Direct (sk_fd w s) 0 index))))
       t (ft_loop w f) k (Some f) None (Some (reading s)) a w"

definition files_recv :: "thread_id \<Rightarrow> table_id \<Rightarrow> 32 word \<Rightarrow> span \<Rightarrow> int \<Rightarrow> token_id option \<Rightarrow> addr \<Rightarrow> ('o, 'k, 'z) tworld_scheme \<Rightarrow> (unit, ('o, 'k, 'z) tworld_scheme) result" where
  "files_recv t f index data flags k a w =
     op_from (slot_prep t f index w
       (case bounds (snd data) 0 of Inl e \<Rightarrow> Inl e
        | Inr _ \<Rightarrow> Inr (fixed (sqe_of (Prep_Recv (sint index) (fst data) (snd data) flags))))) t (ft_loop w f) k (Some f) None None a w"

definition files_send :: "thread_id \<Rightarrow> table_id \<Rightarrow> 32 word \<Rightarrow> span \<Rightarrow> int \<Rightarrow> token_id option \<Rightarrow> addr \<Rightarrow> ('o, 'k, 'z) tworld_scheme \<Rightarrow> (unit, ('o, 'k, 'z) tworld_scheme) result" where
  "files_send t f index data flags k a w =
     op_from (slot_prep t f index w
       (case bounds (snd data) 0 of Inl e \<Rightarrow> Inl e
        | Inr _ \<Rightarrow> Inr (fixed (sqe_of (Prep_Send (sint index) (fst data) (snd data) (flags OR MSG_NOSIGNAL)))))) t (ft_loop w f) k (Some f) None None a w"

definition fixed_transfer :: "32 word \<Rightarrow> span \<Rightarrow> 64 word \<Rightarrow> bool \<Rightarrow> int \<Rightarrow> exn + sqe" where
  "fixed_transfer index data off write slot =
     (case transfer (sint index) data off write slot of Inl e \<Rightarrow> Inl e | Inr s \<Rightarrow> Inr (fixed s))"

definition files_read :: "thread_id \<Rightarrow> table_id \<Rightarrow> 32 word \<Rightarrow> span \<Rightarrow> 64 word \<Rightarrow> token_id option \<Rightarrow> addr \<Rightarrow> ('o, 'k, 'z) tworld_scheme \<Rightarrow> (unit, ('o, 'k, 'z) tworld_scheme) result" where
  "files_read t f index data off k a w =
     op_from (slot_prep t f index w (fixed_transfer index data off False (-1))) t (ft_loop w f) k (Some f) None None a w"

definition files_write :: "thread_id \<Rightarrow> table_id \<Rightarrow> 32 word \<Rightarrow> span \<Rightarrow> 64 word \<Rightarrow> token_id option \<Rightarrow> addr \<Rightarrow> ('o, 'k, 'z) tworld_scheme \<Rightarrow> (unit, ('o, 'k, 'z) tworld_scheme) result" where
  "files_write t f index data off k a w =
     op_from (slot_prep t f index w (fixed_transfer index data off True (-1))) t (ft_loop w f) k (Some f) None None a w"

definition buffered :: "thread_id \<Rightarrow> table_id \<Rightarrow> 32 word \<Rightarrow> ('o, 'k, 'z) tworld_scheme \<Rightarrow> (span \<Rightarrow> exn + sqe) \<Rightarrow> exn + sqe" where
  "buffered t b slot w g = (case buffers_at t b slot w of Inl e \<Rightarrow> Inl e | Inr data \<Rightarrow> g data)"

definition files_read_buffer :: "thread_id \<Rightarrow> table_id \<Rightarrow> 32 word \<Rightarrow> table_id \<Rightarrow> 32 word \<Rightarrow> 64 word \<Rightarrow> token_id option \<Rightarrow> addr \<Rightarrow> ('o, 'k, 'z) tworld_scheme \<Rightarrow> (unit, ('o, 'k, 'z) tworld_scheme) result" where
  "files_read_buffer t f index b slot off k a w =
     op_from (slot_prep t f index w (buffered t b slot w (\<lambda>data. fixed_transfer index data off False (sint slot))))
       t (ft_loop w f) k (Some f) (Some b) None a w"

definition files_write_buffer :: "thread_id \<Rightarrow> table_id \<Rightarrow> 32 word \<Rightarrow> table_id \<Rightarrow> 32 word \<Rightarrow> 64 word \<Rightarrow> token_id option \<Rightarrow> addr \<Rightarrow> ('o, 'k, 'z) tworld_scheme \<Rightarrow> (unit, ('o, 'k, 'z) tworld_scheme) result" where
  "files_write_buffer t f index b slot off k a w =
     op_from (slot_prep t f index w (buffered t b slot w (\<lambda>data. fixed_transfer index data off True (sint slot))))
       t (ft_loop w f) k (Some f) (Some b) None a w"

definition uring_read :: "thread_id \<Rightarrow> loop_id \<Rightarrow> int \<Rightarrow> span \<Rightarrow> 64 word \<Rightarrow> token_id option \<Rightarrow> addr \<Rightarrow> ('o, 'k, 'z) tworld_scheme \<Rightarrow> (unit, ('o, 'k, 'z) tworld_scheme) result" where
  "uring_read t l fd data off k a w = op_from (transfer fd data off False (-1)) t l k None None None a w"

definition uring_write :: "thread_id \<Rightarrow> loop_id \<Rightarrow> int \<Rightarrow> span \<Rightarrow> 64 word \<Rightarrow> token_id option \<Rightarrow> addr \<Rightarrow> ('o, 'k, 'z) tworld_scheme \<Rightarrow> (unit, ('o, 'k, 'z) tworld_scheme) result" where
  "uring_write t l fd data off k a w = op_from (transfer fd data off True (-1)) t l k None None None a w"

definition uring_nop :: "thread_id \<Rightarrow> loop_id \<Rightarrow> token_id option \<Rightarrow> addr \<Rightarrow> ('o, 'k, 'z) tworld_scheme \<Rightarrow> (unit, ('o, 'k, 'z) tworld_scheme) result" where
  "uring_nop t l k a w = op_from (Inr (sqe_of Prep_Nop)) t l k None None None a w"

subsection \<open>Batches\<close>

datatype link_order = Link_None | Link_Soft | Link_Hard

definition batchable :: "prep \<Rightarrow> bool" where
  "batchable p =
     (case p of
        Prep_Nop \<Rightarrow> True | Prep_Read _ _ _ _ \<Rightarrow> True | Prep_Write _ _ _ _ \<Rightarrow> True | Prep_Readv _ _ _ _ \<Rightarrow> True
      | Prep_Writev _ _ _ _ \<Rightarrow> True | Prep_Read_Fixed _ _ _ _ _ \<Rightarrow> True | Prep_Write_Fixed _ _ _ _ _ \<Rightarrow> True
      | Prep_Fsync _ _ \<Rightarrow> True | Prep_Fallocate _ _ _ _ \<Rightarrow> True | Prep_Splice _ _ _ _ _ _ \<Rightarrow> True
      | _ \<Rightarrow> False)"

definition batch_reserved :: "8 word" where
  "batch_reserved = IOSQE_CQE_SKIP_SUCCESS OR IOSQE_BUFFER_SELECT OR IOSQE_IO_LINK OR IOSQE_IO_HARDLINK"

definition chained :: "link_order \<Rightarrow> sqe \<Rightarrow> sqe" where
  "chained order s =
     (case order of
        Link_None \<Rightarrow> s
      | Link_Soft \<Rightarrow> s\<lparr>sq_flags := sq_flags s OR IOSQE_IO_LINK\<rparr>
      | Link_Hard \<Rightarrow> s\<lparr>sq_flags := sq_flags s OR IOSQE_IO_HARDLINK\<rparr>)"

text \<open>The validation loop: the entries to publish, and whether one of them drains the ring.\<close>

fun batch_prepare :: "link_order \<Rightarrow> sqe list \<Rightarrow> bool \<Rightarrow> exn + (sqe list \<times> bool)" where
  "batch_prepare order [] drain = Inr ([], drain)"
| "batch_prepare order (s # ss) drain =
     (if \<not> batchable (sq_prep s) then Inl (Invalid_Argument ''batch requires supported single-shot operations'')
      else if sq_flags s AND batch_reserved \<noteq> 0 then Inl (Invalid_Argument ''invalid batch SQE flags'')
      else
        (let s1 = (if ss \<noteq> [] then chained order s else s) in
         case batch_prepare order ss (drain \<or> sq_flags s1 AND IOSQE_IO_DRAIN \<noteq> 0) of
           Inl e \<Rightarrow> Inl e
         | Inr (rs, d) \<Rightarrow> Inr (s1 # rs, d)))"

text \<open>The stable node of entry \<open>i\<close>, and its hooks.\<close>

definition entry_init :: "loop_id \<Rightarrow> batch_id \<Rightarrow> nat \<Rightarrow> sqe \<Rightarrow> addr \<Rightarrow> ('o, 'k, 'z) tworld_scheme \<Rightarrow> ('o, 'k, 'z) tworld_scheme" where
  "entry_init l b i s a w =
     (let w1 = native_init l s None None a w in
      w1\<lparr>io_hook := (io_hook w1)(a := True), en_batch := (en_batch w1)(a := b), en_index := (en_index w1)(a := i)\<rparr>)"

fun entries_init :: "loop_id \<Rightarrow> batch_id \<Rightarrow> nat \<Rightarrow> (addr \<times> sqe) list \<Rightarrow> ('o, 'k, 'z) tworld_scheme \<Rightarrow> ('o, 'k, 'z) tworld_scheme" where
  "entries_init l b i [] w = w"
| "entries_init l b i ((a, s) # es) w = entries_init l b (i + 1) es (entry_init l b i s a w)"

definition entry_result :: "addr \<Rightarrow> int \<Rightarrow> 32 word \<Rightarrow> ('o, 'k, 'z) tworld_scheme \<Rightarrow> ('o, 'k, 'z) tworld_scheme" where
  "entry_result a res flags w =
     w\<lparr>ba_results := (ba_results w)(en_batch w a := (ba_results w (en_batch w a))[en_index w a := res])\<rparr>"

text \<open>\<^verbatim>\<open>event::set\<close> inside a \<^verbatim>\<open>noexcept\<close> hook, on the owner's thread.\<close>

definition event_fire :: "event_id \<Rightarrow> 'z events_scheme \<Rightarrow> 'z events_scheme" where
  "event_fire e w =
     (case event_set (lp_thread (loops w (ev_loop w e))) e w of Some (_, w1) \<Rightarrow> w1 | None \<Rightarrow> w)"

definition entry_retire :: "addr \<Rightarrow> ('o, 'k, 'z) tworld_scheme \<Rightarrow> ('o, 'k, 'z) tworld_scheme" where
  "entry_retire a w =
     (let b = en_batch w a; w1 = w\<lparr>ba_pending := (ba_pending w)(b := ba_pending w b - 1)\<rparr>
      in if ba_pending w1 b = 0 then event_fire (ba_done w1 b) w1 else w1)"

definition batch_hooks :: "('o, 'k, 'z) tworld_scheme hooks" where
  "batch_hooks = \<lparr>hk_result = entry_result, hk_retire = entry_retire\<rparr>"

fun batch_start :: "'k kern \<Rightarrow> thread_id \<Rightarrow> addr list \<Rightarrow> ('o, 'k, 'z) uworld_scheme \<Rightarrow> (unit, ('o, 'k, 'z) uworld_scheme) result option" where
  "batch_start K t [] w = Some (Inr (), w)"
| "batch_start K t (a # xs) w =
     (case access_start K t a w of Some (Inr _, w1) \<Rightarrow> batch_start K t xs w1 | r \<Rightarrow> r)"

text \<open>\<^verbatim>\<open>submit\<close>: the nodes live at \<open>xs\<close>; \<open>await\<close> is \<^verbatim>\<open>co_await done.join()\<close>.\<close>

definition batch_submit :: "'k kern \<Rightarrow> (event_id \<Rightarrow> ('o, 'k, 'z) tworld_scheme \<Rightarrow> (unit, ('o, 'k, 'z) tworld_scheme) result) \<Rightarrow> thread_id \<Rightarrow> loop_id \<Rightarrow>
    sqe list \<Rightarrow> link_order \<Rightarrow> token_id option \<Rightarrow> batch_id \<Rightarrow> event_id \<Rightarrow> addr list \<Rightarrow>
    ('o, 'k, 'z) tworld_scheme \<Rightarrow> (int list, ('o, 'k, 'z) tworld_scheme) result option" where
  "batch_submit K await t l entries order k b e xs w =
     (if \<not> loop_check t l w then Some (Inl wrong_thread, w)
      else if loop_stopped l w \<or> stop_requested k w then Some (Inl (System_Error Operation_Canceled), w)
      else if entries = [] then Some (Inr [], w)
      else if length entries > 32768 then Some (Inl (Invalid_Argument ''batch exceeds maximum ring size''), w)
      else case batch_prepare order entries False of
        Inl x \<Rightarrow> Some (Inl x, w)
      | Inr (ss, drain) \<Rightarrow>
          (let n = length entries; w0 = event_init l e w;
               w1 = entries_init l b 0 (zip xs ss)
                 (w0\<lparr>ba_done := (ba_done w0)(b := e), ba_pending := (ba_pending w0)(b := n), ba_results := (ba_results w0)(b := replicate n 0)\<rparr>) in
           case access_reserve K t l n drain w1 of
             Some (Inr _, w2) \<Rightarrow>
               (case batch_start K t xs (case k of None \<Rightarrow> w2 | Some tk \<Rightarrow> fold (\<lambda>a. callback_emplace a tk) xs w2) of
                  Some (Inr _, w3) \<Rightarrow>
                    (case await e w3 of (Inl x, w4) \<Rightarrow> Some (Inl x, w4) | (Inr _, w4) \<Rightarrow> Some (Inr (ba_results w4 b), w4))
                | Some (Inl x, w3) \<Rightarrow> Some (Inl x, w3)
                | None \<Rightarrow> None)
           | Some (Inl x, w2) \<Rightarrow> Some (Inl x, w2)
           | None \<Rightarrow> None))"

end
