(* ===== verification/Uring_Extra.thy ===== *)
theory Uring_Extra
  imports Uring_Ops
begin

text \<open>
  The single system call requests of \<^verbatim>\<open>uring_extra.cpp\<close> and the descriptor they return
  (\<^verbatim>\<open>class fd\<close>, \<^verbatim>\<open>class open_op\<close> of \<^verbatim>\<open>uring_ops.hpp\<close>).  A path is a possibly null address.
\<close>

definition path_check :: "nat option \<Rightarrow> exn + nat" where
  "path_check p = (case p of None \<Rightarrow> Inl (Invalid_Argument ''null path'') | Some q \<Rightarrow> Inr q)"

text \<open>\<^verbatim>\<open>vectors\<close>: the running total is a 64-bit unsigned integer.\<close>

fun vectors_total :: "iovec list \<Rightarrow> 64 word \<Rightarrow> (64 word) option" where
  "vectors_total [] acc = Some acc"
| "vectors_total (v # vs) acc =
     (if iov_len v > INT_MAX64 - acc \<or> iov_base v = None \<and> iov_len v \<noteq> 0 then None
      else vectors_total vs (acc + iov_len v))"

definition IOV_MAX :: nat where "IOV_MAX = 1024"

definition vectors :: "iovec list \<Rightarrow> 64 word \<Rightarrow> exn + unit" where
  "vectors data off =
     (if length data > IOV_MAX \<or> off > INT64_MAX then Inl (Invalid_Argument ''invalid vector range'')
      else case vectors_total data 0 of
        None \<Rightarrow> Inl (Invalid_Argument ''invalid I/O vector'')
      | Some acc \<Rightarrow>
          if acc > INT64_MAX - off then Inl (Invalid_Argument ''vector offset overflow'') else Inr ())"

text \<open>\<^verbatim>\<open>class fd\<close>: the value it holds; destruction closes a live one.\<close>

definition fd_release :: "int \<Rightarrow> int \<times> int" where
  "fd_release v = (v, -1)"

definition fd_destroy :: "'o sys \<Rightarrow> int \<Rightarrow> ('o, 'z) ports_scheme \<Rightarrow> ('o, 'z) ports_scheme" where
  "fd_destroy S v w = (if v \<ge> 0 then w\<lparr>os := sys_close S v (os w)\<rparr> else w)"

text \<open>\<^verbatim>\<open>open_op\<close>: a request whose result is a descriptor it owns until it is awaited.\<close>

definition open_result :: "addr \<Rightarrow> int \<Rightarrow> 32 word \<Rightarrow> ('o, 'k, 'z) tworld_scheme \<Rightarrow> ('o, 'k, 'z) tworld_scheme" where
  "open_result a res flags w =
     (if res < 0 then set_error a (Some (Errno (nat (- res)))) w
      else w\<lparr>io_accepted := (io_accepted w)(a := res)\<rparr>)"

definition open_resume :: "addr \<Rightarrow> ('o, 'z) ports_scheme \<Rightarrow> (int, ('o, 'z) ports_scheme) result" where
  "open_resume a w =
     (case op_resume a w of
        Inl e \<Rightarrow> (Inl e, w)
      | Inr _ \<Rightarrow> (Inr (io_accepted w a), w\<lparr>io_accepted := (io_accepted w)(a := -1)\<rparr>))"

text \<open>Every request below is a checked entry on a loop, without table pins.\<close>

definition plain_op :: "exn + prep \<Rightarrow> thread_id \<Rightarrow> loop_id \<Rightarrow> token_id option \<Rightarrow> addr \<Rightarrow> ('o, 'k, 'z) tworld_scheme \<Rightarrow> (unit, ('o, 'k, 'z) tworld_scheme) result" where
  "plain_op r t l k a w = op_from (case r of Inl e \<Rightarrow> Inl e | Inr p \<Rightarrow> Inr (sqe_of p)) t l k None None None a w"

definition on_path :: "nat option \<Rightarrow> (nat \<Rightarrow> exn + prep) \<Rightarrow> exn + prep" where
  "on_path p g = (case path_check p of Inl e \<Rightarrow> Inl e | Inr q \<Rightarrow> g q)"

definition uring_openat :: "thread_id \<Rightarrow> loop_id \<Rightarrow> int \<Rightarrow> nat option \<Rightarrow> nat \<Rightarrow> nat \<Rightarrow> token_id option \<Rightarrow> addr \<Rightarrow> ('o, 'k, 'z) tworld_scheme \<Rightarrow> (unit, ('o, 'k, 'z) tworld_scheme) result" where
  "uring_openat t l dir name flags mode k a w =
     plain_op (on_path name (\<lambda>p. Inr (Prep_Openat dir p (int (flags OR O_CLOEXEC)) mode))) t l k a w"

definition uring_statx :: "thread_id \<Rightarrow> loop_id \<Rightarrow> int \<Rightarrow> nat option \<Rightarrow> nat \<Rightarrow> nat \<Rightarrow> int \<Rightarrow> token_id option \<Rightarrow> addr \<Rightarrow> ('o, 'k, 'z) tworld_scheme \<Rightarrow> (unit, ('o, 'k, 'z) tworld_scheme) result" where
  "uring_statx t l dir name out want flags k a w =
     plain_op (on_path name (\<lambda>p. Inr (Prep_Statx dir p flags want out))) t l k a w"

definition uring_rename :: "thread_id \<Rightarrow> loop_id \<Rightarrow> nat option \<Rightarrow> nat option \<Rightarrow> nat \<Rightarrow> token_id option \<Rightarrow> addr \<Rightarrow> ('o, 'k, 'z) tworld_scheme \<Rightarrow> (unit, ('o, 'k, 'z) tworld_scheme) result" where
  "uring_rename t l src dst flags k a w =
     plain_op (on_path src (\<lambda>p. on_path dst (\<lambda>q. Inr (Prep_Renameat AT_FDCWD p AT_FDCWD q flags)))) t l k a w"

definition uring_unlink :: "thread_id \<Rightarrow> loop_id \<Rightarrow> nat option \<Rightarrow> int \<Rightarrow> token_id option \<Rightarrow> addr \<Rightarrow> ('o, 'k, 'z) tworld_scheme \<Rightarrow> (unit, ('o, 'k, 'z) tworld_scheme) result" where
  "uring_unlink t l name flags k a w = plain_op (on_path name (\<lambda>p. Inr (Prep_Unlink p flags))) t l k a w"

definition uring_mkdir :: "thread_id \<Rightarrow> loop_id \<Rightarrow> nat option \<Rightarrow> nat \<Rightarrow> token_id option \<Rightarrow> addr \<Rightarrow> ('o, 'k, 'z) tworld_scheme \<Rightarrow> (unit, ('o, 'k, 'z) tworld_scheme) result" where
  "uring_mkdir t l name mode k a w = plain_op (on_path name (\<lambda>p. Inr (Prep_Mkdir p mode))) t l k a w"

definition IORING_FSYNC_DATASYNC :: nat where "IORING_FSYNC_DATASYNC = 1"

definition uring_fsync :: "thread_id \<Rightarrow> loop_id \<Rightarrow> int \<Rightarrow> bool \<Rightarrow> token_id option \<Rightarrow> addr \<Rightarrow> ('o, 'k, 'z) tworld_scheme \<Rightarrow> (unit, ('o, 'k, 'z) tworld_scheme) result" where
  "uring_fsync t l file data_only k a w =
     plain_op (Inr (Prep_Fsync file (if data_only then IORING_FSYNC_DATASYNC else 0))) t l k a w"

definition extent :: "64 word \<Rightarrow> 64 word \<Rightarrow> exn + unit" where
  "extent off len = (if off > INT64_MAX \<or> len > INT64_MAX - off then Inl (Invalid_Argument ''extent overflow'') else Inr ())"

definition uring_fallocate :: "thread_id \<Rightarrow> loop_id \<Rightarrow> int \<Rightarrow> 64 word \<Rightarrow> 64 word \<Rightarrow> int \<Rightarrow> token_id option \<Rightarrow> addr \<Rightarrow> ('o, 'k, 'z) tworld_scheme \<Rightarrow> (unit, ('o, 'k, 'z) tworld_scheme) result" where
  "uring_fallocate t l file off len mode k a w =
     plain_op (case extent off len of Inl e \<Rightarrow> Inl e | Inr _ \<Rightarrow> Inr (Prep_Fallocate file mode off len)) t l k a w"

text \<open>The vectors are an array at address \<open>p\<close>.\<close>

definition uring_readv :: "thread_id \<Rightarrow> loop_id \<Rightarrow> int \<Rightarrow> nat \<Rightarrow> iovec list \<Rightarrow> 64 word \<Rightarrow> token_id option \<Rightarrow> addr \<Rightarrow> ('o, 'k, 'z) tworld_scheme \<Rightarrow> (unit, ('o, 'k, 'z) tworld_scheme) result" where
  "uring_readv t l file p data off k a w =
     plain_op (case vectors data off of Inl e \<Rightarrow> Inl e | Inr _ \<Rightarrow> Inr (Prep_Readv file p (word_of_nat (length data)) off)) t l k a w"

definition uring_writev :: "thread_id \<Rightarrow> loop_id \<Rightarrow> int \<Rightarrow> nat \<Rightarrow> iovec list \<Rightarrow> 64 word \<Rightarrow> token_id option \<Rightarrow> addr \<Rightarrow> ('o, 'k, 'z) tworld_scheme \<Rightarrow> (unit, ('o, 'k, 'z) tworld_scheme) result" where
  "uring_writev t l file p data off k a w =
     plain_op (case vectors data off of Inl e \<Rightarrow> Inl e | Inr _ \<Rightarrow> Inr (Prep_Writev file p (word_of_nat (length data)) off)) t l k a w"

definition uring_splice :: "thread_id \<Rightarrow> loop_id \<Rightarrow> int \<Rightarrow> int \<Rightarrow> int \<Rightarrow> int \<Rightarrow> 32 word \<Rightarrow> nat \<Rightarrow> token_id option \<Rightarrow> addr \<Rightarrow> ('o, 'k, 'z) tworld_scheme \<Rightarrow> (unit, ('o, 'k, 'z) tworld_scheme) result" where
  "uring_splice t l src src_off dst dst_off len flags k a w =
     plain_op (if len > INT_MAX32 \<or> src_off < -1 \<or> dst_off < -1 then Inl (Invalid_Argument ''invalid splice range'')
               else Inr (Prep_Splice src src_off dst dst_off len flags)) t l k a w"

definition uring_waitid :: "thread_id \<Rightarrow> loop_id \<Rightarrow> int \<Rightarrow> int \<Rightarrow> nat \<Rightarrow> int \<Rightarrow> token_id option \<Rightarrow> addr \<Rightarrow> ('o, 'k, 'z) tworld_scheme \<Rightarrow> (unit, ('o, 'k, 'z) tworld_scheme) result" where
  "uring_waitid t l idtype ident out opts k a w = plain_op (Inr (Prep_Waitid idtype ident out opts 0)) t l k a w"

definition uring_poll_once :: "thread_id \<Rightarrow> loop_id \<Rightarrow> int \<Rightarrow> nat \<Rightarrow> token_id option \<Rightarrow> addr \<Rightarrow> ('o, 'k, 'z) tworld_scheme \<Rightarrow> (unit, ('o, 'k, 'z) tworld_scheme) result" where
  "uring_poll_once t l file evs k a w = plain_op (Inr (Prep_Poll_Add file evs)) t l k a w"

end
