(* ===== verification/Uring_Net.thy ===== *)
theory Uring_Net
  imports Uring_Extra
begin

text \<open>
  Zero-copy sends and provided buffers (\<^verbatim>\<open>uring_net.cpp\<close> and the class definitions of
  \<^verbatim>\<open>uring.hpp\<close>).  The callback that receives a lease and the waits of coroutines are parameters.
\<close>

subsection \<open>State\<close>

type_synonym pool_id = nat

text \<open>A published ring slot: address, length and buffer id.\<close>

record ('o, 'k) nworld = "('o, 'k) tworld" +
  zs_sent :: "addr \<Rightarrow> event_id"
  zs_released :: "addr \<Rightarrow> event_id"
  zs_started :: "addr \<Rightarrow> bool"
  pv_loop :: "pool_id \<Rightarrow> loop_id"
  pv_count :: "pool_id \<Rightarrow> nat"
  pv_size :: "pool_id \<Rightarrow> nat"
  pv_leases :: "pool_id \<Rightarrow> nat"
  pv_active :: "pool_id \<Rightarrow> nat"
  pv_group :: "pool_id \<Rightarrow> 16 word"
  pv_data :: "pool_id \<Rightarrow> nat"
  pv_held :: "pool_id \<Rightarrow> bool list"
  pv_next :: "pool_id \<Rightarrow> nat list"
  pv_tail :: "pool_id \<Rightarrow> nat"
  pv_returned :: "pool_id \<Rightarrow> event_id"
  pv_ring :: "pool_id \<Rightarrow> (nat \<times> nat \<times> nat) list"

subsection \<open>Zero-copy sends\<close>

definition IORING_RECVSEND_FIXED_BUF :: "16 word" where "IORING_RECVSEND_FIXED_BUF = 4"

definition tx :: "sock_id \<Rightarrow> span \<Rightarrow> ('o, 'z) ports_scheme \<Rightarrow> exn + sqe" where
  "tx s data w =
     (if snd data > INT_MAX64 then Inl (Invalid_Argument ''send_zc size overflow'')
      else Inr (sqe_of (Prep_Send_Zc (sk_fd w s) (fst data) (snd data) MSG_NOSIGNAL 0)))"

definition tx_buffer :: "thread_id \<Rightarrow> sock_id \<Rightarrow> table_id \<Rightarrow> 32 word \<Rightarrow> ('o, 'k, 'z) tworld_scheme \<Rightarrow> exn + sqe" where
  "tx_buffer t s b index w =
     (case buffers_at t b index w of
        Inl e \<Rightarrow> Inl e
      | Inr data \<Rightarrow>
          (case tx s data w of
             Inl e \<Rightarrow> Inl e
           | Inr q \<Rightarrow> Inr (q\<lparr>sq_ioprio := sq_ioprio q OR IORING_RECVSEND_FIXED_BUF, sq_buf_index := ucast index\<rparr>)))"

text \<open>A request on a socket: \<^verbatim>\<open>access::owner\<close> and \<^verbatim>\<open>access::direction\<close> check the socket first.\<close>

definition socket_op :: "thread_id \<Rightarrow> sock_id \<Rightarrow> exn + sqe \<Rightarrow> token_id option \<Rightarrow> table_id option \<Rightarrow> addr \<Rightarrow> ('o, 'k, 'z) tworld_scheme \<Rightarrow> (unit, ('o, 'k, 'z) tworld_scheme) result" where
  "socket_op t s q k b a w =
     (case socket_check t s w of
        Inl e \<Rightarrow> (Inl e, w)
      | Inr _ \<Rightarrow> op_from q t (sk_loop w s) k None b (Some (writing s)) a w)"

definition send_zc :: "thread_id \<Rightarrow> sock_id \<Rightarrow> span \<Rightarrow> token_id option \<Rightarrow> addr \<Rightarrow> ('o, 'k, 'z) tworld_scheme \<Rightarrow> (unit, ('o, 'k, 'z) tworld_scheme) result" where
  "send_zc t s data k a w = socket_op t s (tx s data w) k None a w"

definition send_zc_buffer :: "thread_id \<Rightarrow> sock_id \<Rightarrow> table_id \<Rightarrow> 32 word \<Rightarrow> token_id option \<Rightarrow> addr \<Rightarrow> ('o, 'k, 'z) tworld_scheme \<Rightarrow> (unit, ('o, 'k, 'z) tworld_scheme) result" where
  "send_zc_buffer t s b index k a w = socket_op t s (tx_buffer t s b index w) k (Some b) a w"

definition sendmsg_zc :: "thread_id \<Rightarrow> sock_id \<Rightarrow> nat \<Rightarrow> token_id option \<Rightarrow> addr \<Rightarrow> ('o, 'k, 'z) tworld_scheme \<Rightarrow> (unit, ('o, 'k, 'z) tworld_scheme) result" where
  "sendmsg_zc t s msg k a w = socket_op t s (Inr (sqe_of (Prep_Sendmsg_Zc (sk_fd w s) msg MSG_NOSIGNAL))) k None a w"

text \<open>\<^verbatim>\<open>zc_send::zc_send\<close>: the events \<open>sent\<close> and \<open>released\<close> are members.\<close>

definition zc_new :: "thread_id \<Rightarrow> sock_id \<Rightarrow> exn + sqe \<Rightarrow> token_id option \<Rightarrow> table_id option \<Rightarrow> event_id \<Rightarrow> event_id \<Rightarrow> addr \<Rightarrow>
    ('o, 'k, 'z) nworld_scheme \<Rightarrow> (unit, ('o, 'k, 'z) nworld_scheme) result" where
  "zc_new t s q k b sent released a w =
     (case q of
        Inl e \<Rightarrow> (Inl e, w)
      | Inr _ \<Rightarrow>
          (case socket_op t s q k b a w of
             (Inl e, w1) \<Rightarrow> (Inl e, w1)
           | (Inr _, w1) \<Rightarrow>
               (let w2 = event_init (op_owner w1 a) released (event_init (op_owner w1 a) sent w1) in
                (Inr (), w2\<lparr>zs_sent := (zs_sent w2)(a := sent), zs_released := (zs_released w2)(a := released),
                            zs_started := (zs_started w2)(a := False), io_hook := (io_hook w2)(a := True)\<rparr>))))"

definition zc_result :: "addr \<Rightarrow> int \<Rightarrow> 32 word \<Rightarrow> ('o, 'k, 'z) nworld_scheme \<Rightarrow> ('o, 'k, 'z) nworld_scheme" where
  "zc_result a res flags w =
     (if flags AND CQE_F_NOTIF \<noteq> 0 then w
      else
        (let w1 = (if res < 0 then set_error a (Some (Errno (nat (- res)))) w else w\<lparr>io_bytes := (io_bytes w)(a := nat res)\<rparr>);
             w2 = io_release a w1
         in if res \<ge> 0 then event_fire (zs_sent w2 a) w2 else w2))"

definition zc_retire :: "addr \<Rightarrow> ('o, 'k, 'z) nworld_scheme \<Rightarrow> ('o, 'k, 'z) nworld_scheme" where
  "zc_retire a w = event_fire (zs_released w a) (event_fire (zs_sent w a) w)"

definition zc_hooks :: "('o, 'k, 'z) nworld_scheme hooks" where
  "zc_hooks = \<lparr>hk_result = zc_result, hk_retire = zc_retire\<rparr>"

text \<open>\<^verbatim>\<open>zc_send::start\<close>, with \<^verbatim>\<open>io::await_suspend\<close> on the backend's \<open>submit\<close>; \<open>noop\<close> is \<^verbatim>\<open>std::noop_coroutine()\<close>.\<close>

definition zc_start :: "(addr \<Rightarrow> ('o, 'k, 'z) nworld_scheme \<Rightarrow> (unit, ('o, 'k, 'z) nworld_scheme) result) \<Rightarrow> handle_id \<Rightarrow> thread_id \<Rightarrow> addr \<Rightarrow>
    ('o, 'k, 'z) nworld_scheme \<Rightarrow> (unit, ('o, 'k, 'z) nworld_scheme) result" where
  "zc_start submit noop t a w =
     (if \<not> loop_check t (op_owner w a) w then (Inl wrong_thread, w)
      else if zs_started w a then (Inl (Logic_Error ''zero-copy send already started''), w)
      else
        (case io_suspend submit zc_retire t a noop (w\<lparr>zs_started := (zs_started w)(a := True)\<rparr>) of
           (Inl e, w1) \<Rightarrow> (Inl e, zc_retire a w1)
         | (Inr False, w1) \<Rightarrow> (Inr (), zc_retire a w1)
         | (Inr True, w1) \<Rightarrow> (Inr (), w1)))"

definition zc_join :: "addr \<Rightarrow> ('o, 'k, 'z) nworld_scheme \<Rightarrow> exn + event_id" where
  "zc_join a w = (if \<not> zs_started w a then Inl (Logic_Error ''zero-copy send not started'') else Inr (zs_released w a))"

subsection \<open>Provided buffers\<close>

definition SIZE_MAX :: "64 word" where "SIZE_MAX = - 1"

definition capacity :: "32 word \<Rightarrow> 32 word \<Rightarrow> exn + 64 word" where
  "capacity n len =
     (if n = 0 \<or> n > 32768 \<or> \<not> single_bit (ucast n) \<or> len = 0 \<or> len > INT_MAX32 \<or> (ucast len :: 64 word) > SIZE_MAX div ucast n
      then Inl (Invalid_Argument ''invalid provided buffers'') else Inr (ucast n * ucast len))"

record 'k bufring =
  br_register :: "32 word \<Rightarrow> 16 word \<Rightarrow> 'k \<Rightarrow> int \<times> 'k"
  br_unregister :: "16 word \<Rightarrow> 'k \<Rightarrow> int \<times> 'k"

text \<open>\<^verbatim>\<open>io_uring_buf_ring_add\<close> and \<^verbatim>\<open>io_uring_buf_ring_advance\<close>: append a slot.\<close>

definition publish :: "pool_id \<Rightarrow> nat \<Rightarrow> ('o, 'k, 'z) nworld_scheme \<Rightarrow> ('o, 'k, 'z) nworld_scheme" where
  "publish p i w = w\<lparr>pv_ring := (pv_ring w)(p := pv_ring w p @ [(pv_data w p + i * pv_size w p, pv_size w p, i)])\<rparr>"

definition u16 :: "nat \<Rightarrow> nat" where "u16 n = n mod 65536"

text \<open>\<^verbatim>\<open>provided::provided\<close>; \<open>base\<close> is the allocation and \<open>e\<close> the member event.\<close>

definition provided_new :: "'k bufring \<Rightarrow> thread_id \<Rightarrow> loop_id \<Rightarrow> 32 word \<Rightarrow> 32 word \<Rightarrow> 16 word \<Rightarrow> nat \<Rightarrow> event_id \<Rightarrow> pool_id \<Rightarrow>
    ('o, 'k, 'z) nworld_scheme \<Rightarrow> (unit, ('o, 'k, 'z) nworld_scheme) result" where
  "provided_new B t l entries len bgid base e p w =
     (case capacity entries len of
        Inl x \<Rightarrow> (Inl x, w)
      | Inr _ \<Rightarrow>
          (let n = unat entries; w0 = event_init l e w;
               w1 = w0\<lparr>pv_loop := (pv_loop w0)(p := l), pv_count := (pv_count w0)(p := n), pv_size := (pv_size w0)(p := unat len),
                       pv_leases := (pv_leases w0)(p := 0), pv_active := (pv_active w0)(p := 0), pv_group := (pv_group w0)(p := bgid),
                       pv_data := (pv_data w0)(p := base), pv_held := (pv_held w0)(p := replicate n False),
                       pv_next := (pv_next w0)(p := replicate n 0), pv_tail := (pv_tail w0)(p := n - 1),
                       pv_returned := (pv_returned w0)(p := e), pv_ring := (pv_ring w0)(p := [])\<rparr> in
           case reg_call t l (br_register B entries bgid) w1 of
             (Inl x, w2) \<Rightarrow> (Inl x, w2)
           | (Inr _, w2) \<Rightarrow>
               (Inr (), fold (publish p) [0 ..< n] (w2\<lparr>pv_next := (pv_next w2)(p := map (\<lambda>i. u16 ((i + 1) mod n)) [0 ..< n])\<rparr>))))"

definition provided_destroy :: "'k bufring \<Rightarrow> thread_id \<Rightarrow> pool_id \<Rightarrow> ('o, 'k, 'z) nworld_scheme \<Rightarrow> ('o, 'k, 'z) nworld_scheme option" where
  "provided_destroy B t p w =
     (if pv_active w p \<noteq> 0 \<or> pv_leases w p \<noteq> 0 then None
      else case reg_call t (pv_loop w p) (br_unregister B (pv_group w p)) w of (Inl _, _) \<Rightarrow> None | (Inr _, w1) \<Rightarrow> Some w1)"

text \<open>A lease: the pool, or nothing once released or moved from, the id and the bytes.\<close>

record chunk =
  ck_owner :: "pool_id option"
  ck_id :: nat
  ck_data :: "nat \<times> nat"

definition buffer_id :: "32 word \<Rightarrow> nat" where
  "buffer_id flags = unat (drop_bit 16 flags)"

definition provided_take :: "thread_id \<Rightarrow> pool_id \<Rightarrow> 32 word \<Rightarrow> nat \<Rightarrow> ('o, 'k, 'z) nworld_scheme \<Rightarrow> (chunk, ('o, 'k, 'z) nworld_scheme) result" where
  "provided_take t p flags len w =
     (let i = buffer_id flags in
      if \<not> loop_check t (pv_loop w p) w then (Inl wrong_thread, w)
      else if flags AND CQE_F_BUFFER = 0 \<or> i \<ge> pv_count w p \<or> pv_held w p ! i \<or> len > pv_size w p
        then (Inl (Runtime_Error ''invalid provided buffer completion''), w)
      else (Inr \<lparr>ck_owner = Some p, ck_id = i, ck_data = (pv_data w p + i * pv_size w p, len)\<rparr>,
            w\<lparr>pv_held := (pv_held w)(p := (pv_held w p)[i := True]), pv_leases := (pv_leases w)(p := pv_leases w p + 1)\<rparr>))"

text \<open>\<^verbatim>\<open>provided::put\<close> is \<^verbatim>\<open>noexcept\<close>: on another thread (\<^const>\<open>None\<close>) the program terminates.\<close>

definition provided_put :: "thread_id \<Rightarrow> pool_id \<Rightarrow> nat \<Rightarrow> ('o, 'k, 'z) nworld_scheme \<Rightarrow> ('o, 'k, 'z) nworld_scheme option" where
  "provided_put t p i w =
     (if \<not> loop_check t (pv_loop w p) w then None
      else
        (let w1 = w\<lparr>pv_held := (pv_held w)(p := (pv_held w p)[i := False]), pv_leases := (pv_leases w)(p := pv_leases w p - 1),
                    pv_next := (pv_next w)(p := (pv_next w p)[pv_tail w p := u16 i]), pv_tail := (pv_tail w)(p := i)\<rparr>
         in Some (event_fire (pv_returned w1 p) (publish p i w1))))"

definition chunk_release :: "thread_id \<Rightarrow> chunk \<Rightarrow> ('o, 'k, 'z) nworld_scheme \<Rightarrow> (chunk \<times> ('o, 'k, 'z) nworld_scheme) option" where
  "chunk_release t c w =
     (case ck_owner c of
        None \<Rightarrow> Some (c, w)
      | Some p \<Rightarrow> (case provided_put t p (ck_id c) w of None \<Rightarrow> None | Some w1 \<Rightarrow> Some (c\<lparr>ck_owner := None\<rparr>, w1)))"

definition chunk_destroy :: "thread_id \<Rightarrow> chunk \<Rightarrow> ('o, 'k, 'z) nworld_scheme \<Rightarrow> ('o, 'k, 'z) nworld_scheme option" where
  "chunk_destroy t c w = map_option snd (chunk_release t c w)"

text \<open>The move constructor gives the new and the emptied lease; move assignment returns the old one first.\<close>

definition chunk_move :: "chunk \<Rightarrow> chunk \<times> chunk" where
  "chunk_move other = (other, other\<lparr>ck_owner := None\<rparr>)"

definition chunk_assign :: "thread_id \<Rightarrow> chunk \<Rightarrow> chunk \<Rightarrow> ('o, 'k, 'z) nworld_scheme \<Rightarrow> (chunk \<times> chunk \<times> ('o, 'k, 'z) nworld_scheme) option" where
  "chunk_assign t c other w =
     (case chunk_release t c w of None \<Rightarrow> None | Some (_, w1) \<Rightarrow> Some (other, other\<lparr>ck_owner := None\<rparr>, w1))"

text \<open>
  \<^verbatim>\<open>provided::each\<close>: \<open>fn\<close> receives the lease (\<^const>\<open>None\<close>: it ended the program).  After a failure of \<open>fn\<close> the remaining leases are taken
  and returned at once.
\<close>

fun each_loop :: "(chunk \<Rightarrow> ('o, 'k, 'z) nworld_scheme \<Rightarrow> (unit, ('o, 'k, 'z) nworld_scheme) result option) \<Rightarrow> thread_id \<Rightarrow> pool_id \<Rightarrow> 32 word \<Rightarrow>
    nat \<Rightarrow> nat \<Rightarrow> nat \<Rightarrow> exn option \<Rightarrow> ('o, 'k, 'z) nworld_scheme \<Rightarrow> (unit, ('o, 'k, 'z) nworld_scheme) result option" where
  "each_loop fn t p flags 0 i len failure w = Some (case failure of None \<Rightarrow> Inr () | Some e \<Rightarrow> Inl e, w)"
| "each_loop fn t p flags (Suc parts) i len failure w =
     (if i \<ge> pv_count w p then Some (Inl (Runtime_Error ''invalid receive bundle ID''), w)
      else
        (let following = pv_next w p ! i; bytes = min len (pv_size w p) in
         case provided_take t p ((flags AND 65535) OR push_bit 16 (word_of_nat i)) bytes w of
           (Inl e, w1) \<Rightarrow> Some (Inl e, w1)
         | (Inr c, w1) \<Rightarrow>
             (case failure of
                None \<Rightarrow>
                  (case fn c w1 of
                     None \<Rightarrow> None
                   | Some (Inl e, w2) \<Rightarrow> each_loop fn t p flags parts following (len - bytes) (Some e) w2
                   | Some (Inr _, w2) \<Rightarrow> each_loop fn t p flags parts following (len - bytes) None w2)
              | Some e \<Rightarrow>
                  (case chunk_destroy t c w1 of
                     None \<Rightarrow> None
                   | Some w2 \<Rightarrow> each_loop fn t p flags parts following (len - bytes) (Some e) w2))))"

definition bundle_parts :: "nat \<Rightarrow> nat \<Rightarrow> nat" where
  "bundle_parts len slot = (if len \<noteq> 0 then (len - 1) div slot + 1 else 1)"

definition provided_each :: "(chunk \<Rightarrow> ('o, 'k, 'z) nworld_scheme \<Rightarrow> (unit, ('o, 'k, 'z) nworld_scheme) result option) \<Rightarrow> thread_id \<Rightarrow> pool_id \<Rightarrow> 32 word \<Rightarrow>
    nat \<Rightarrow> ('o, 'k, 'z) nworld_scheme \<Rightarrow> (unit, ('o, 'k, 'z) nworld_scheme) result option" where
  "provided_each fn t p flags len w =
     (let parts = bundle_parts len (pv_size w p) in
      if parts > pv_count w p then Some (Inl (Runtime_Error ''invalid receive bundle size''), w)
      else each_loop fn t p flags parts (buffer_id flags) len None w)"

text \<open>\<^verbatim>\<open>provided::available\<close>; \<open>await\<close> is the wait on the event of returned buffers.\<close>

partial_function (option) provided_available :: "(event_id \<Rightarrow> ('o, 'k, 'z) nworld_scheme \<Rightarrow> (unit, ('o, 'k, 'z) nworld_scheme) result) \<Rightarrow> thread_id \<Rightarrow>
    pool_id \<Rightarrow> ('o, 'k, 'z) nworld_scheme \<Rightarrow> (unit, ('o, 'k, 'z) nworld_scheme) result option" where
  "provided_available await t p w =
     (if pv_leases w p = pv_count w p then
        (case event_reset t (pv_returned w p) w of
           (Inl e, w1) \<Rightarrow> Some (Inl e, w1)
         | (Inr _, w1) \<Rightarrow>
             (case await (pv_returned w p) w1 of
                (Inl e, w2) \<Rightarrow> Some (Inl e, w2)
              | (Inr _, w2) \<Rightarrow> provided_available await t p w2))
      else Some (Inr (), w))"

end
