(* ===== verification/Uring_Stream.thy ===== *)
theory Uring_Stream
  imports Uring_Net
begin

text \<open>
  Multishot requests (\<^verbatim>\<open>class stream\<close>) and the coroutines built on them: \<^verbatim>\<open>recvmsg\<close>, \<^verbatim>\<open>receive\<close>,
  \<^verbatim>\<open>recv\<close> and \<^verbatim>\<open>accept\<close> of \<^verbatim>\<open>uring.hpp\<close>, \<^verbatim>\<open>watch\<close>, \<^verbatim>\<open>ticks\<close> and \<^verbatim>\<open>read\<close> of \<^verbatim>\<open>uring_multi.hpp\<close>.
  User callbacks are parameters, and so is \<^verbatim>\<open>co_await request\<close>, which is given the consumer that the
  completions of the request call.
\<close>

subsection \<open>Streams\<close>

record ('o, 'k) sworld = "('o, 'k) nworld" +
  st_stopped :: "addr \<Rightarrow> bool"
  st_failure :: "addr \<Rightarrow> exn option"
  st_table :: "addr \<Rightarrow> pool_id option"
  tk_received :: "addr \<Rightarrow> 32 word"

text \<open>A consumer may throw; \<^const>\<open>None\<close> is \<^verbatim>\<open>std::terminate\<close>.\<close>

type_synonym 'w consumer = "addr \<Rightarrow> int \<Rightarrow> 32 word \<Rightarrow> 'w \<Rightarrow> (unit, 'w) result option"
type_synonym 'w await = "'w consumer \<Rightarrow> addr \<Rightarrow> 'w \<Rightarrow> (nat, 'w) result"

definition stream_new :: "loop_id \<Rightarrow> sqe \<Rightarrow> token_id option \<Rightarrow> pool_id option \<Rightarrow> nat option \<Rightarrow> addr \<Rightarrow>
    ('o, 'k, 'z) sworld_scheme \<Rightarrow> (unit, ('o, 'k, 'z) sworld_scheme) result" where
  "stream_new l s k table dir a w =
     (let w0 = native_init l s k dir a w;
          w1 = w0\<lparr>st_stopped := (st_stopped w0)(a := False), st_failure := (st_failure w0)(a := None), st_table := (st_table w0)(a := table)\<rparr> in
      case table of
        None \<Rightarrow> (Inr (), w1)
      | Some p \<Rightarrow>
          if pv_loop w1 p \<noteq> l then (Inl (Invalid_Argument ''provided buffers belong to another loop''), w1)
          else (Inr (), w1\<lparr>pv_active := (pv_active w1)(p := pv_active w1 p + 1)\<rparr>))"

definition stream_socket :: "thread_id \<Rightarrow> sock_id \<Rightarrow> sqe \<Rightarrow> token_id option \<Rightarrow> pool_id option \<Rightarrow> addr \<Rightarrow>
    ('o, 'k, 'z) sworld_scheme \<Rightarrow> (unit, ('o, 'k, 'z) sworld_scheme) result" where
  "stream_socket t s q k table a w =
     (case socket_check t s w of Inl e \<Rightarrow> (Inl e, w) | Inr _ \<Rightarrow> stream_new (sk_loop w s) q k table (Some (reading s)) a w)"

definition stream_stop :: "addr \<Rightarrow> ('o, 'k, 'z) sworld_scheme \<Rightarrow> ('o, 'k, 'z) sworld_scheme" where
  "stream_stop a w = cancel_fn a (w\<lparr>st_stopped := (st_stopped w)(a := True)\<rparr>)"

text \<open>The \<^verbatim>\<open>result\<close> hook: the first exception of the consumer is kept and stops the stream.\<close>

definition stream_result :: "('o, 'k, 'z) sworld_scheme consumer \<Rightarrow> addr \<Rightarrow> int \<Rightarrow> 32 word \<Rightarrow> ('o, 'k, 'z) sworld_scheme \<Rightarrow> ('o, 'k, 'z) sworld_scheme option" where
  "stream_result consume a res flags w =
     (let w1 = (if res < 0 then set_error a (Some (Errno (nat (- res)))) w else w\<lparr>io_bytes := (io_bytes w)(a := nat res)\<rparr>) in
      case consume a res flags w1 of
        None \<Rightarrow> None
      | Some (Inr _, w2) \<Rightarrow> Some w2
      | Some (Inl e, w2) \<Rightarrow>
          Some (stream_stop a (if st_failure w2 a = None then w2\<lparr>st_failure := (st_failure w2)(a := Some e)\<rparr> else w2)))"

text \<open>\<^verbatim>\<open>~stream\<close> with \<^verbatim>\<open>~io\<close>.\<close>

definition stream_destroy :: "'o sys \<Rightarrow> addr \<Rightarrow> ('o, 'k, 'z) sworld_scheme \<Rightarrow> ('o, 'k, 'z) sworld_scheme option" where
  "stream_destroy S a w =
     (if op_active w a then None
      else Some (io_cleanup S a
        (case st_table w a of None \<Rightarrow> w | Some p \<Rightarrow> w\<lparr>pv_active := (pv_active w)(p := pv_active w p - 1)\<rparr>)))"

text \<open>
  What follows \<^verbatim>\<open>co_await request\<close> in every coroutine below: rethrow, return or go on.  \<open>tolerated\<close>
  are the error codes after which the request is made again.
\<close>

datatype exit = Raise exn | Return | Again

definition is_canceled :: "errc \<Rightarrow> bool" where
  "is_canceled c \<longleftrightarrow> c = Operation_Canceled \<or> c = Errno 125"

definition stream_tail :: "addr \<Rightarrow> ('o, 'k, 'z) sworld_scheme \<Rightarrow> exit" where
  "stream_tail a w = (case st_failure w a of Some x \<Rightarrow> Raise x | None \<Rightarrow> if st_stopped w a then Return else Again)"

definition stream_exit :: "(errc \<Rightarrow> bool) \<Rightarrow> addr \<Rightarrow> exn + nat \<Rightarrow> ('o, 'k, 'z) sworld_scheme \<Rightarrow> exit" where
  "stream_exit tolerated a r w =
     (case r of
        Inr _ \<Rightarrow> stream_tail a w
      | Inl (System_Error c) \<Rightarrow>
          (case st_failure w a of
             Some x \<Rightarrow> Raise x
           | None \<Rightarrow>
               if st_stopped w a \<and> is_canceled c then Return
               else if \<not> tolerated c then Raise (System_Error c)
               else stream_tail a w)
      | Inl e \<Rightarrow> Raise e)"

text \<open>Make the request and await it; a constructor that throws leaves no request behind.\<close>

definition stream_run :: "('o, 'k, 'z) sworld_scheme await \<Rightarrow> ('o, 'k, 'z) sworld_scheme consumer \<Rightarrow> (errc \<Rightarrow> bool) \<Rightarrow> addr \<Rightarrow>
    (unit, ('o, 'k, 'z) sworld_scheme) result \<Rightarrow> (exit, ('o, 'k, 'z) sworld_scheme) result" where
  "stream_run await consume tolerated a made =
     (case made of
        (Inl e, w1) \<Rightarrow> (Inl e, w1)
      | (Inr _, w1) \<Rightarrow> (case await consume a w1 of (r, w2) \<Rightarrow> (Inr (stream_exit tolerated a r w2), w2)))"

text \<open>Leave the body of the loop, which destroys the request (\<^const>\<open>None\<close> is \<^verbatim>\<open>std::terminate\<close>).\<close>

definition stream_leave :: "'o sys \<Rightarrow> addr \<Rightarrow> 'r \<Rightarrow> ('o, 'k, 'z) sworld_scheme \<Rightarrow> ('r \<times> ('o, 'k, 'z) sworld_scheme) option" where
  "stream_leave S a r w = (case stream_destroy S a w of None \<Rightarrow> None | Some w1 \<Rightarrow> Some (r, w1))"

subsection \<open>Receiving\<close>

definition ENOBUFS :: nat where "ENOBUFS = 105"

definition no_buffers :: "errc \<Rightarrow> bool" where
  "no_buffers c \<longleftrightarrow> c = Errno ENOBUFS"

text \<open>A callback that takes over a lease and returns whether to go on.\<close>

type_synonym ('a, 'w) callback = "'a \<Rightarrow> 'w \<Rightarrow> (bool, 'w) result"

definition call_back :: "('a, ('o, 'k, 'z) sworld_scheme) callback \<Rightarrow> addr \<Rightarrow> 'a \<Rightarrow> ('o, 'k, 'z) sworld_scheme \<Rightarrow> (unit, ('o, 'k, 'z) sworld_scheme) result" where
  "call_back fn a x w =
     (case fn x w of
        (Inl e, w1) \<Rightarrow> (Inl e, w1)
      | (Inr True, w1) \<Rightarrow> (Inr (), w1)
      | (Inr False, w1) \<Rightarrow> (Inr (), stream_stop a w1))"

text \<open>The lambda \<^verbatim>\<open>consume\<close> of \<^verbatim>\<open>receive\<close>: a lease that is not handed over is returned.\<close>

definition receive_chunk :: "thread_id \<Rightarrow> (chunk, ('o, 'k, 'z) sworld_scheme) callback \<Rightarrow> addr \<Rightarrow> int \<Rightarrow> chunk \<Rightarrow>
    ('o, 'k, 'z) sworld_scheme \<Rightarrow> (unit, ('o, 'k, 'z) sworld_scheme) result option" where
  "receive_chunk t fn a res c w =
     (if res > 0 \<and> \<not> st_stopped w a then Some (call_back fn a c w)
      else (case chunk_destroy t c w of None \<Rightarrow> None | Some w1 \<Rightarrow> Some (Inr (), w1)))"

definition receive_consume :: "thread_id \<Rightarrow> pool_id \<Rightarrow> bool \<Rightarrow> (chunk, ('o, 'k, 'z) sworld_scheme) callback \<Rightarrow> ('o, 'k, 'z) sworld_scheme consumer" where
  "receive_consume t p bundle fn a res flags w =
     (if flags AND CQE_F_BUFFER \<noteq> 0 then
        (let len = (if res > 0 then nat res else 0) in
         if bundle then provided_each (receive_chunk t fn a res) t p flags len w
         else (case provided_take t p flags len w of
                 (Inl e, w1) \<Rightarrow> Some (Inl e, w1)
               | (Inr c, w1) \<Rightarrow> receive_chunk t fn a res c w1))
      else if res > 0 then Some (Inl (Runtime_Error ''multishot missing buffer ID''), w)
      else Some (Inr (), w))"

partial_function (option) receive_loop :: "'o sys \<Rightarrow> ('o, 'k, 'z) sworld_scheme await \<Rightarrow> (event_id \<Rightarrow> ('o, 'k, 'z) sworld_scheme \<Rightarrow> (unit, ('o, 'k, 'z) sworld_scheme) result) \<Rightarrow>
    thread_id \<Rightarrow> loop_id \<Rightarrow> sqe \<Rightarrow> pool_id \<Rightarrow> (chunk, ('o, 'k, 'z) sworld_scheme) callback \<Rightarrow> token_id option \<Rightarrow> nat option \<Rightarrow> bool \<Rightarrow> addr \<Rightarrow>
    ('o, 'k, 'z) sworld_scheme \<Rightarrow> (unit, ('o, 'k, 'z) sworld_scheme) result option" where
  "receive_loop S await wait t l s p fn k dir bundle a w =
     (case stream_run await (receive_consume t p bundle fn) no_buffers a (stream_new l s k (Some p) dir a w) of
        (Inl e, w1) \<Rightarrow> Some (Inl e, w1)
      | (Inr (Raise e), w1) \<Rightarrow> stream_leave S a (Inl e) w1
      | (Inr Return, w1) \<Rightarrow> stream_leave S a (Inr ()) w1
      | (Inr Again, w1) \<Rightarrow>
          if op_error w1 a = None \<and> io_bytes w1 a = 0 then stream_leave S a (Inr ()) w1
          else (case provided_available wait t p w1 of
                  None \<Rightarrow> None
                | Some (Inl e, w2) \<Rightarrow> stream_leave S a (Inl e) w2
                | Some (Inr _, w2) \<Rightarrow>
                    (case stream_destroy S a w2 of
                       None \<Rightarrow> None
                     | Some w3 \<Rightarrow> receive_loop S await wait t l s p fn k dir bundle a w3)))"

definition IORING_RECVSEND_BUNDLE :: "16 word" where "IORING_RECVSEND_BUNDLE = 16"

definition recv_entry :: "sock_id \<Rightarrow> pool_id \<Rightarrow> bool \<Rightarrow> ('o, 'k, 'z) nworld_scheme \<Rightarrow> sqe" where
  "recv_entry s p bundle w =
     (let q = sqe_of (Prep_Recv_Multishot (sk_fd w s)) in
      q\<lparr>sq_ioprio := (if bundle then sq_ioprio q OR IORING_RECVSEND_BUNDLE else sq_ioprio q),
        sq_flags := sq_flags q OR IOSQE_BUFFER_SELECT, sq_buf_group := pv_group w p\<rparr>)"

definition uring_recv :: "'o sys \<Rightarrow> ('o, 'k, 'z) sworld_scheme await \<Rightarrow> (event_id \<Rightarrow> ('o, 'k, 'z) sworld_scheme \<Rightarrow> (unit, ('o, 'k, 'z) sworld_scheme) result) \<Rightarrow>
    thread_id \<Rightarrow> sock_id \<Rightarrow> pool_id \<Rightarrow> (chunk, ('o, 'k, 'z) sworld_scheme) callback \<Rightarrow> token_id option \<Rightarrow> bool \<Rightarrow> addr \<Rightarrow>
    ('o, 'k, 'z) sworld_scheme \<Rightarrow> (unit, ('o, 'k, 'z) sworld_scheme) result option" where
  "uring_recv S await wait t s p fn k bundle a w =
     (case socket_check t s w of
        Inl e \<Rightarrow> Some (Inl e, w)
      | Inr _ \<Rightarrow> receive_loop S await wait t (sk_loop w s) (recv_entry s p bundle w) p fn k (Some (reading s)) bundle a w)"

definition multi_read :: "'o sys \<Rightarrow> ('o, 'k, 'z) sworld_scheme await \<Rightarrow> (event_id \<Rightarrow> ('o, 'k, 'z) sworld_scheme \<Rightarrow> (unit, ('o, 'k, 'z) sworld_scheme) result) \<Rightarrow>
    thread_id \<Rightarrow> loop_id \<Rightarrow> int \<Rightarrow> pool_id \<Rightarrow> (chunk, ('o, 'k, 'z) sworld_scheme) callback \<Rightarrow> token_id option \<Rightarrow> addr \<Rightarrow>
    ('o, 'k, 'z) sworld_scheme \<Rightarrow> (unit, ('o, 'k, 'z) sworld_scheme) result option" where
  "multi_read S await wait t l fd p fn k a w =
     receive_loop S await wait t l (sqe_of (Prep_Read_Multishot fd 0 0 (unat (pv_group w p)))) p fn k None False a w"

subsection \<open>Datagrams\<close>

text \<open>
  The liburing helpers that decode a multishot \<^verbatim>\<open>recvmsg\<close> completion: validation, the addresses of
  name and payload, and the payload length that fits the buffer.
\<close>

record msg_out =
  mo_namelen :: nat
  mo_controllen :: nat
  mo_payloadlen :: nat
  mo_flags :: "32 word"

record msg_decode =
  md_validate :: "nat \<times> nat \<Rightarrow> nat \<Rightarrow> nat \<Rightarrow> msg_out option"
  md_name :: "nat \<times> nat \<Rightarrow> nat"
  md_payload :: "nat \<times> nat \<Rightarrow> nat \<Rightarrow> nat \<Rightarrow> nat"
  md_payload_length :: "nat \<times> nat \<Rightarrow> nat \<Rightarrow> nat \<Rightarrow> nat"

record message =
  ms_storage :: chunk
  ms_bytes :: "nat \<times> nat"
  ms_name :: "nat \<times> nat"
  ms_control :: "nat \<times> nat"
  ms_flags :: "32 word"
  ms_wire :: nat

text \<open>\<^verbatim>\<open>message::message\<close>: when it throws, the lease it already owns is returned.\<close>

definition message_new :: "msg_decode \<Rightarrow> thread_id \<Rightarrow> nat \<Rightarrow> nat \<Rightarrow> chunk \<Rightarrow> ('o, 'k, 'z) nworld_scheme \<Rightarrow> (message, ('o, 'k, 'z) nworld_scheme) result option" where
  "message_new D t namelen controllen c w =
     (let raw = ck_data c in
      case md_validate D raw namelen controllen of
        None \<Rightarrow> (case chunk_destroy t c w of None \<Rightarrow> None | Some w1 \<Rightarrow> Some (Inl (Runtime_Error ''invalid recvmsg completion''), w1))
      | Some out \<Rightarrow>
          Some (Inr \<lparr>ms_storage = c,
             ms_bytes = (md_payload D raw namelen controllen, min (mo_payloadlen out) (md_payload_length D raw namelen controllen)),
             ms_name = (md_name D raw, min (mo_namelen out) namelen),
             ms_control = (md_name D raw + namelen, min (mo_controllen out) controllen),
             ms_flags = mo_flags out, ms_wire = mo_payloadlen out\<rparr>, w))"

definition recvmsg_consume :: "msg_decode \<Rightarrow> thread_id \<Rightarrow> pool_id \<Rightarrow> nat \<Rightarrow> (message, ('o, 'k, 'z) sworld_scheme) callback \<Rightarrow> ('o, 'k, 'z) sworld_scheme consumer" where
  "recvmsg_consume D t p control fn a res flags w =
     (if flags AND CQE_F_BUFFER \<noteq> 0 then
        (case provided_take t p flags (if res > 0 then nat res else 0) w of
           (Inl e, w1) \<Rightarrow> Some (Inl e, w1)
         | (Inr c, w1) \<Rightarrow>
             if res \<ge> 0 \<and> \<not> st_stopped w1 a then
               (case message_new D t size_storage control c w1 of
                  None \<Rightarrow> None
                | Some (Inl e, w2) \<Rightarrow> Some (Inl e, w2)
                | Some (Inr m, w2) \<Rightarrow> Some (call_back fn a m w2))
             else (case chunk_destroy t c w1 of None \<Rightarrow> None | Some w2 \<Rightarrow> Some (Inr (), w2)))
      else if res \<ge> 0 then Some (Inl (Runtime_Error ''recvmsg missing buffer ID''), w)
      else Some (Inr (), w))"

definition size_recvmsg_out :: nat where "size_recvmsg_out = 16"
definition MSG_TRUNC :: int where "MSG_TRUNC = 32"

partial_function (option) recvmsg_loop :: "'o sys \<Rightarrow> ('o, 'k, 'z) sworld_scheme await \<Rightarrow> (event_id \<Rightarrow> ('o, 'k, 'z) sworld_scheme \<Rightarrow> (unit, ('o, 'k, 'z) sworld_scheme) result) \<Rightarrow>
    msg_decode \<Rightarrow> thread_id \<Rightarrow> sock_id \<Rightarrow> pool_id \<Rightarrow> nat \<Rightarrow> (message, ('o, 'k, 'z) sworld_scheme) callback \<Rightarrow> token_id option \<Rightarrow> nat \<Rightarrow> addr \<Rightarrow>
    ('o, 'k, 'z) sworld_scheme \<Rightarrow> (unit, ('o, 'k, 'z) sworld_scheme) result option" where
  "recvmsg_loop S await wait D t s p control fn k layout a w =
     (let q = sqe_of (Prep_Recvmsg_Multishot (sk_fd w s) layout MSG_TRUNC) in
      case stream_run await (recvmsg_consume D t p control fn) no_buffers a
             (stream_socket t s (q\<lparr>sq_flags := sq_flags q OR IOSQE_BUFFER_SELECT, sq_buf_group := pv_group w p\<rparr>) k (Some p) a w) of
        (Inl e, w1) \<Rightarrow> Some (Inl e, w1)
      | (Inr (Raise e), w1) \<Rightarrow> stream_leave S a (Inl e) w1
      | (Inr Return, w1) \<Rightarrow> stream_leave S a (Inr ()) w1
      | (Inr Again, w1) \<Rightarrow>
          (case provided_available wait t p w1 of
             None \<Rightarrow> None
           | Some (Inl e, w2) \<Rightarrow> stream_leave S a (Inl e) w2
           | Some (Inr _, w2) \<Rightarrow>
               (case stream_destroy S a w2 of
                  None \<Rightarrow> None
                | Some w3 \<Rightarrow> recvmsg_loop S await wait D t s p control fn k layout a w3)))"

text \<open>\<^verbatim>\<open>recvmsg\<close>; \<open>layout\<close> is the address of the local \<^verbatim>\<open>msghdr\<close>.\<close>

definition uring_recvmsg :: "'o sys \<Rightarrow> ('o, 'k, 'z) sworld_scheme await \<Rightarrow> (event_id \<Rightarrow> ('o, 'k, 'z) sworld_scheme \<Rightarrow> (unit, ('o, 'k, 'z) sworld_scheme) result) \<Rightarrow>
    msg_decode \<Rightarrow> thread_id \<Rightarrow> sock_id \<Rightarrow> pool_id \<Rightarrow> nat \<Rightarrow> (message, ('o, 'k, 'z) sworld_scheme) callback \<Rightarrow> token_id option \<Rightarrow> nat \<Rightarrow> addr \<Rightarrow>
    ('o, 'k, 'z) sworld_scheme \<Rightarrow> (unit, ('o, 'k, 'z) sworld_scheme) result option" where
  "uring_recvmsg S await wait D t s p control fn k layout a w =
     (case socket_check t s w of
        Inl e \<Rightarrow> Some (Inl e, w)
      | Inr _ \<Rightarrow>
          if control + size_storage + size_recvmsg_out > pv_size w p
          then Some (Inl (Invalid_Argument ''recvmsg metadata exceeds provided buffer''), w)
          else recvmsg_loop S await wait D t s p control fn k layout a w)"

subsection \<open>Accepting, watching and ticking\<close>

text \<open>An accepted socket lives at \<open>peer\<close>; one accepted after a stop is closed.\<close>

definition accept_consume :: "'o sys \<Rightarrow> thread_id \<Rightarrow> sock_id \<Rightarrow> (sock_id, ('o, 'k, 'z) sworld_scheme) callback \<Rightarrow> ('o, 'k, 'z) sworld_scheme consumer" where
  "accept_consume S t peer fn a res flags w =
     (if res < 0 then Some (Inr (), w)
      else case socket_adopt S t (op_owner w a) res peer w of
        (Inl e, w1) \<Rightarrow> Some (Inl e, w1)
      | (Inr _, w1) \<Rightarrow>
          if \<not> st_stopped w1 a then Some (call_back fn a peer w1)
          else (case socket_destroy S peer w1 of None \<Rightarrow> None | Some w2 \<Rightarrow> Some (Inr (), w2)))"

partial_function (option) accept_loop :: "'o sys \<Rightarrow> ('o, 'k, 'z) sworld_scheme await \<Rightarrow> thread_id \<Rightarrow> sock_id \<Rightarrow> sock_id \<Rightarrow>
    (sock_id, ('o, 'k, 'z) sworld_scheme) callback \<Rightarrow> token_id option \<Rightarrow> addr \<Rightarrow>
    ('o, 'k, 'z) sworld_scheme \<Rightarrow> (unit, ('o, 'k, 'z) sworld_scheme) result option" where
  "accept_loop S await t s peer fn k a w =
     (case stream_run await (accept_consume S t peer fn) (\<lambda>c. False) a
             (stream_socket t s (sqe_of (Prep_Accept_Multishot (sk_fd w s) SOCK_CLOEXEC)) k None a w) of
        (Inl e, w1) \<Rightarrow> Some (Inl e, w1)
      | (Inr (Raise e), w1) \<Rightarrow> stream_leave S a (Inl e) w1
      | (Inr Return, w1) \<Rightarrow> stream_leave S a (Inr ()) w1
      | (Inr Again, w1) \<Rightarrow>
          (case stream_destroy S a w1 of None \<Rightarrow> None | Some w2 \<Rightarrow> accept_loop S await t s peer fn k a w2))"

definition watch_consume :: "(32 word, ('o, 'k, 'z) sworld_scheme) callback \<Rightarrow> ('o, 'k, 'z) sworld_scheme consumer" where
  "watch_consume fn a res flags w =
     Some (if res \<ge> 0 \<and> \<not> st_stopped w a then call_back fn a (word_of_int res) w else (Inr (), w))"

partial_function (option) watch_loop :: "'o sys \<Rightarrow> ('o, 'k, 'z) sworld_scheme await \<Rightarrow> loop_id \<Rightarrow> int \<Rightarrow> nat \<Rightarrow>
    (32 word, ('o, 'k, 'z) sworld_scheme) callback \<Rightarrow> token_id option \<Rightarrow> addr \<Rightarrow>
    ('o, 'k, 'z) sworld_scheme \<Rightarrow> (unit, ('o, 'k, 'z) sworld_scheme) result option" where
  "watch_loop S await l fd evs fn k a w =
     (case stream_run await (watch_consume fn) (\<lambda>c. False) a
             (stream_new l (sqe_of (Prep_Poll_Multishot fd evs)) k None None a w) of
        (Inl e, w1) \<Rightarrow> Some (Inl e, w1)
      | (Inr (Raise e), w1) \<Rightarrow> stream_leave S a (Inl e) w1
      | (Inr Return, w1) \<Rightarrow> stream_leave S a (Inr ()) w1
      | (Inr Again, w1) \<Rightarrow>
          (case stream_destroy S a w1 of None \<Rightarrow> None | Some w2 \<Rightarrow> watch_loop S await l fd evs fn k a w2))"

text \<open>\<^verbatim>\<open>received\<close> is a local of the coroutine whose request is at \<open>a\<close>.\<close>

definition ticks_consume :: "(unit, ('o, 'k, 'z) sworld_scheme) callback \<Rightarrow> ('o, 'k, 'z) sworld_scheme consumer" where
  "ticks_consume fn a res flags w =
     Some (if res = - ETIME \<and> \<not> st_stopped w a
           then call_back fn a () (w\<lparr>tk_received := (tk_received w)(a := tk_received w a + 1)\<rparr>) else (Inr (), w))"

definition timed_out :: "errc \<Rightarrow> bool" where
  "timed_out c \<longleftrightarrow> c = Errno (nat ETIME)"

definition IORING_TIMEOUT_MULTISHOT :: nat where "IORING_TIMEOUT_MULTISHOT = 64"

partial_function (option) ticks_loop :: "'o sys \<Rightarrow> ('o, 'k, 'z) sworld_scheme await \<Rightarrow> loop_id \<Rightarrow> int \<Rightarrow> 32 word \<Rightarrow>
    (unit, ('o, 'k, 'z) sworld_scheme) callback \<Rightarrow> token_id option \<Rightarrow> addr \<Rightarrow>
    ('o, 'k, 'z) sworld_scheme \<Rightarrow> (unit, ('o, 'k, 'z) sworld_scheme) result option" where
  "ticks_loop S await l interval limit fn k a w =
     (case stream_run await (ticks_consume fn) timed_out a
             (stream_new l (sqe_of (Prep_Timeout interval (unat (if limit \<noteq> 0 then limit - tk_received w a else 0)) IORING_TIMEOUT_MULTISHOT)) k None None a w) of
        (Inl e, w1) \<Rightarrow> Some (Inl e, w1)
      | (Inr (Raise e), w1) \<Rightarrow> stream_leave S a (Inl e) w1
      | (Inr Return, w1) \<Rightarrow> stream_leave S a (Inr ()) w1
      | (Inr Again, w1) \<Rightarrow>
          (case stream_destroy S a w1 of
             None \<Rightarrow> None
           | Some w2 \<Rightarrow>
               if limit = 0 \<or> tk_received w2 a < limit then ticks_loop S await l interval limit fn k a w2 else Some (Inr (), w2)))"

definition uring_ticks :: "'o sys \<Rightarrow> ('o, 'k, 'z) sworld_scheme await \<Rightarrow> loop_id \<Rightarrow> int \<Rightarrow> 32 word \<Rightarrow>
    (unit, ('o, 'k, 'z) sworld_scheme) callback \<Rightarrow> token_id option \<Rightarrow> addr \<Rightarrow>
    ('o, 'k, 'z) sworld_scheme \<Rightarrow> (unit, ('o, 'k, 'z) sworld_scheme) result option" where
  "uring_ticks S await l interval limit fn k a w =
     (if interval \<le> 0 then Some (Inl (Invalid_Argument ''nonpositive timer interval''), w)
      else ticks_loop S await l interval limit fn k a (w\<lparr>tk_received := (tk_received w)(a := 0)\<rparr>))"

end
