(* ===== verification/Ports_Props.thy ===== *)
theory Ports_Props
  imports Ports
begin

text \<open>
  Correctness of endpoints, of the range check of file transfers, and of the two \<^verbatim>\<open>write_all\<close>
  loops: they end, write every byte once and in order, and on failure have written a prefix.
\<close>

subsection \<open>Endpoints\<close>

lemma htons_htons [simp]: "htons (htons x) = x"
  unfolding htons_def by (rule bit_word_eqI) (auto simp: bit_simps)

text \<open>The port an endpoint was made with is the port it reports, whatever family its address has.\<close>

theorem endpoint_port_roundtrip:
  assumes "endpoint_of pton4 pton6 ip port = Inr e"
  shows "endpoint_port e = port \<and> (ep_family e = AF_INET \<and> ep_size e = size_in \<or> ep_family e = AF_INET6 \<and> ep_size e = size_in6)"
  using assms by (auto simp: endpoint_of_def endpoint_port_def split: if_splits option.splits)

theorem endpoint_port_roundtrip_witness:
  "endpoint_port \<lparr>ep_family = AF_INET, ep_host = 2130706433, ep_port_be = htons 8080, ep_size = size_in\<rparr> = 8080"
proof -
  have "endpoint_of (\<lambda>s. if s = ''127.0.0.1'' then Some 2130706433 else None) (\<lambda>s. None) ''127.0.0.1'' 8080 =
      Inr \<lparr>ep_family = AF_INET, ep_host = 2130706433, ep_port_be = htons 8080, ep_size = size_in\<rparr>"
    by (simp add: endpoint_of_def)
  from endpoint_port_roundtrip [OF this] show ?thesis by blast
qed

subsection \<open>Ranges\<close>

lemma unat_INT64_MAX: "unat INT64_MAX = 2 ^ 63 - 1"
  by (simp add: INT64_MAX_def)

lemma file_range_iff:
  assumes "len \<le> INT_MAX"
  shows "file_range len off \<longleftrightarrow> unat off + len \<le> 2 ^ 63 - 1"
proof (cases "off \<le> INT64_MAX")
  case True
  have l: "unat (word_of_nat len :: 64 word) = len" using assms by (simp add: unat_of_nat INT_MAX_def)
  have "unat (INT64_MAX - off) = 2 ^ 63 - 1 - unat off" using True by (simp add: unat_sub unat_INT64_MAX)
  moreover have "unat off \<le> 2 ^ 63 - 1" using True by (simp add: word_le_nat_alt unat_INT64_MAX)
  ultimately show ?thesis using True l by (auto simp: file_range_def word_less_nat_alt word_le_nat_alt unat_INT64_MAX)
next
  case False
  then have "unat off > 2 ^ 63 - 1" by (simp add: word_le_nat_alt unat_INT64_MAX)
  then show ?thesis using False by (simp add: file_range_def not_le)
qed

lemma clip_le: "clip n \<le> n" "clip n \<le> INT_MAX"
  by (simp_all add: clip_def)

subsection \<open>Writing a whole buffer\<close>

lemma io_init_os [simp]: "os (io_init l c fd b n k sl a w) = os w" "io_size (io_init l c fd b n k sl a w) a = n"
  "io_buf (io_init l c fd b n k sl a w) a = b" "io_code (io_init l c fd b n k sl a w) a = c"
  by (simp_all add: io_init_def)

lemma io_release_os [simp]: "os (io_release a (w :: ('o, 'z) ports_scheme)) = os w"
  by (simp add: io_release_def split: option.split)

text \<open>
  An honest kernel: it accepts at most what it was given, \<open>sent\<close> grows by exactly the bytes it
  reports, named by their addresses, and a failed write accepts nothing.
\<close>

definition honest_send :: "('o \<Rightarrow> nat list) \<Rightarrow> (addr \<Rightarrow> ('o, 'z) ports_scheme \<Rightarrow> (nat, ('o, 'z) ports_scheme) result) \<Rightarrow> bool" where
  "honest_send sent await \<longleftrightarrow> (\<forall>a w. case await a w of
       (Inl e, w') \<Rightarrow> sent (os w') = sent (os w)
     | (Inr k, w') \<Rightarrow> k \<le> io_size w a \<and> sent (os w') = sent (os w) @ [io_buf w a ..< io_buf w a + k])"

definition close_neutral :: "('o \<Rightarrow> 'x) \<Rightarrow> 'o sys \<Rightarrow> bool" where
  "close_neutral view S \<longleftrightarrow> (\<forall>fd k. view (sys_close S fd k) = view k)"

lemma cleanup_view: "close_neutral view S \<Longrightarrow> view (os (io_cleanup S a w)) = view (os w)"
  by (simp add: io_cleanup_def close_fd_def close_neutral_def)

lemma write_all_step:
  "len = 0 \<Longrightarrow> write_all wr p len w = Some (Inr (), w)"
  "len \<noteq> 0 \<Longrightarrow> wr p len w = (Inl e, w1) \<Longrightarrow> write_all wr p len w = Some (Inl e, w1)"
  "len \<noteq> 0 \<Longrightarrow> wr p len w = (Inr 0, w1) \<Longrightarrow> write_all wr p len w = Some (Inl (System_Error Broken_Pipe), w1)"
  "len \<noteq> 0 \<Longrightarrow> wr p len w = (Inr n, w1) \<Longrightarrow> n \<noteq> 0 \<Longrightarrow> write_all wr p len w = write_all wr (p + n) (len - n) w1"
  by (subst write_all.simps; simp)+

lemma write_all_covers:
  assumes "\<And>p n w. case wr p n w of (Inl e, w') \<Rightarrow> sent w' = sent w
      | (Inr k, w') \<Rightarrow> k \<le> n \<and> sent w' = sent w @ [p ..< p + k]"
  shows "\<exists>r w' m. write_all wr p len w = Some (r, w') \<and> m \<le> len \<and> sent w' = sent w @ [p ..< p + m] \<and>
    (r = Inr () \<longrightarrow> m = len)"
proof (induction len arbitrary: p w rule: less_induct)
  case (less len)
  show ?case
  proof (cases "len = 0")
    case True
    then show ?thesis using write_all_step(1) by fastforce
  next
    case False
    obtain r w1 where r: "wr p len w = (r, w1)" by fastforce
    show ?thesis
    proof (cases r)
      case (Inl e)
      then show ?thesis using write_all_step(2) [OF False, of wr p w] r assms [where p = p and n = len and w = w] by auto
    next
      case (Inr n)
      have n: "n \<le> len" "sent w1 = sent w @ [p ..< p + n]" using assms [where p = p and n = len and w = w] r Inr by simp_all
      show ?thesis
      proof (cases "n = 0")
        case True
        then show ?thesis using write_all_step(3) [OF False, of wr p w] r Inr n by auto
      next
        case nz: False
        from less.IH [of "len - n" "p + n" w1] nz False obtain r' w' m where
          m: "write_all wr (p + n) (len - n) w1 = Some (r', w')" "m \<le> len - n"
            "sent w' = sent w1 @ [p + n ..< p + n + m]" "r' = Inr () \<longrightarrow> m = len - n" by auto
        have "[p ..< p + n] @ [p + n ..< p + n + m] = [p ..< p + (n + m)]"
          by (metis add.assoc le_add1 upt_add_eq_append)
        then show ?thesis using write_all_step(4) [OF False, of wr p w n] r Inr nz n m
          by (intro exI [of _ r'] exI [of _ w'] exI [of _ "n + m"]) auto
      qed
    qed
  qed
qed

text \<open>C36: \<^verbatim>\<open>write_all\<close> on a socket always ends; when it returns, the peer was sent every byte of the buffer
  exactly once and in order; when it throws, a prefix of the buffer was sent.\<close>

theorem socket_write_all_covers:
  assumes "honest_send sent await" and "close_neutral sent S"
  shows "\<exists>r w' m. socket_write_all S await t s k a p len w = Some (r, w') \<and> m \<le> len \<and>
    sent (os w') = sent (os w) @ [p ..< p + m] \<and> (r = Inr () \<longrightarrow> m = len)"
  unfolding socket_write_all_def
proof (rule write_all_covers [where sent = "\<lambda>w. sent (os w)"])
  fix p n and w :: "('a, 'b) ports_scheme"
  let ?v = "io_init (sk_loop w s) Op_Write (sk_fd w s) p (clip n) k (Some (writing s)) a w"
  show "case socket_write_await S await t s k a p n w of (Inl e, w') \<Rightarrow> sent (os w') = sent (os w)
      | (Inr k, w') \<Rightarrow> k \<le> n \<and> sent (os w') = sent (os w) @ [p ..< p + k]"
  proof (cases "socket_check t s w")
    case (Inl e)
    then show ?thesis by (simp add: socket_write_await_def socket_write_def)
  next
    case (Inr u)
    obtain r w1 where r: "await a ?v = (r, w1)" by fastforce
    have "case (r, w1) of (Inl e, w') \<Rightarrow> sent (os w') = sent (os ?v)
      | (Inr k, w') \<Rightarrow> k \<le> io_size ?v a \<and> sent (os w') = sent (os ?v) @ [io_buf ?v a ..< io_buf ?v a + k]"
      using assms(1) [unfolded honest_send_def, rule_format, where a = a and w = ?v] unfolding r .
    then show ?thesis using Inr r cleanup_view [OF assms(2), of a w1] clip_le(1) [of n]
      by (auto simp: socket_write_await_def socket_write_def split: sum.splits)
  qed
qed

subsection \<open>Writing a whole file range\<close>

definition file_write :: "'o sys \<Rightarrow> (addr \<Rightarrow> ('o, 'z) ports_scheme \<Rightarrow> (nat, ('o, 'z) ports_scheme) result) \<Rightarrow>
    thread_id \<Rightarrow> file_id \<Rightarrow> token_id option \<Rightarrow> addr \<Rightarrow> nat \<Rightarrow> nat \<Rightarrow> 64 word \<Rightarrow> ('o, 'z) ports_scheme \<Rightarrow> (nat, ('o, 'z) ports_scheme) result" where
  "file_write S await t f k a p n off w = file_transfer S await t f p n off True k a w"

text \<open>\<open>n\<close> bytes from address \<open>p\<close> on stored at position \<open>off\<close>.\<close>

definition overlay :: "nat \<Rightarrow> nat \<Rightarrow> nat \<Rightarrow> (nat \<Rightarrow> nat option) \<Rightarrow> (nat \<Rightarrow> nat option)" where
  "overlay off p n d = (\<lambda>i. if off \<le> i \<and> i < off + n then Some (p + (i - off)) else d i)"

lemma overlay_0 [simp]: "overlay off p 0 d = d"
  by (auto simp: overlay_def fun_eq_iff)

lemma overlay_append: "overlay (off + n) (p + n) m (overlay off p n d) = overlay off p (n + m) d"
  by (auto simp: overlay_def fun_eq_iff)

definition honest_store :: "('o \<Rightarrow> nat \<Rightarrow> nat option) \<Rightarrow> (addr \<Rightarrow> ('o, 'z) ports_scheme \<Rightarrow> (nat, ('o, 'z) ports_scheme) result) \<Rightarrow> bool" where
  "honest_store data await \<longleftrightarrow> (\<forall>a w. io_code w a = Op_File_Write \<longrightarrow> (case await a w of
       (Inl e, w') \<Rightarrow> data (os w') = data (os w)
     | (Inr k, w') \<Rightarrow> k \<le> io_size w a \<and> data (os w') = overlay (unat (io_offset w a)) (io_buf w a) k (data (os w))))"

lemma file_use_os [simp]: "os (file_use f w) = os w" "os (file_unuse f w) = os w"
  by (simp_all add: file_use_def file_unuse_def)

text \<open>One transfer stays below the largest file position.\<close>

lemma file_write_honest:
  assumes "honest_store data await" and "close_neutral data S"
  shows "case file_write S await t f k a p n off w of
      (Inl e, w') \<Rightarrow> data (os w') = data (os w)
    | (Inr m, w') \<Rightarrow> m \<le> n \<and> unat off + m \<le> 2 ^ 63 - 1 \<and> data (os w') = overlay (unat off) p m (data (os w))"
proof (cases "file_check t f w")
  case (Inl e)
  then show ?thesis by (simp add: file_write_def file_transfer_def)
next
  case (Inr u)
  let ?w1 = "file_use f w"
  let ?w2 = "io_init (fl_loop ?w1 f) Op_File_Write (fl_fd ?w1 f) p (clip n) k None a ?w1"
  let ?w3 = "?w2\<lparr>io_offset := (io_offset ?w2)(a := off)\<rparr>"
  note rg = file_range_iff [OF clip_le(2), of n off]
  obtain r w4 where r: "await a ?w3 = (r, w4)" by fastforce
  have c: "io_code ?w3 a = Op_File_Write" by (simp add: io_init_def)
  have h: "case (r, w4) of (Inl e, w') \<Rightarrow> data (os w') = data (os ?w3)
     | (Inr k, w') \<Rightarrow> k \<le> io_size ?w3 a \<and> data (os w') = overlay (unat (io_offset ?w3 a)) (io_buf ?w3 a) k (data (os ?w3))"
    using assms(1) c unfolding honest_store_def r [symmetric] by simp
  show ?thesis
  proof (cases "file_canceled (fl_loop ?w1 f) k ?w1 \<or> \<not> file_range (clip n) off \<or> clip n = 0")
    case True
    then show ?thesis using Inr rg by (auto simp: file_write_def file_transfer_def Let_def)
  next
    case False
    then have e: "file_write S await t f k a p n off w = (r, file_unuse f (io_cleanup S a w4))"
      using Inr r by (simp add: file_write_def file_transfer_def Let_def)
    have v: "data (os (file_unuse f (io_cleanup S a w4))) = data (os w4)" using cleanup_view [OF assms(2)] by simp
    have s: "os ?w3 = os w" "io_size ?w3 a = clip n" "io_buf ?w3 a = p" "io_offset ?w3 a = off" by (simp_all add: io_init_def)
    show ?thesis using h v False rg clip_le(1) [of n] unfolding e s by (cases r) auto
  qed
qed

lemma file_write_all_step:
  "len = 0 \<Longrightarrow> file_write_all wr p len off w = Some (Inr (), w)"
  "len \<noteq> 0 \<Longrightarrow> wr p len off w = (Inl e, w1) \<Longrightarrow> file_write_all wr p len off w = Some (Inl e, w1)"
  "len \<noteq> 0 \<Longrightarrow> wr p len off w = (Inr 0, w1) \<Longrightarrow> file_write_all wr p len off w = Some (Inl (System_Error Io_Error), w1)"
  "len \<noteq> 0 \<Longrightarrow> wr p len off w = (Inr n, w1) \<Longrightarrow> n \<noteq> 0 \<Longrightarrow>
     file_write_all wr p len off w = file_write_all wr (p + n) (len - n) (off + word_of_nat n) w1"
  by (subst file_write_all.simps; simp)+

text \<open>
  Repeated writes, each of which places what it reports; one that fails may have placed a part of
  its bytes before.
\<close>

definition placing :: "('w \<Rightarrow> nat \<Rightarrow> nat option) \<Rightarrow> (nat \<Rightarrow> nat \<Rightarrow> 64 word \<Rightarrow> 'w \<Rightarrow> (nat, 'w) result) \<Rightarrow> bool" where
  "placing view wr \<longleftrightarrow> (\<forall>p n off w. case wr p n off w of (r, w') \<Rightarrow>
     (\<exists>m \<le> n. (m \<noteq> 0 \<longrightarrow> unat off + m \<le> 2 ^ 63 - 1) \<and> view w' = overlay (unat off) p m (view w) \<and> (\<forall>j. r = Inr j \<longrightarrow> j = m)))"

lemma placingD:
  assumes "placing view wr" "wr p n off w = (r, w')"
  obtains m where "m \<le> n" "m \<noteq> 0 \<longrightarrow> unat off + m \<le> 2 ^ 63 - 1" "view w' = overlay (unat off) p m (view w)" "\<forall>j. r = Inr j \<longrightarrow> j = m"
proof -
  have "case wr p n off w of (r, w') \<Rightarrow>
     (\<exists>m \<le> n. (m \<noteq> 0 \<longrightarrow> unat off + m \<le> 2 ^ 63 - 1) \<and> view w' = overlay (unat off) p m (view w) \<and> (\<forall>j. r = Inr j \<longrightarrow> j = m))"
    using assms(1) unfolding placing_def by (elim allE)
  then show ?thesis unfolding assms(2) prod.case by (elim exE conjE) (rule that)
qed

lemma file_write_all_covers:
  assumes "placing view wr"
  shows "\<exists>r w' m. file_write_all wr p len off w = Some (r, w') \<and> m \<le> len \<and>
    view w' = overlay (unat off) p m (view w) \<and> (r = Inr () \<longrightarrow> m = len) \<and> (m \<noteq> 0 \<longrightarrow> unat off + m \<le> 2 ^ 63 - 1)"
proof (induction len arbitrary: p off w rule: less_induct)
  case (less len)
  show ?case
  proof (cases "len = 0")
    case True
    then show ?thesis using file_write_all_step(1) by fastforce
  next
    case False
    obtain r w1 where r: "wr p len off w = (r, w1)" by fastforce
    from placingD [OF assms r] obtain n where n: "n \<le> len" "n \<noteq> 0 \<longrightarrow> unat off + n \<le> 2 ^ 63 - 1"
      "view w1 = overlay (unat off) p n (view w)" "\<forall>j. r = Inr j \<longrightarrow> j = n" .
    show ?thesis
    proof (cases r)
      case (Inl e)
      then show ?thesis using file_write_all_step(2) [OF False, of wr p off w e w1] r n(1-3)
        by (intro exI [of _ "Inl e"] exI [of _ w1] exI [of _ n]) simp
    next
      case (Inr j)
      with n(4) r have r: "wr p len off w = (Inr n, w1)" by simp
      show ?thesis
      proof (cases "n = 0")
        case True
        then show ?thesis using file_write_all_step(3) [OF False, of wr p off w w1] r n(3) by auto
      next
        case nz: False
        have o: "unat (off + word_of_nat n) = unat off + n"
          using n(2) nz by (simp add: unat_word_ariths unat_of_nat)
        from less.IH [of "len - n" "p + n" "off + word_of_nat n" w1] nz False obtain r' w' m where
          m: "file_write_all wr (p + n) (len - n) (off + word_of_nat n) w1 = Some (r', w')" "m \<le> len - n"
            "view w' = overlay (unat off + n) (p + n) m (view w1)" "r' = Inr () \<longrightarrow> m = len - n"
            "m \<noteq> 0 \<longrightarrow> unat off + n + m \<le> 2 ^ 63 - 1" unfolding o by auto
        have "view w' = overlay (unat off) p (n + m) (view w)" using m(3) n(3) overlay_append by simp
        then show ?thesis using file_write_all_step(4) [OF False, of wr p off w n w1] r nz n m
          by (intro exI [of _ r'] exI [of _ w'] exI [of _ "n + m"]) auto
      qed
    qed
  qed
qed

lemma file_write_placing:
  assumes "honest_store data await" and "close_neutral data S"
  shows "placing (\<lambda>w. data (os w)) (file_write S await t f k a)"
  unfolding placing_def
proof (intro allI)
  fix p n off and w :: "('a, 'b) ports_scheme"
  obtain r w' where r: "file_write S await t f k a p n off w = (r, w')" by fastforce
  note h = file_write_honest [OF assms, where t = t and f = f and k = k and a = a and p = p and n = n and off = off and w = w, unfolded r]
  show "case file_write S await t f k a p n off w of (r, w') \<Rightarrow>
     (\<exists>m \<le> n. (m \<noteq> 0 \<longrightarrow> unat off + m \<le> 2 ^ 63 - 1) \<and> data (os w') = overlay (unat off) p m (data (os w)) \<and> (\<forall>j. r = Inr j \<longrightarrow> j = m))"
    unfolding r prod.case using h by (cases r) (auto intro: exI [of _ 0])
qed

text \<open>C37: \<^verbatim>\<open>write_all\<close> on a file always ends; when it returns, the file holds the buffer at the given
  position and nothing else changed, the 64-bit position never having wrapped; when it throws,
  a prefix of the buffer is in place.\<close>

theorem file_write_all_places:
  assumes "honest_store data await" and "close_neutral data S"
  shows "\<exists>r w' m. file_write_all (file_write S await t f k a) p len off w = Some (r, w') \<and> m \<le> len \<and>
    data (os w') = overlay (unat off) p m (data (os w)) \<and> (r = Inr () \<longrightarrow> m = len) \<and>
    (m \<noteq> 0 \<longrightarrow> unat off + m \<le> 2 ^ 63 - 1)"
  by (rule file_write_all_covers [OF file_write_placing [OF assms], where w = w])

subsection \<open>A kernel that takes three bytes at a time\<close>

definition ports_zero :: "'o \<Rightarrow> 'o ports" where
  "ports_zero k = events.extend (world.extend world_init
      \<lparr>ev_loop = \<lambda>e. 0, ev_set = \<lambda>e. False, ev_head = \<lambda>e. None, aw_event = \<lambda>a. 0, aw_next = \<lambda>a. None,
       aw_prev = \<lambda>a. None, aw_linked = \<lambda>a. False\<rparr>)
     \<lparr>os = k, io_fd = \<lambda>a. 7, io_buf = \<lambda>a. 0, io_offset = \<lambda>a. 0, io_peer = \<lambda>a. None, io_addr_size = \<lambda>a. 0,
      io_accepted = \<lambda>a. -1, io_bytes = \<lambda>a. 0, sk_loop = \<lambda>s. 0, sk_fd = \<lambda>s. 7, fl_loop = \<lambda>f. 0, fl_fd = \<lambda>f. 8,
      fl_active = \<lambda>f. 0\<rparr>"

definition calm_sys :: "'o sys" where
  "calm_sys =
     \<lparr>sys_socket = \<lambda>f t k. (7, k), sys_cloexec = \<lambda>fd k. (0, k), sys_setsockopt = \<lambda>fd l n v k. (0, k),
      sys_bind = \<lambda>fd e k. (0, k), sys_listen = \<lambda>fd b k. (0, k), sys_shutdown = \<lambda>fd k. (0, k),
      sys_getsockname = \<lambda>fd k. (0, \<lparr>ep_family = AF_INET, ep_host = 0, ep_port_be = 0, ep_size = size_in\<rparr>),
      sys_open = \<lambda>p f k. (8, k), sys_fstat = \<lambda>fd k. (0, True), sys_close = \<lambda>fd k. k\<rparr>"

lemma calm_neutral: "close_neutral view calm_sys"
  by (simp add: close_neutral_def calm_sys_def)

definition await_send3 :: "addr \<Rightarrow> nat list ports \<Rightarrow> (nat, nat list ports) result" where
  "await_send3 a w = (let k = min 3 (io_size w a) in (Inr k, w\<lparr>os := os w @ [io_buf w a ..< io_buf w a + k]\<rparr>))"

definition await_store3 :: "addr \<Rightarrow> (nat \<Rightarrow> nat option) ports \<Rightarrow> (nat, (nat \<Rightarrow> nat option) ports) result" where
  "await_store3 a w = (let k = min 3 (io_size w a) in (Inr k, w\<lparr>os := overlay (unat (io_offset w a)) (io_buf w a) k (os w)\<rparr>))"

lemma send3_honest: "honest_send (\<lambda>xs. xs) await_send3"
  by (simp add: honest_send_def await_send3_def Let_def)

lemma store3_honest: "honest_store (\<lambda>d. d) await_store3"
  by (simp add: honest_store_def await_store3_def Let_def)

theorem socket_write_all_covers_witness:
  "\<exists>r w' m. socket_write_all calm_sys await_send3 0 0 None 4 100 8 (ports_zero []) = Some (r, w') \<and> m \<le> 8 \<and>
     os w' = [100 ..< 100 + m]"
proof -
  have "os (ports_zero []) = []" by (simp add: ports_zero_def events.defs world.defs)
  with socket_write_all_covers [OF send3_honest calm_neutral, of 0 0 None 4 100 8 "ports_zero []"]
  show ?thesis by (metis append_Nil)
qed

theorem file_write_all_places_witness:
  "\<exists>r w' m. file_write_all (file_write calm_sys await_store3 0 0 None 4) 100 8 5 (ports_zero (\<lambda>i. None)) = Some (r, w') \<and>
     m \<le> 8 \<and> os w' = overlay 5 100 m (\<lambda>i. None)"
proof -
  have e: "os (ports_zero (\<lambda>i. None)) = (\<lambda>i. None)" by (simp add: ports_zero_def events.defs world.defs)
  from file_write_all_places [OF store3_honest calm_neutral, of 0 0 None 4 100 8 5 "ports_zero (\<lambda>i. None)"]
  obtain r w' m where
    "file_write_all (file_write calm_sys await_store3 0 0 None 4) 100 8 5 (ports_zero (\<lambda>i. None)) = Some (r, w')"
    "m \<le> 8" "os w' = overlay (unat (5 :: 64 word)) 100 m (os (ports_zero (\<lambda>i. None)))" by blast
  then show ?thesis unfolding e by (intro exI [of _ r] exI [of _ w'] exI [of _ m]) simp
qed

end
