(* ===== verification/Uring_Poll.thy ===== *)
theory Uring_Poll
  imports Uring Ports_Props
begin

text \<open>
  Completion processing of the Linux backend: a request is retired exactly once, when its last
  completion and the completion of its cancellation, if one was sent, have both arrived; the
  count of draining requests stays in step with the requests.
\<close>

subsection \<open>Frames\<close>

lemma uworld_finish [simp]:
  "drv (loop_finish l a (w :: ('o, 'k, 'z) uworld_scheme)) = drv w" "io_done (loop_finish l a w) = io_done w"
  "io_canceling (loop_finish l a w) = io_canceling w" "io_draining (loop_finish l a w) = io_draining w"
  by (simp_all add: loop_finish_def callback_reset_def ready_push_def upd_loop_def Let_def split: prod.split option.split)

lemma uworld_unlink [simp]:
  "drv (io_unlink l a (w :: ('o, 'k, 'z) uworld_scheme)) = drv w" "io_done (io_unlink l a w) = io_done w"
  "io_canceling (io_unlink l a w) = io_canceling w" "io_draining (io_unlink l a w) = io_draining w"
  "io_hook (io_unlink l a w) = io_hook w"
  by (simp_all add: io_unlink_def upd_loop_def split: prod.split)

lemma io_hook_finish [simp]: "io_hook (loop_finish l a w) = io_hook w"
  by (simp add: loop_finish_def callback_reset_def ready_push_def upd_loop_def Let_def split: prod.split option.split)

lemma upd_drv_frame [simp]:
  "io_done (upd_drv l f w) = io_done w" "io_canceling (upd_drv l f w) = io_canceling w"
  "io_draining (upd_drv l f w) = io_draining w" "io_hook (upd_drv l f w) = io_hook w"
  "loops (upd_drv l f w) = loops w" "op_active (upd_drv l f w) = op_active w" "op_owner (upd_drv l f w) = op_owner w"
  "drv (upd_drv l f w) l = f (drv w l)" "k \<noteq> l \<Longrightarrow> drv (upd_drv l f w) k = drv w k"
  "io_code (upd_drv l f w) = io_code w" "io_next (upd_drv l f w) = io_next w" "op_error (upd_drv l f w) = op_error w"
  "io_native (upd_drv l f w) = io_native w" "io_prev (upd_drv l f w) = io_prev w" "io_result (upd_drv l f w) = io_result w"
  by (simp_all add: upd_drv_def)

lemma rep_upd_drv [simp]: "loop_rep (upd_drv k f w) l A rs ts ws ns = loop_rep w l A rs ts ws ns"
  by (simp add: upd_drv_def loop_rep_def)

text \<open>Retiring a request that resumes a coroutine.\<close>

lemma uring_retire_frame:
  assumes "\<not> io_hook w a"
  shows "io_done (uring_retire H l a w) = io_done w" "io_canceling (uring_retire H l a w) = io_canceling w"
    "io_draining (uring_retire H l a w) = io_draining w" "io_hook (uring_retire H l a w) = io_hook w"
    "drv (uring_retire H l a w) = (drv w)(l := (drv w l)\<lparr>dr_drains := dr_drains (drv w l) - (if io_draining w a then 1 else 0)\<rparr>)"
  using assms by (simp_all add: uring_retire_def loop_complete_def Let_def upd_drv_def fun_eq_iff)

lemma rep_uring_retire:
  assumes "loop_rep w l {} rs ts ws ns" and "a \<in> set ns" and "\<not> io_hook w a"
  shows "loop_rep (uring_retire H l a w) l {} (rs @ [a]) ts ws (remove1 a ns)"
proof -
  let ?v = "if io_draining w a then upd_drv l (\<lambda>d. d\<lparr>dr_drains := dr_drains d - 1\<rparr>) w else w"
  have "loop_rep ?v l {} rs ts ws ns" "\<not> io_hook ?v a" using assms by simp_all
  from rep_complete [OF this(1) assms(2) this(2)] show ?thesis by (simp add: uring_retire_def)
qed

subsection \<open>What the kernel promises\<close>

text \<open>
  The completions a kernel may report for the live requests \<open>L\<close>, of which those in \<open>d\<close> had their
  last completion and those in \<open>c\<close> have a cancellation in flight: none for a request after its
  last one (the one without \<^verbatim>\<open>IORING_CQE_F_MORE\<close>), and one for each cancellation.
\<close>

fun cqes_ok :: "addr set \<Rightarrow> (addr \<Rightarrow> bool) \<Rightarrow> (addr \<Rightarrow> bool) \<Rightarrow> cqe list \<Rightarrow> bool" where
  "cqes_ok L d c [] \<longleftrightarrow> True"
| "cqes_ok L d c (q # qs) \<longleftrightarrow>
     (case cq_data q of
        Ud_Wake \<Rightarrow> cqes_ok L d c qs
      | Ud_Cancel a \<Rightarrow> a \<in> L \<and> c a \<and> cqes_ok (if d a then L - {a} else L) d (c(a := False)) qs
      | Ud_Op a \<Rightarrow> a \<in> L \<and> \<not> d a \<and>
          cqes_ok (if \<not> cqe_more q \<and> \<not> c a then L - {a} else L) (d(a := \<not> cqe_more q)) c qs)"

text \<open>The requests to retire, in the order of the completions that settle them.\<close>

fun retired :: "(addr \<Rightarrow> bool) \<Rightarrow> (addr \<Rightarrow> bool) \<Rightarrow> cqe list \<Rightarrow> addr list" where
  "retired d c [] = []"
| "retired d c (q # qs) =
     (case cq_data q of
        Ud_Wake \<Rightarrow> retired d c qs
      | Ud_Cancel a \<Rightarrow> (if d a then [a] else []) @ retired d (c(a := False)) qs
      | Ud_Op a \<Rightarrow> (if \<not> cqe_more q \<and> \<not> c a then [a] else []) @ retired (d(a := \<not> cqe_more q)) c qs)"

text \<open>What the \<^verbatim>\<open>result\<close> hooks must leave alone.\<close>

definition hooks_quiet :: "loop_id \<Rightarrow> ('o, 'k, 'z) uworld_scheme hooks \<Rightarrow> bool" where
  "hooks_quiet l H \<longleftrightarrow> (\<forall>a r f w.
     (let w' = hk_result H a r f w in
      io_done w' = io_done w \<and> io_canceling w' = io_canceling w \<and> io_draining w' = io_draining w \<and>
      io_hook w' = io_hook w \<and> drv w' = drv w \<and>
      (\<forall>rs ts ws ns. loop_rep w l {} rs ts ws ns \<longrightarrow> loop_rep w' l {} rs ts ws ns)))"

lemma rep_fields:
  assumes "loop_rep w l A rs ts ws ns"
  shows "loop_rep (w\<lparr>io_done := f\<rparr>) l A rs ts ws ns" "loop_rep (w\<lparr>io_canceling := f\<rparr>) l A rs ts ws ns"
    "loop_rep (w\<lparr>io_accepted := g\<rparr>) l A rs ts ws ns" "loop_rep (w\<lparr>io_bytes := h\<rparr>) l A rs ts ws ns"
    "loop_rep (w\<lparr>io_addr_size := h\<rparr>) l A rs ts ws ns"
  using assms by (simp_all add: loop_rep_def)

lemma cqe_result_frame:
  assumes "hooks_quiet l H" and "loop_rep w l {} rs ts ws ns"
  shows "io_done (cqe_result H a q w) = (io_done w)(a := \<not> cqe_more q)"
    "io_canceling (cqe_result H a q w) = io_canceling w" "io_draining (cqe_result H a q w) = io_draining w"
    "io_hook (cqe_result H a q w) = io_hook w" "drv (cqe_result H a q w) = drv w"
    "loop_rep (cqe_result H a q w) l {} rs ts ws ns"
proof -
  let ?v = "w\<lparr>io_done := (io_done w)(a := \<not> cqe_more q)\<rparr>"
  have h: "io_done (hk_result H a r f ?v) = io_done ?v" "io_canceling (hk_result H a r f ?v) = io_canceling w"
    "io_draining (hk_result H a r f ?v) = io_draining w" "io_hook (hk_result H a r f ?v) = io_hook w"
    "drv (hk_result H a r f ?v) = drv w" "loop_rep (hk_result H a r f ?v) l {} rs ts ws ns" for r f
    using assms(1) rep_fields(1) [OF assms(2)] by (auto simp: hooks_quiet_def Let_def)
  have rv: "loop_rep ?v l {} rs ts ws ns" by (rule rep_fields(1) [OF assms(2)])
  show "io_done (cqe_result H a q w) = (io_done w)(a := \<not> cqe_more q)"
    "io_canceling (cqe_result H a q w) = io_canceling w" "io_draining (cqe_result H a q w) = io_draining w"
    "io_hook (cqe_result H a q w) = io_hook w" "drv (cqe_result H a q w) = drv w"
    using h by (simp_all add: cqe_result_def Let_def set_error_def)
  show "loop_rep (cqe_result H a q w) l {} rs ts ws ns"
    using h(6) rv rep_fields(3,4) [OF rv] by (auto simp: cqe_result_def Let_def intro!: rep_fields(5) rep_set_error)
qed

subsection \<open>Retirement\<close>

lemma retired_subset: "cqes_ok L d c qs \<Longrightarrow> set (retired d c qs) \<subseteq> L"
proof (induction qs arbitrary: L d c)
  case Nil
  then show ?case by simp
next
  case (Cons q qs)
  show ?case
  proof (cases "cq_data q")
    case Ud_Wake
    then show ?thesis using Cons by simp
  next
    case (Ud_Op a)
    then show ?thesis using Cons.prems Cons.IH [of "if \<not> cqe_more q \<and> \<not> c a then L - {a} else L"]
      by (auto split: if_splits)
  next
    case (Ud_Cancel a)
    then show ?thesis using Cons.prems Cons.IH [of "if d a then L - {a} else L"] by (auto split: if_splits)
  qed
qed

text \<open>The state between two completions: structure of the loop, and every finished request still awaits
  the completion of its cancellation.\<close>

definition poll_inv :: "('o, 'k, 'z) uworld_scheme \<Rightarrow> loop_id \<Rightarrow> addr list \<Rightarrow> addr list \<Rightarrow> addr list \<Rightarrow> addr list \<Rightarrow> bool" where
  "poll_inv w l rs ts ws ns \<longleftrightarrow>
     loop_rep w l {} rs ts ws ns \<and> (\<forall>a \<in> set ns. \<not> io_hook w a \<and> (io_done w a \<longrightarrow> io_canceling w a)) \<and>
     dr_drains (drv w l) = of_nat (length (filter (io_draining w) ns))"

lemma drains_remove1:
  assumes "a \<in> set ns" and "(x :: 32 word) = of_nat (length (filter P ns))"
  shows "x - (if P a then 1 else 0) = of_nat (length (filter P (remove1 a ns)))"
proof -
  have "length (filter P ns) = length (filter P (remove1 a ns)) + (if P a then 1 else 0)"
    using assms(1) by (induction ns) auto
  then show ?thesis using assms(2) by simp
qed

lemma poll_inv_retire:
  assumes inv: "loop_rep w l {} rs ts ws ns" "dr_drains (drv w l) = of_nat (length (filter (io_draining w) ns))"
    and a: "a \<in> set ns" and rest: "\<forall>b \<in> set ns. \<not> io_hook w b \<and> (b \<noteq> a \<longrightarrow> io_done w b \<longrightarrow> io_canceling w b)"
  shows "poll_inv (uring_retire H l a w) l (rs @ [a]) ts ws (remove1 a ns)"
proof -
  have h: "\<not> io_hook w a" using a rest by blast
  note f = uring_retire_frame [OF h, of H l]
  have d: "distinct ns" using loop_repD(6) [OF inv(1)] by simp
  show ?thesis
    unfolding poll_inv_def using rep_uring_retire [OF inv(1) a h, of H] f drains_remove1 [OF a inv(2)] rest d
    by simp
qed

lemma poll_inv_step:
  assumes quiet: "hooks_quiet l H" and inv: "poll_inv w l rs ts ws ns"
    and ok: "cqes_ok (set ns) (io_done w) (io_canceling w) (q # qs)"
  shows "\<exists>ys ns'. retired (io_done w) (io_canceling w) (q # qs) =
      ys @ retired (io_done (cqe_step H l q w)) (io_canceling (cqe_step H l q w)) qs \<and>
    poll_inv (cqe_step H l q w) l (rs @ ys) ts ws ns' \<and> ns' = filter (\<lambda>a. a \<notin> set ys) ns \<and> distinct ys \<and>
    cqes_ok (set ns') (io_done (cqe_step H l q w)) (io_canceling (cqe_step H l q w)) qs"
proof -
  have rep: "loop_rep w l {} rs ts ws ns" and st: "\<forall>a \<in> set ns. \<not> io_hook w a \<and> (io_done w a \<longrightarrow> io_canceling w a)"
    and dr: "dr_drains (drv w l) = of_nat (length (filter (io_draining w) ns))" using inv by (auto simp: poll_inv_def)
  have d: "distinct ns" using loop_repD(6) [OF rep] by simp
  have rm: "remove1 a ns = filter (\<lambda>b. b \<notin> set [a]) ns" "set (remove1 a ns) = set ns - {a}" for a
    using d by (simp_all add: filter_neq_remove1) auto
  show ?thesis
  proof (cases "cq_data q")
    case Ud_Wake
    then show ?thesis using inv ok by (intro exI [of _ "[]"] exI [of _ ns]) (simp add: cqe_step_def)
  next
    case (Ud_Op a)
    let ?v = "cqe_result H a q w"
    note f = cqe_result_frame [OF quiet rep, of a q]
    have a: "a \<in> set ns" "\<not> io_done w a" using ok Ud_Op by auto
    have st': "\<forall>b \<in> set ns. \<not> io_hook ?v b \<and> (b \<noteq> a \<longrightarrow> io_done ?v b \<longrightarrow> io_canceling ?v b)" using st f by simp
    show ?thesis
    proof (cases "\<not> cqe_more q \<and> \<not> io_canceling w a")
      case True
      have s: "cqe_step H l q w = uring_retire H l a ?v" using True Ud_Op f by (simp add: cqe_step_def)
      have "poll_inv (uring_retire H l a ?v) l (rs @ [a]) ts ws (remove1 a ns)"
        by (rule poll_inv_retire [OF f(6) _ a(1) st']) (use f dr in simp)
      then show ?thesis using uring_retire_frame [of ?v a H l] st f a True ok Ud_Op rm
        unfolding s by (intro exI [of _ "[a]"] exI [of _ "remove1 a ns"]) simp
    next
      case False
      have s: "cqe_step H l q w = ?v" using False Ud_Op f by (auto simp: cqe_step_def Let_def)
      have "poll_inv ?v l rs ts ws ns" unfolding poll_inv_def using f st dr False a(2) by auto
      then show ?thesis using f False ok Ud_Op unfolding s
        by (intro exI [of _ "[]"] exI [of _ ns]) (auto split: if_splits)
    qed
  next
    case (Ud_Cancel a)
    let ?v = "w\<lparr>io_canceling := (io_canceling w)(a := False)\<rparr>"
    have a: "a \<in> set ns" "io_canceling w a" using ok Ud_Cancel by auto
    have rv: "loop_rep ?v l {} rs ts ws ns" by (rule rep_fields(2) [OF rep])
    have st': "\<forall>b \<in> set ns. \<not> io_hook ?v b \<and> (b \<noteq> a \<longrightarrow> io_done ?v b \<longrightarrow> io_canceling ?v b)" using st by simp
    show ?thesis
    proof (cases "io_done w a")
      case True
      have s: "cqe_step H l q w = uring_retire H l a ?v" using True Ud_Cancel by (simp add: cqe_step_def)
      have "poll_inv (uring_retire H l a ?v) l (rs @ [a]) ts ws (remove1 a ns)"
        by (rule poll_inv_retire [OF rv _ a(1) st']) (use dr in simp)
      then show ?thesis using uring_retire_frame [of ?v a H l] st a True ok Ud_Cancel rm
        unfolding s by (intro exI [of _ "[a]"] exI [of _ "remove1 a ns"]) simp
    next
      case False
      have s: "cqe_step H l q w = ?v" using False Ud_Cancel by (simp add: cqe_step_def)
      have "poll_inv ?v l rs ts ws ns" unfolding poll_inv_def using rv st dr False by auto
      then show ?thesis using False ok Ud_Cancel unfolding s
        by (intro exI [of _ "[]"] exI [of _ ns]) simp
    qed
  qed
qed


subsection \<open>A batch, concretely\<close>

text \<open>A world in which loop 0 has the requests 1 and 2 in flight and a cancellation of 2 was sent.\<close>

definition idle_driver :: "'k \<Rightarrow> 'k driver" where
  "idle_driver k = \<lparr>dr_ring = k, dr_event = 3, dr_iopoll = False, dr_registered = False, dr_submit_batch = 0,
     dr_watching = True, dr_watch_waking = False, dr_drains = 0\<rparr>"

definition uring_world :: "'o \<Rightarrow> 'k \<Rightarrow> ('o, 'k) uworld" where
  "uring_world u k = ports.extend (ports_zero u)
     \<lparr>drv = \<lambda>l. idle_driver k, io_namelen = \<lambda>a. 0, io_trunc = \<lambda>a. False, io_canceling = \<lambda>a. False,
      io_done = \<lambda>a. False, io_draining = \<lambda>a. False, io_native = \<lambda>a. None, io_result = \<lambda>a. False\<rparr>"

lemmas uring_world_simps = uring_world_def ports_zero_def idle_driver_def world.defs events.defs ports.defs
  world_init_def loop_init_def rq_init_def

definition uring_busy :: "'o \<Rightarrow> 'k \<Rightarrow> ('o, 'k) uworld" where
  "uring_busy u k = (uring_world u k)
     \<lparr>loops := (loops world_init)(0 := (loop_init 0)\<lparr>lp_io := Some 1\<rparr>), op_active := (\<lambda>a. a = 1 \<or> a = 2),
      io_next := (\<lambda>a. None)(1 := Some 2), io_prev := (\<lambda>a. None)(2 := Some 1), io_canceling := (\<lambda>a. a = 2)\<rparr>"

definition no_hooks :: "'w hooks" where
  "no_hooks = \<lparr>hk_result = \<lambda>a r f w. w, hk_retire = \<lambda>a w. w\<rparr>"

lemma no_hooks_quiet: "hooks_quiet l no_hooks"
  by (simp add: hooks_quiet_def no_hooks_def)

lemma uring_busy_inv: "poll_inv (uring_busy u k) 0 [] [] [] [1, 2]"
  by (auto simp: uring_busy_def uring_world_simps poll_inv_def loop_rep_def rq_rep_def dll_def is_heap_def)


subsection \<open>A leaked drain\<close>

text \<open>
  \<^verbatim>\<open>submit\<close> counts a draining request before it reserves its entry.  When the reservation throws,
  \<^verbatim>\<open>io::await_suspend\<close> unlinks the request, but nobody takes the count back.
\<close>

lemma rollback_drv [simp]: "drv (io_rollback l a (w :: ('o, 'k, 'z) uworld_scheme)) = drv w"
  by (simp add: io_rollback_def callback_reset_def upd_loop_def Let_def split: option.split)

lemma rearm_idle: "dr_drains (drv w l) \<noteq> 0 \<Longrightarrow> uring_rearm K l w = Some (Inr (), w)"
  by (simp add: uring_rearm_def)

text \<open>If the ring cannot take the entry of a draining request, the exception reaches the caller with
  the count of draining requests one higher than the number of them in flight, although the
  request was unlinked; from then on \<^verbatim>\<open>poll\<close> does not re-arm the wake source even when no draining
  request is left.\<close>

theorem drain_leak:
  assumes req: "io_native w a = Some s" "sq_flags s AND IOSQE_IO_DRAIN \<noteq> 0" "io_code w a = Op_Native"
    and wake: "dr_watching (drv w l) \<longrightarrow> dr_watch_waking (drv w l)"
    and full: "driver_sqe K (\<not> io_hook w a) ((drv w l)\<lparr>dr_drains := dr_drains (drv w l) + 1\<rparr>) = Some (Inl e, d)"
    and count: "dr_drains (drv w l) = 0"
  shows "\<exists>w1. uring_submit K t l a w = Some (Inl e, w1) \<and> dr_drains (drv (io_rollback l a w1) l) = 1 \<and>
    uring_rearm K l (io_rollback l a w1) = Some (Inr (), io_rollback l a w1)"
proof -
  let ?v = "upd_drv l (\<lambda>d. d\<lparr>dr_drains := dr_drains d + 1\<rparr>) (w\<lparr>io_draining := (io_draining w)(a := True)\<rparr>)"
  have dk: "dr_drains dk = dr_drains d0" if "driver_sqe K b d0 = Some (r, dk)" for b d0 r dk
    using that by (auto simp: driver_sqe_def Let_def split: prod.splits if_splits option.splits)
  have "dr_drains d = 1" using dk [OF full] count by simp
  moreover have f: "with_drv l (driver_sqe K (\<not> io_hook ?v a)) ?v = Some (Inl e, upd_drv l (\<lambda>_. d) ?v)"
    using full by (simp add: with_drv_def upd_drv_def)
  have "uring_submit K t l a w = Some (Inl e, upd_drv l (\<lambda>_. d) ?v)"
    using req f wake by (cases "dr_watching (drv w l)") (simp_all add: uring_submit_def io_storage_def Let_def)
  ultimately show ?thesis by (intro exI [of _ "upd_drv l (\<lambda>_. d) ?v"]) (simp add: rearm_idle)
qed

text \<open>A ring that is full and whose submission fails with \<^verbatim>\<open>EBADF\<close>.\<close>

definition dead_kern :: "unit kern" where
  "dead_kern =
     \<lparr>k_init = \<lambda>n p k. (0, k), k_register_fd = \<lambda>k. (0, k), k_unregister_fd = \<lambda>k. (0, k), k_exit = \<lambda>k. k,
      k_eventfd = \<lambda>k. (3, k), k_close = \<lambda>fd k. k, k_sq_ready = \<lambda>k. 1, k_sq_space = \<lambda>k. 0, k_sq_entries = \<lambda>k. 1,
      k_get_sqe = \<lambda>k. None, k_put = \<lambda>s k. k, k_submit = \<lambda>k. (-9, k), k_wait = \<lambda>t k. (-62, k),
      k_get_events = \<lambda>k. (0, k), k_ppoll = \<lambda>t k. (0, k), k_peek = \<lambda>n k. [], k_advance = \<lambda>n k. k, k_event_read = \<lambda>k. 8\<rparr>"

theorem drain_leak_witness:
  "\<exists>w1. uring_submit dead_kern 0 0 5 ((uring_world () ())\<lparr>io_native := (\<lambda>a. Some ((sqe_of Prep_Nop)\<lparr>sq_flags := IOSQE_IO_DRAIN\<rparr>)),
       io_code := (\<lambda>a. Op_Native), drv := (\<lambda>l. (idle_driver ())\<lparr>dr_watch_waking := True\<rparr>)\<rparr>) = Some (Inl (sys_exn (-9)), w1) \<and>
     dr_drains (drv (io_rollback 0 5 w1) 0) = 1"
proof -
  let ?w = "(uring_world () ())\<lparr>io_native := (\<lambda>a. Some ((sqe_of Prep_Nop)\<lparr>sq_flags := IOSQE_IO_DRAIN\<rparr>)),
       io_code := (\<lambda>a. Op_Native), drv := (\<lambda>l. (idle_driver ())\<lparr>dr_watch_waking := True\<rparr>)\<rparr>"
  have sl: "slot_loop dead_kern () = Some (Inl (sys_exn (-9)), ())"
    by (subst slot_loop.simps) (simp add: dead_kern_def EINTR_def)
  have full: "driver_sqe dead_kern (\<not> io_hook ?w 5) ((drv ?w 0)\<lparr>dr_drains := dr_drains (drv ?w 0) + 1\<rparr>) =
      Some (Inl (sys_exn (-9)), (idle_driver ())\<lparr>dr_watch_waking := True, dr_drains := 1\<rparr>)"
    using sl by (simp add: driver_sqe_def idle_driver_def)
  have r: "io_native ?w 5 = Some ((sqe_of Prep_Nop)\<lparr>sq_flags := IOSQE_IO_DRAIN\<rparr>)"
    "sq_flags ((sqe_of Prep_Nop)\<lparr>sq_flags := IOSQE_IO_DRAIN\<rparr>) AND IOSQE_IO_DRAIN \<noteq> 0" "io_code ?w 5 = Op_Native"
    "dr_watching (drv ?w 0) \<longrightarrow> dr_watch_waking (drv ?w 0)" "dr_drains (drv ?w 0) = 0"
    by (simp_all add: IOSQE_IO_DRAIN_def idle_driver_def)
  from drain_leak [OF r(1-4) full r(5), of 0] show ?thesis by blast
qed

subsection \<open>Cancellation\<close>

text \<open>Sending a cancellation keeps the structure of the loop, as the scheduler requires of a backend.\<close>

lemma uring_cancel_rep:
  assumes "loop_rep w l {} rs ts ws ns" and "uring_cancel K l a w = Some (r, w')"
  shows "loop_rep w' l {} rs ts ws ns"
proof -
  have c: "loop_rep (u\<lparr>io_canceling := f, io_cancel_sent := g\<rparr>) l {} rs ts ws ns" if "loop_rep u l {} rs ts ws ns" for u :: "('a, 'b, 'c) uworld_scheme" and f g
    using that by (simp add: loop_rep_def)
  from assms show ?thesis
    by (auto simp: uring_cancel_def with_drv_def split: option.splits prod.splits sum.splits intro!: c)
qed

lemma uring_cancel_ok:
  assumes "\<And>a (w :: ('o, 'k, 'z) uworld_scheme). uring_cancel K l a w \<noteq> None"
  shows "cancel_ok l (\<lambda>a w. the (uring_cancel K l a (w :: ('o, 'k, 'z) uworld_scheme)))"
  unfolding cancel_ok_def
proof (intro allI impI)
  fix w :: "('o, 'k, 'z) uworld_scheme" and rs ts ws ns a
  assume "loop_rep w l {} rs ts ws ns \<and> a \<in> set ns"
  moreover obtain r w' where "uring_cancel K l a w = Some (r, w')" using assms [of a w] by auto
  ultimately show "\<exists>rs'. loop_rep (snd (the (uring_cancel K l a w))) l {} rs' ts ws ns \<or>
      loop_rep (snd (the (uring_cancel K l a w))) l {} rs' ts ws (remove1 a ns)"
    using uring_cancel_rep by fastforce
qed

end
