(* ===== verification/Uring_Ops_Props.thy ===== *)
theory Uring_Ops_Props
  imports Uring_Extra Uring_Poll
begin

text \<open>
  Properties of the typed Linux operations: the accepted ranges, the pins of registered tables,
  and batches: what is published, in which order, and where the results go.
\<close>

subsection \<open>Ranges\<close>

lemma unat_INT_MAX64: "unat INT_MAX64 = 2147483647"
  by (simp add: INT_MAX64_def)

lemma bounds_iff: "bounds n off = Inr () \<longleftrightarrow> unat n \<le> 2147483647 \<and> unat off + unat n \<le> 2 ^ 63 - 1"
proof -
  have "unat (INT64_MAX - off) = 2 ^ 63 - 1 - unat off" if "\<not> off > INT64_MAX"
    using that unat_sub [of off INT64_MAX] by (simp add: not_less unat_INT64_MAX)
  then show ?thesis
    by (auto simp: bounds_def word_less_nat_alt unat_INT_MAX64 unat_INT64_MAX not_less)
qed

text \<open>The bytes of a list of vectors, as a number.\<close>

definition vector_bytes :: "iovec list \<Rightarrow> nat" where
  "vector_bytes vs = sum_list (map (\<lambda>v. unat (iov_len v)) vs)"

definition vectors_live :: "iovec list \<Rightarrow> bool" where
  "vectors_live vs \<longleftrightarrow> (\<forall>v \<in> set vs. iov_base v = None \<longrightarrow> iov_len v = 0)"

lemma vectors_total_some:
  assumes "unat acc \<le> 2147483647"
  shows "vectors_total vs acc =
    (if vectors_live vs \<and> unat acc + vector_bytes vs \<le> 2147483647 then Some (acc + word_of_nat (vector_bytes vs)) else None)"
  using assms
proof (induction vs arbitrary: acc)
  case Nil
  then show ?case by (simp add: vectors_live_def vector_bytes_def)
next
  case (Cons v vs)
  have s: "unat (INT_MAX64 - acc) = 2147483647 - unat acc"
    using Cons.prems unat_sub [of acc INT_MAX64] by (simp add: word_le_nat_alt unat_INT_MAX64)
  show ?case
  proof (cases "unat acc + unat (iov_len v) \<le> 2147483647")
    case True
    then have u: "unat (acc + iov_len v) = unat acc + unat (iov_len v)"
      by (intro unat_add_lem [THEN iffD1]) simp
    show ?thesis
      using True Cons.prems Cons.IH [of "acc + iov_len v"] s u
      by (auto simp: word_less_nat_alt vectors_live_def vector_bytes_def ac_simps)
  next
    case False
    then have "iov_len v > INT_MAX64 - acc" using Cons.prems s by (simp add: word_less_nat_alt)
    then show ?thesis using False by (simp add: vector_bytes_def)
  qed
qed

text \<open>C38: \<^verbatim>\<open>vectors\<close> accepts exactly the requests of at most \<^verbatim>\<open>IOV_MAX\<close> vectors, without null non-empty ones, whose
  true total fits a signed 32-bit count and ends below the largest file offset; the 64-bit running total never wraps.\<close>

theorem vectors_exact:
  "vectors vs off = Inr () \<longleftrightarrow> length vs \<le> 1024 \<and> vectors_live vs \<and> vector_bytes vs \<le> 2 ^ 31 - 1 \<and>
     unat off + vector_bytes vs \<le> 2 ^ 63 - 1"
proof -
  have o: "unat (INT64_MAX - off) = 2 ^ 63 - 1 - unat off" if "\<not> off > INT64_MAX"
    using that unat_sub [of off INT64_MAX] by (simp add: not_less unat_INT64_MAX)
  have b: "unat (word_of_nat (vector_bytes vs) :: 64 word) = vector_bytes vs" if "vector_bytes vs \<le> 2147483647"
    using that by (simp add: unat_of_nat)
  show ?thesis
    using vectors_total_some [of 0 vs] o b
    by (auto simp: vectors_def IOV_MAX_def word_less_nat_alt unat_INT64_MAX not_less)
qed

lemma transfer_fits:
  assumes "transfer fd data off wr slot = Inr s"
  shows "unat (ucast (snd data) :: 32 word) = unat (snd data)" "unat off + unat (snd data) \<le> 2 ^ 63 - 1"
proof -
  have "bounds (snd data) off = Inr ()" using assms by (auto simp: transfer_def split: sum.splits)
  then have "unat (snd data) \<le> 2147483647 \<and> unat off + unat (snd data) \<le> 2 ^ 63 - 1" by (simp add: bounds_iff)
  then show "unat (ucast (snd data) :: 32 word) = unat (snd data)" "unat off + unat (snd data) \<le> 2 ^ 63 - 1"
    by (simp_all add: unsigned_ucast_eq take_bit_nat_eq_self)
qed

subsection \<open>Pins\<close>

text \<open>
  The life of requests on thread \<open>t\<close>: \<open>L\<close> are the requests alive.  Whatever else the program does
  leaves the pin counts and the tables of the requests as they are.
\<close>

inductive op_step :: "thread_id \<Rightarrow> addr set \<times> ('o, 'k, 'z) tworld_scheme \<Rightarrow> addr set \<times> ('o, 'k, 'z) tworld_scheme \<Rightarrow> bool" for t where
  Made: "a \<notin> L \<Longrightarrow> op_new t l s k f b dir a w = (Inr (), w') \<Longrightarrow> op_step t (L, w) (insert a L, w')"
| Refused: "a \<notin> L \<Longrightarrow> op_new t l s k f b dir a w = (Inl e, w') \<Longrightarrow> op_step t (L, w) (L, w')"
| Gone: "a \<in> L \<Longrightarrow> op_destroy a w = Some w' \<Longrightarrow> op_step t (L, w) (L - {a}, w')"
| Other: "op_files w' = op_files w \<Longrightarrow> op_buffers w' = op_buffers w \<Longrightarrow> ft_active w' = ft_active w \<Longrightarrow>
    bt_active w' = bt_active w \<Longrightarrow> op_step t (L, w) (L, w')"

definition pin_count :: "(addr \<Rightarrow> table_id option) \<Rightarrow> addr set \<Rightarrow> table_id \<Rightarrow> nat" where
  "pin_count pin L f = card {a \<in> L. pin a = Some f}"

definition pins_ok :: "addr set \<Rightarrow> ('o, 'k, 'z) tworld_scheme \<Rightarrow> bool" where
  "pins_ok L w \<longleftrightarrow> finite L \<and> ft_active w = pin_count (op_files w) L \<and> bt_active w = pin_count (op_buffers w) L"

lemma pin_count_insert:
  assumes "finite L" "a \<notin> L"
  shows "pin_count (pin(a := p)) (insert a L) = (case p of None \<Rightarrow> pin_count pin L | Some f \<Rightarrow> (pin_count pin L)(f := pin_count pin L f + 1))"
proof
  fix g
  have "{x \<in> insert a L. (pin(a := p)) x = Some g} = (if p = Some g then insert a {x \<in> L. pin x = Some g} else {x \<in> L. pin x = Some g})"
    using assms(2) by auto
  then show "pin_count (pin(a := p)) (insert a L) g = (case p of None \<Rightarrow> pin_count pin L | Some f \<Rightarrow> (pin_count pin L)(f := pin_count pin L f + 1)) g"
    using assms by (auto simp: pin_count_def split: option.split)
qed

lemma pin_count_other: "a \<notin> L \<Longrightarrow> pin_count (pin(a := p)) L = pin_count pin L"
  unfolding pin_count_def by (intro ext arg_cong [of _ _ card]) auto

lemma pin_count_remove:
  assumes "finite L" "a \<in> L"
  shows "pin_count pin (L - {a}) = (case pin a of None \<Rightarrow> pin_count pin L | Some f \<Rightarrow> (pin_count pin L)(f := pin_count pin L f - 1))"
proof -
  have "pin_count pin (insert a (L - {a})) = (case pin a of None \<Rightarrow> pin_count pin (L - {a})
      | Some f \<Rightarrow> (pin_count pin (L - {a}))(f := pin_count pin (L - {a}) f + 1))"
    using pin_count_insert [of "L - {a}" a pin "pin a"] assms by simp
  then show ?thesis using assms by (auto simp: insert_absorb fun_eq_iff split: option.split)
qed

lemma native_init_frame [simp]:
  "op_files (native_init l s k dir a w) = op_files w" "op_buffers (native_init l s k dir a w) = op_buffers w"
  "ft_active (native_init l s k dir a w) = ft_active w" "bt_active (native_init l s k dir a w) = bt_active w"
  by (simp_all add: native_init_def io_init_def Let_def)

lemma op_new_pins:
  assumes "op_new t l s k f b dir a w = (r, w')"
  shows "op_files w' = (op_files w)(a := f)" "op_buffers w' = (op_buffers w)(a := b)"
    "ft_active w' = (if r = Inr () then case f of None \<Rightarrow> ft_active w | Some i \<Rightarrow> (ft_active w)(i := ft_active w i + 1) else ft_active w)"
    "bt_active w' = (if r = Inr () then case b of None \<Rightarrow> bt_active w | Some i \<Rightarrow> (bt_active w)(i := bt_active w i + 1) else bt_active w)"
  using assms by (auto simp: op_new_def Let_def split: if_splits option.splits)

lemma op_destroy_pins:
  assumes "op_destroy a w = Some w'"
  shows "op_files w' = op_files w" "op_buffers w' = op_buffers w"
    "ft_active w' = (case op_files w a of None \<Rightarrow> ft_active w | Some i \<Rightarrow> (ft_active w)(i := ft_active w i - 1))"
    "bt_active w' = (case op_buffers w a of None \<Rightarrow> bt_active w | Some i \<Rightarrow> (bt_active w)(i := bt_active w i - 1))"
  using assms by (auto simp: op_destroy_def Let_def split: if_splits option.splits)

inductive_cases op_stepE: "op_step t (L, w) (L', w')"

lemma op_step_pins:
  assumes "op_step t (L, w) (L', w')" and p: "pins_ok L w"
  shows "pins_ok L' w'"
  using assms(1)
proof (rule op_stepE)
  fix a l s k f b dir assume n: "L' = insert a L" "a \<notin> L" "op_new t l s k f b dir a w = (Inr (), w')"
  show ?thesis using p n(1,2) by (auto simp: pins_ok_def op_new_pins [OF n(3)] pin_count_insert split: option.split)
next
  fix a l s k f b dir e assume n: "L' = L" "a \<notin> L" "op_new t l s k f b dir a w = (Inl e, w')"
  show ?thesis using p n(1,2) by (auto simp: pins_ok_def op_new_pins [OF n(3)] pin_count_other)
next
  fix a assume n: "L' = L - {a}" "a \<in> L" "op_destroy a w = Some w'"
  show ?thesis using p n(1,2) by (auto simp: pins_ok_def op_destroy_pins [OF n(3)] pin_count_remove split: option.split)
qed (use p in \<open>auto simp: pins_ok_def\<close>)

lemma op_run_pins: "(op_step t)\<^sup>*\<^sup>* (L, w) (L', w') \<Longrightarrow> pins_ok L w \<Longrightarrow> pins_ok L' w'"
  by (induction "(L', w')" arbitrary: L' w' rule: rtranclp_induct) (auto dest: op_step_pins)

text \<open>C22: after any sequence of requests made and destroyed, the pin count of a registered table is the number of
  live requests that refer to it; while one does, the table is neither updated nor unregistered.\<close>

theorem tables_pinned:
  assumes "(op_step t)\<^sup>*\<^sup>* ({}, v) (L, w)" and "ft_active v = (\<lambda>_. 0)" "bt_active v = (\<lambda>_. 0)"
  shows "ft_active w f = card {a \<in> L. op_files w a = Some f} \<and> bt_active w b = card {a \<in> L. op_buffers w a = Some b} \<and>
    (a \<in> L \<and> op_files w a = Some f \<longrightarrow> files_destroy R u f w = None \<and> (\<exists>e. files_update R u f off fds w = (Inl e, w))) \<and>
    (a \<in> L \<and> op_buffers w a = Some b \<longrightarrow> buffers_destroy R u b w = None \<and> (\<exists>e. buffers_update R u b off vs w = (Inl e, w)))"
proof -
  have "pins_ok {} v" using assms(2,3) by (simp add: pins_ok_def pin_count_def fun_eq_iff)
  with op_run_pins [OF assms(1)] have p: "pins_ok L w" .
  have pos: "pin a = Some g \<Longrightarrow> a \<in> L \<Longrightarrow> pin_count pin L g \<noteq> 0" for pin :: "addr \<Rightarrow> table_id option" and g
    using p by (auto simp: pin_count_def pins_ok_def)
  show ?thesis
    using p pos [of "op_files w" f] pos [of "op_buffers w" b]
    by (auto simp: pins_ok_def pin_count_def [symmetric] files_destroy_def files_update_def buffers_destroy_def buffers_update_def Let_def)
qed

text \<open>A world with file tables of four slots and nothing in flight.\<close>

definition table_world :: "'o \<Rightarrow> 'k \<Rightarrow> ('o, 'k) tworld" where
  "table_world u k = uworld.extend (uring_world u k)
     \<lparr>ft_loop = \<lambda>f. 0, ft_size = \<lambda>f. 4, ft_active = \<lambda>f. 0, bt_loop = \<lambda>b. 0, bt_regions = \<lambda>b. [], bt_active = \<lambda>b. 0,
      op_files = \<lambda>a. None, op_buffers = \<lambda>a. None, ba_pending = \<lambda>b. 0, ba_results = \<lambda>b. [], ba_done = \<lambda>b. 0,
      en_batch = \<lambda>a. 0, en_index = \<lambda>a. 0\<rparr>"

lemmas table_world_simps = table_world_def uring_world_simps uworld.defs

theorem tables_pinned_witness:
  "\<exists>w. op_new 0 0 (sqe_of Prep_Nop) None (Some 1) None None 5 (table_world () ()) = (Inr (), w) \<and>
     ft_active w 1 = 1 \<and> (\<forall>R :: unit reg. files_destroy R 0 1 w = None)"
proof -
  let ?w0 = "table_world () ()"
  obtain r w where n: "op_new 0 0 (sqe_of Prep_Nop) None (Some 1) None None 5 ?w0 = (r, w)" by fastforce
  moreover have "fst (op_new 0 0 (sqe_of Prep_Nop) None (Some 1) None None 5 ?w0) = Inr ()"
    by (simp add: op_new_def native_init_def io_init_def loop_check_def table_world_simps sqe_of_def Let_def)
  ultimately have r: "r = Inr ()" by simp
  note p = op_new_pins [OF n]
  have "(op_step 0)\<^sup>*\<^sup>* ({}, ?w0) ({5}, w)" using op_step.Made [of 5 "{}"] n r by blast
  moreover have "ft_active ?w0 = (\<lambda>_. 0)" "bt_active ?w0 = (\<lambda>_. 0)" by (simp_all add: table_world_simps)
  ultimately have "ft_active w 1 = card {a \<in> {5}. op_files w a = Some 1}" "op_files w 5 = Some 1 \<longrightarrow> files_destroy R 0 1 w = None" for R
    using tables_pinned [where L = "{5}" and a = 5 and f = 1 and R = R and u = 0] by blast+
  moreover have "{a \<in> {5}. op_files w a = Some 1} = {5}" using p(1) by auto
  ultimately show ?thesis using n r p(1) by simp
qed

subsection \<open>Batches: what is published\<close>

text \<open>The documented behaviour of the submission queue: a vacant entry can be taken and then filled.\<close>

definition ring_laws :: "'k kern \<Rightarrow> ('k \<Rightarrow> sqe list) \<Rightarrow> bool" where
  "ring_laws K log \<longleftrightarrow>
     (\<forall>k. 0 < k_sq_space K k \<longrightarrow> (\<exists>k1. k_get_sqe K k = Some k1 \<and> k_sq_space K k1 = k_sq_space K k - 1 \<and> log k1 = log k)) \<and>
     (\<forall>s k. k_sq_space K (k_put K s k) = k_sq_space K k \<and> log (k_put K s k) = log k @ [s])"

text \<open>All entries but the last are linked to the next one.\<close>

definition linked :: "link_order \<Rightarrow> sqe list \<Rightarrow> sqe list" where
  "linked order ss = map (chained order) (butlast ss) @ (if ss = [] then [] else [last ss])"

definition drains :: "sqe \<Rightarrow> bool" where
  "drains s \<longleftrightarrow> sq_flags s AND IOSQE_IO_DRAIN \<noteq> 0"

lemma drains_chained [simp]: "drains (chained order s) = drains s"
  by (simp add: drains_def chained_def IOSQE_IO_DRAIN_def IOSQE_IO_LINK_def IOSQE_IO_HARDLINK_def bit.conj_disj_distrib2
      split: link_order.split)

lemma batch_prepare_linked:
  assumes "batch_prepare order ss d = Inr (rs, d')"
  shows "rs = linked order ss" "d' = (d \<or> (\<exists>s \<in> set ss. drains s))"
proof -
  have "rs = linked order ss \<and> d' = (d \<or> (\<exists>s \<in> set ss. drains s))" using assms
  proof (induction ss arbitrary: d rs)
    case Nil
    then show ?case by (simp add: linked_def)
  next
    case (Cons s ss)
    then show ?case
      by (auto simp: linked_def Let_def drains_def [symmetric] split: if_splits sum.splits prod.splits)
  qed
  then show "rs = linked order ss" "d' = (d \<or> (\<exists>s \<in> set ss. drains s))" by auto
qed

lemma slot_loop_room:
  assumes "ring_laws K log" "0 < k_sq_space K k"
  shows "\<exists>k1. slot_loop K k = Some (Inr (), k1) \<and> k_sq_space K k1 = k_sq_space K k - 1 \<and> log k1 = log k"
proof -
  from assms obtain k1 where "k_get_sqe K k = Some k1" "k_sq_space K k1 = k_sq_space K k - 1" "log k1 = log k"
    unfolding ring_laws_def by blast
  then show ?thesis by (subst slot_loop.simps) simp
qed

text \<open>An entry of a batch that finds a vacant slot is published, and nothing else is touched.\<close>

definition entry_ready :: "loop_id \<Rightarrow> sqe \<Rightarrow> addr \<Rightarrow> ('o, 'k, 'z) uworld_scheme \<Rightarrow> bool" where
  "entry_ready l s a w \<longleftrightarrow> io_hook w a \<and> io_native w a = Some s \<and> io_code w a = Op_Native \<and> op_owner w a = l"

definition drain_safe :: "loop_id \<Rightarrow> sqe \<Rightarrow> ('o, 'k, 'z) uworld_scheme \<Rightarrow> bool" where
  "drain_safe l s w \<longleftrightarrow> (drains s \<and> dr_watching (drv w l) \<longrightarrow> dr_watch_waking (drv w l))"

lemma uworld_io_link [simp]:
  "drv (io_link l a (w :: ('o, 'k, 'z) uworld_scheme)) = drv w" "io_native (io_link l a w) = io_native w"
  "io_draining (io_link l a w) = io_draining w"
  by (simp_all add: io_link_def upd_loop_def split: prod.split)

lemma world_io_link [simp]:
  "io_hook (io_link l a w) = io_hook w" "io_code (io_link l a w) = io_code w" "op_owner (io_link l a w) = op_owner w"
  "op_active (io_link l a w) = op_active w"
  by (simp_all add: io_link_def upd_loop_def split: prod.split)

lemma access_start_ok:
  assumes "ring_laws K log" "entry_ready l s a w" "drain_safe l s w" "0 < k_sq_space K (dr_ring (drv w l))"
  shows "\<exists>w1. access_start K t a w = Some (Inr (), w1) \<and> log (dr_ring (drv w1 l)) = log (dr_ring (drv w l)) @ [sqe_set_data (Ud_Op a) s] \<and>
    k_sq_space K (dr_ring (drv w1 l)) = k_sq_space K (dr_ring (drv w l)) - 1 \<and> op_active w1 = (op_active w)(a := True) \<and>
    (\<forall>b s'. entry_ready l s' b w1 = entry_ready l s' b w) \<and> (\<forall>s'. drain_safe l s' w1 = drain_safe l s' w)"
proof -
  from slot_loop_room [OF assms(1,4)] obtain k1 where k1: "slot_loop K (dr_ring (drv w l)) = Some (Inr (), k1)"
    "k_sq_space K k1 = k_sq_space K (dr_ring (drv w l)) - 1" "log k1 = log (dr_ring (drv w l))" by blast
  have p: "k_sq_space K (k_put K x k) = k_sq_space K k" "log (k_put K x k) = log k @ [x]" for x k
    using assms(1) by (simp_all add: ring_laws_def)
  show ?thesis
    using assms(2,3) k1 p
    by (cases "drains s") (auto simp: access_start_def uring_submit_def entry_ready_def drain_safe_def drains_def with_drv_def
        driver_sqe_def driver_put_def io_storage_def io_prep_def upd_drv_def Let_def)
qed

text \<open>The nodes at \<open>xs\<close> carry the entries \<open>ss\<close>.\<close>

definition entries_ready :: "loop_id \<Rightarrow> addr list \<Rightarrow> sqe list \<Rightarrow> ('o, 'k, 'z) uworld_scheme \<Rightarrow> bool" where
  "entries_ready l xs ss w \<longleftrightarrow> list_all2 (\<lambda>a s. entry_ready l s a w \<and> drain_safe l s w) xs ss"

lemma batch_start_ok:
  assumes "ring_laws K log" "entries_ready l xs ss w" "length xs \<le> k_sq_space K (dr_ring (drv w l))"
  shows "\<exists>w1. batch_start K t xs w = Some (Inr (), w1) \<and>
    log (dr_ring (drv w1 l)) = log (dr_ring (drv w l)) @ map2 (\<lambda>a. sqe_set_data (Ud_Op a)) xs ss \<and>
    op_active w1 = (\<lambda>a. a \<in> set xs \<or> op_active w a)"
  using assms(2,3)
proof (induction xs arbitrary: ss w)
  case Nil
  then show ?case by (simp add: entries_ready_def)
next
  case (Cons a xs)
  from Cons.prems(1) obtain s ss' where ss: "ss = s # ss'" "entry_ready l s a w" "drain_safe l s w" "entries_ready l xs ss' w"
    by (auto simp: entries_ready_def list_all2_Cons1)
  have "0 < k_sq_space K (dr_ring (drv w l))" using Cons.prems(2) by simp
  from access_start_ok [OF assms(1) ss(2,3) this, of t] obtain w1 where w1: "access_start K t a w = Some (Inr (), w1)"
    "log (dr_ring (drv w1 l)) = log (dr_ring (drv w l)) @ [sqe_set_data (Ud_Op a) s]"
    "k_sq_space K (dr_ring (drv w1 l)) = k_sq_space K (dr_ring (drv w l)) - 1" "op_active w1 = (op_active w)(a := True)"
    "\<forall>b s'. entry_ready l s' b w1 = entry_ready l s' b w" "\<forall>s'. drain_safe l s' w1 = drain_safe l s' w"
    by blast
  have "entries_ready l xs ss' w1" using ss(4) w1(5,6) by (simp add: entries_ready_def)
  moreover have "length xs \<le> k_sq_space K (dr_ring (drv w1 l))" using w1(3) Cons.prems(2) by simp
  ultimately obtain w2 where w2: "batch_start K t xs w1 = Some (Inr (), w2)"
    "log (dr_ring (drv w2 l)) = log (dr_ring (drv w1 l)) @ map2 (\<lambda>a. sqe_set_data (Ud_Op a)) xs ss'"
    "op_active w2 = (\<lambda>b. b \<in> set xs \<or> op_active w1 b)" using Cons.IH by blast
  have "op_active w2 = (\<lambda>b. b \<in> set (a # xs) \<or> op_active w b)" using w2(3) w1(4) by auto
  then show ?case using w1(1,2) w2(1,2) ss(1) by simp
qed

lemma reserve_loop_room:
  assumes "reserve_loop K n k = Some (Inr u, k1)"
  shows "n \<le> k_sq_space K k1"
proof -
  have "fst y = Inr () \<longrightarrow> n \<le> k_sq_space K (snd y)" if "reserve_loop K n k = Some y" for y
    using that
  proof (induction rule: reserve_loop.raw_induct [rotated, consumes 1, case_names step])
    case (step run K n k y)
    show ?case
    proof (cases "n \<le> k_sq_space K k")
      case True
      then show ?thesis using step.hyps by auto
    next
      case False
      obtain m k2 where s: "k_submit K k = (m, k2)" by fastforce
      show ?thesis
      proof (cases "m < 0 \<and> m \<noteq> - EINTR")
        case True
        then show ?thesis using step.hyps False s by auto
      next
        case c: False
        then show ?thesis using step.hyps False s by (intro step.IH [of K n k2 y]) auto
      qed
    qed
  qed
  from this [OF assms] show ?thesis by simp
qed

lemma access_reserve_frame:
  assumes "access_reserve K t l n drain w = Some (r, w1)"
  shows "op_active w1 = op_active w" "entry_ready l' s a w1 = entry_ready l' s a w"
    "r = Inr () \<Longrightarrow> n \<le> k_sq_space K (dr_ring (drv w1 l))"
    "r = Inr () \<Longrightarrow> (drains s \<longrightarrow> drain) \<Longrightarrow> drain_safe l s w1"
proof -
  show "op_active w1 = op_active w" "entry_ready l' s a w1 = entry_ready l' s a w" using assms
    by (auto simp: access_reserve_def with_drv_def entry_ready_def upd_drv_def loop_wake_def upd_loop_def
        split: if_splits option.splits prod.splits sum.splits)
  show "n \<le> k_sq_space K (dr_ring (drv w1 l))" if "r = Inr ()" using assms that
    by (auto simp: access_reserve_def with_drv_def upd_drv_def loop_wake_def upd_loop_def dest: reserve_loop_room
        split: if_splits option.splits prod.splits sum.splits)
  show "drain_safe l s w1" if "r = Inr ()" "drains s \<longrightarrow> drain" using assms that
    by (auto simp: access_reserve_def with_drv_def drain_safe_def upd_drv_def loop_wake_def upd_loop_def
        split: if_splits option.splits prod.splits sum.splits)
qed

lemma entry_init_ready [simp]:
  "entry_ready l' s' a' (entry_init l b i s a w) = (if a' = a then l' = l \<and> s' = s else entry_ready l' s' a' w)"
  by (auto simp: entry_ready_def entry_init_def native_init_def io_init_def Let_def)

lemma entries_init_other: "a \<notin> fst ` set es \<Longrightarrow> entry_ready l' s a (entries_init l b i es w) = entry_ready l' s a w"
  by (induction l b i es w rule: entries_init.induct) auto

lemma entries_init_active: "op_active (entries_init l b i es w) a \<Longrightarrow> op_active w a"
  by (induction l b i es w rule: entries_init.induct)
    (auto simp: entry_init_def native_init_def io_init_def Let_def split: if_splits)

lemma entries_init_ready:
  assumes "distinct xs" "length xs = length ss"
  shows "list_all2 (\<lambda>a s. entry_ready l s a (entries_init l b i (zip xs ss) w)) xs ss"
  using assms(2,1)
proof (induction xs ss arbitrary: i w rule: list_induct2)
  case (Cons a xs s ss)
  have "a \<notin> fst ` set (zip xs ss)" using Cons.prems by (auto dest: set_zip_leftD)
  then show ?case using Cons by (simp add: entries_init_other)
qed simp

lemma callback_emplace_frame [simp]:
  "op_active (callback_emplace a k w) = op_active w" "drv (callback_emplace a k v) = drv (v :: ('o, 'k, 'z) uworld_scheme)"
  "entry_ready l s b (callback_emplace a k v) = entry_ready l s b v"
  by (simp_all add: callback_emplace_def cancel_fn_def entry_ready_def loop_wake_def upd_loop_def Let_def)

lemma callbacks_frame:
  "op_active (fold (\<lambda>a. callback_emplace a k) xs w) = op_active w"
  "drv (fold (\<lambda>a. callback_emplace a k) xs v) = drv (v :: ('o, 'k, 'z) uworld_scheme)"
  "entry_ready l s b (fold (\<lambda>a. callback_emplace a k) xs v) = entry_ready l s b v"
proof -
  show "op_active (fold (\<lambda>a. callback_emplace a k) xs w) = op_active w" by (induction xs arbitrary: w) simp_all
  show "drv (fold (\<lambda>a. callback_emplace a k) xs v) = drv v" by (induction xs arbitrary: v) simp_all
  show "entry_ready l s b (fold (\<lambda>a. callback_emplace a k) xs v) = entry_ready l s b v" by (induction xs arbitrary: v) simp_all
qed

lemma length_linked [simp]: "length (linked order ss) = length ss"
  by (cases ss rule: rev_cases) (simp_all add: linked_def)

lemma drains_linked: "s \<in> set (linked order ss) \<Longrightarrow> drains s \<Longrightarrow> \<exists>s' \<in> set ss. drains s'"
  by (cases ss rule: rev_cases) (auto simp: linked_def)

lemma entries_ready_reserved:
  assumes "distinct xs" "length xs = length ss" "\<forall>s \<in> set ss. drains s \<longrightarrow> drain"
    and "access_reserve K t l n drain (entries_init l b i (zip xs ss) w) = Some (Inr (), w2)"
  shows "entries_ready l xs ss (case k of None \<Rightarrow> w2 | Some tk \<Rightarrow> fold (\<lambda>a. callback_emplace a tk) xs w2)"
proof -
  note f = access_reserve_frame [OF assms(4)]
  have "list_all2 (\<lambda>a s. entry_ready l s a w2) xs ss"
    using entries_init_ready [OF assms(1,2), of l b i w] by (simp add: f(2))
  moreover have "drain_safe l s w2" if "s \<in> set ss" for s using f(4) [of s] assms(3) that by blast
  ultimately have "entries_ready l xs ss w2"
    unfolding entries_ready_def by (auto simp: list_all2_conv_all_nth)
  then show ?thesis by (simp add: entries_ready_def drain_safe_def callbacks_frame split: option.split)
qed

text \<open>C20: a batch that returns has been refused with no node in flight, or was published whole: the ring received exactly
  its entries, in input order and without interruption, every one but the last linked to its successor, before
  the completion barrier was awaited.\<close>

theorem batch_publishes:
  assumes laws: "ring_laws K log" and xs: "distinct xs" "length xs = length entries"
    and run: "batch_submit K await t l entries order k b e xs w = Some (r, w')"
  shows "r = Inr [] \<and> entries = [] \<or> (\<exists>x. r = Inl x \<and> (\<forall>a. op_active w' a \<longrightarrow> op_active w a)) \<or>
    (\<exists>k0 w3. log (dr_ring (drv w3 l)) = log k0 @ map2 (\<lambda>a. sqe_set_data (Ud_Op a)) xs (linked order entries) \<and>
       (\<forall>a \<in> set xs. op_active w3 a) \<and>
       (r, w') = (case await e w3 of (Inl x, w4) \<Rightarrow> (Inl x, w4) | (Inr _, w4) \<Rightarrow> (Inr (ba_results w4 b), w4)))"
    (is "?P \<or> ?Q \<or> ?R")
proof (cases "\<not> loop_check t l w \<or> loop_stopped l w \<or> stop_requested k w \<or> entries = [] \<or> 32768 < length entries")
  case True
  then show ?thesis using run by (auto simp: batch_submit_def split: if_splits)
next
  case False
  show ?thesis
  proof (cases "batch_prepare order entries False")
    case (Inl x)
    then show ?thesis using run False by (auto simp: batch_submit_def)
  next
    case (Inr p)
    obtain ss drain where p: "p = (ss, drain)" by fastforce
    note ss = batch_prepare_linked [OF Inr [unfolded p]]
    have dr: "\<forall>s \<in> set ss. drains s \<longrightarrow> drain" using drains_linked ss by blast
    let ?n = "length entries" and ?w0 = "event_init l e w"
    let ?w1 = "entries_init l b 0 (zip xs ss)
      (?w0\<lparr>ba_done := (ba_done ?w0)(b := e), ba_pending := (ba_pending ?w0)(b := ?n), ba_results := (ba_results ?w0)(b := replicate ?n 0)\<rparr>)"
    have sub: "batch_submit K await t l entries order k b e xs w = (case access_reserve K t l ?n drain ?w1 of
        Some (Inr _, w2) \<Rightarrow>
          (case batch_start K t xs (case k of None \<Rightarrow> w2 | Some tk \<Rightarrow> fold (\<lambda>a. callback_emplace a tk) xs w2) of
             Some (Inr _, w3) \<Rightarrow> (case await e w3 of (Inl x, w4) \<Rightarrow> Some (Inl x, w4) | (Inr _, w4) \<Rightarrow> Some (Inr (ba_results w4 b), w4))
           | Some (Inl x, w3) \<Rightarrow> Some (Inl x, w3) | None \<Rightarrow> None)
      | Some (Inl x, w2) \<Rightarrow> Some (Inl x, w2) | None \<Rightarrow> None)"
      using False Inr p by (simp add: batch_submit_def Let_def)
    obtain r2 w2 where res: "access_reserve K t l ?n drain ?w1 = Some (r2, w2)" using run sub by (fastforce split: option.splits)
    show ?thesis
    proof (cases r2)
      case (Inl x)
      have "op_active ?w1 a \<Longrightarrow> op_active w a" for a
        using entries_init_active [of l b 0 "zip xs ss" _ a] by (force simp: event_init_def)
      then have ?Q using run sub res Inl access_reserve_frame(1) [OF res] by auto
      then show ?thesis by blast
    next
      case (Inr u)
      let ?w2 = "case k of None \<Rightarrow> w2 | Some tk \<Rightarrow> fold (\<lambda>a. callback_emplace a tk) xs w2"
      have "entries_ready l xs ss ?w2" using entries_ready_reserved [OF xs(1) _ dr, of K t l ?n b 0 _ w2 k] res Inr ss(1) xs(2) by simp
      moreover have "length xs \<le> k_sq_space K (dr_ring (drv ?w2 l))"
        using access_reserve_frame(3) [OF res] Inr xs(2) by (simp add: callbacks_frame split: option.split)
      ultimately obtain w3 where w3: "batch_start K t xs ?w2 = Some (Inr (), w3)"
        "log (dr_ring (drv w3 l)) = log (dr_ring (drv ?w2 l)) @ map2 (\<lambda>a. sqe_set_data (Ud_Op a)) xs ss"
        "op_active w3 = (\<lambda>a. a \<in> set xs \<or> op_active ?w2 a)" using batch_start_ok [OF laws] by blast
      have "(r, w') = (case await e w3 of (Inl x, w4) \<Rightarrow> (Inl x, w4) | (Inr _, w4) \<Rightarrow> (Inr (ba_results w4 b), w4))"
        using run sub res Inr w3(1) by (auto split: prod.splits sum.splits)
      then have ?R using w3(2,3) ss(1) by (intro exI [of _ "dr_ring (drv ?w2 l)"] exI [of _ w3]) simp
      then show ?thesis by blast
    qed
  qed
qed

text \<open>A ring of eight entries, with its used slots and the entries written.\<close>

definition list_kern :: "(nat \<times> sqe list) kern" where
  "list_kern =
     \<lparr>k_init = \<lambda>n p k. (0, k), k_register_fd = \<lambda>k. (0, k), k_unregister_fd = \<lambda>k. (0, k), k_exit = \<lambda>k. k,
      k_eventfd = \<lambda>k. (3, k), k_close = \<lambda>fd k. k, k_sq_ready = fst, k_sq_space = \<lambda>k. 8 - fst k, k_sq_entries = \<lambda>k. 8,
      k_get_sqe = \<lambda>k. if fst k < 8 then Some (fst k + 1, snd k) else None, k_put = \<lambda>s k. (fst k, snd k @ [s]),
      k_submit = \<lambda>k. (int (fst k), (0, [])), k_wait = \<lambda>t k. (-62, k),
      k_get_events = \<lambda>k. (0, k), k_ppoll = \<lambda>t k. (0, k), k_peek = \<lambda>n k. [], k_advance = \<lambda>n k. k, k_event_read = \<lambda>k. 8\<rparr>"

lemma list_kern_laws: "ring_laws list_kern snd"
  by (auto simp: ring_laws_def list_kern_def)

lemma reserve_loop_done: "n \<le> k_sq_space K k \<Longrightarrow> reserve_loop K n k = Some (Inr (), k)"
  by (subst reserve_loop.simps) simp

lemma slot_loop_done: "k_get_sqe K k = Some k1 \<Longrightarrow> slot_loop K k = Some (Inr (), k1)"
  by (subst slot_loop.simps) simp

text \<open>Two linked entries that do nothing.\<close>

lemma two_nops_run:
  "\<exists>w'. batch_submit list_kern (\<lambda>e w. (Inr (), w)) 0 0 [sqe_of Prep_Nop, sqe_of Prep_Nop] Link_Soft None 0 0 [5, 6]
    (table_world () (0, [])) = Some (Inr [0, 0], w')"
proof -
  let ?es = "[sqe_of Prep_Nop, sqe_of Prep_Nop]"
  have "batch_prepare Link_Soft ?es False = Inr ([(sqe_of Prep_Nop)\<lparr>sq_flags := IOSQE_IO_LINK\<rparr>, sqe_of Prep_Nop], False)"
    by (simp add: batchable_def sqe_of_def chained_def IOSQE_IO_LINK_def IOSQE_IO_DRAIN_def)
  then show ?thesis
    by (simp add: batch_submit_def loop_check_def loop_stopped_def stop_requested_def access_reserve_def with_drv_def
        reserve_loop_done slot_loop_done upd_drv_def table_world_simps list_kern_def Let_def entry_init_def native_init_def
        io_init_def event_init_def access_start_def uring_submit_def driver_sqe_def driver_put_def io_storage_def
        io_prep_def io_link_def upd_loop_def sqe_of_def IOSQE_IO_DRAIN_def IOSQE_IO_LINK_def dl_push_front_def)
qed

theorem batch_publishes_witness:
  "(\<exists>w'. batch_submit list_kern (\<lambda>e w. (Inr (), w)) 0 0 [sqe_of Prep_Nop, sqe_of Prep_Nop] Link_Soft None 0 0 [5, 6]
       (table_world () (0, [])) = Some (Inr [0, 0], w')) \<and>
   (\<exists>k0 w3. snd (dr_ring (drv (w3 :: (unit, nat \<times> sqe list) tworld) 0)) = snd k0 @
     [sqe_set_data (Ud_Op 5) ((sqe_of Prep_Nop)\<lparr>sq_flags := IOSQE_IO_LINK\<rparr>), sqe_set_data (Ud_Op 6) (sqe_of Prep_Nop)])"
proof -
  let ?w = "table_world () (0, [])" and ?es = "[sqe_of Prep_Nop, sqe_of Prep_Nop]"
  let ?B = "batch_submit list_kern (\<lambda>e w. (Inr (), w)) 0 0 ?es Link_Soft None 0 0 [5, 6] ?w"
  note two_nops_run
  then obtain w' where run: "?B = Some (Inr [0, 0], w')" by blast
  have x: "distinct [5, 6 :: nat]" "length [5, 6 :: nat] = length ?es" by simp_all
  from batch_publishes [OF list_kern_laws x run] have "\<exists>k0 w3. snd (dr_ring (drv (w3 :: (unit, nat \<times> sqe list) tworld) 0)) = snd k0 @
     [sqe_set_data (Ud_Op 5) ((sqe_of Prep_Nop)\<lparr>sq_flags := IOSQE_IO_LINK\<rparr>), sqe_set_data (Ud_Op 6) (sqe_of Prep_Nop)]"
    by (auto simp: linked_def chained_def sqe_of_def)
  with run show ?thesis by blast
qed

subsection \<open>Batches: where the results go\<close>

named_theorems table_frame \<open>operations of the loop leave tables and batches alone\<close>

lemma table_frame_notify [table_frame]:
  "ba_pending (wait_notify a (w :: ('o, 'k, 'z) tworld_scheme)) = ba_pending w" "ba_results (wait_notify a w) = ba_results w"
  "ba_done (wait_notify a w) = ba_done w" "en_batch (wait_notify a w) = en_batch w" "en_index (wait_notify a w) = en_index w"
  "io_hook (wait_notify a w) = io_hook w" "io_result (wait_notify a w) = io_result w" "io_code (wait_notify a w) = io_code w"
  "io_canceling (wait_notify a w) = io_canceling w" "io_done (wait_notify a w) = io_done w"
  by (simp_all add: wait_notify_def wait_unlink_def loop_finish_def callback_reset_def ready_push_def
      upd_loop_def Let_def split: prod.split option.split)

lemma table_frame_list [table_frame]:
  "ba_pending (notify_list xs (w :: ('o, 'k, 'z) tworld_scheme)) = ba_pending w" "ba_results (notify_list xs w) = ba_results w"
  "ba_done (notify_list xs w) = ba_done w" "en_batch (notify_list xs w) = en_batch w" "en_index (notify_list xs w) = en_index w"
  "io_hook (notify_list xs w) = io_hook w" "io_result (notify_list xs w) = io_result w" "io_code (notify_list xs w) = io_code w"
  "io_canceling (notify_list xs w) = io_canceling w" "io_done (notify_list xs w) = io_done w"
  unfolding notify_list_def by (induction xs arbitrary: w) (simp_all add: table_frame)

lemma event_fire_list:
  assumes "chain (aw_next w) (ev_head w e) ys"
  shows "event_fire e w = notify_list ys (w\<lparr>ev_set := (ev_set w)(e := True)\<rparr>)"
  using assms notify_from_list [of "w\<lparr>ev_set := (ev_set w)(e := True)\<rparr>" "ev_head w e" ys]
  by (simp add: event_fire_def event_set_def loop_check_def)

lemma table_frame_unlink [table_frame]:
  "ba_pending (io_unlink l a (w :: ('o, 'k, 'z) tworld_scheme)) = ba_pending w" "ba_results (io_unlink l a w) = ba_results w"
  "ba_done (io_unlink l a w) = ba_done w" "en_batch (io_unlink l a w) = en_batch w" "en_index (io_unlink l a w) = en_index w"
  "io_hook (io_unlink l a w) = io_hook w" "io_result (io_unlink l a w) = io_result w" "io_code (io_unlink l a w) = io_code w"
  "io_canceling (io_unlink l a w) = io_canceling w" "aw_next (io_unlink l a w) = aw_next w" "ev_head (io_unlink l a w) = ev_head w"
  "ev_set (io_unlink l a w) = ev_set w"
  by (simp_all add: io_unlink_def upd_loop_def split: prod.split)

lemma table_frame_reset [table_frame]:
  "ba_pending (callback_reset a (w :: ('o, 'k, 'z) tworld_scheme)) = ba_pending w" "ba_results (callback_reset a w) = ba_results w"
  "ba_done (callback_reset a w) = ba_done w" "en_batch (callback_reset a w) = en_batch w" "en_index (callback_reset a w) = en_index w"
  "io_hook (callback_reset a w) = io_hook w" "io_result (callback_reset a w) = io_result w" "io_code (callback_reset a w) = io_code w"
  "io_canceling (callback_reset a w) = io_canceling w" "io_done (callback_reset a w) = io_done w" "aw_next (callback_reset a w) = aw_next w" "ev_head (callback_reset a w) = ev_head w"
  "ev_set (callback_reset a w) = ev_set w"
  by (simp_all add: callback_reset_def split: option.split)

lemma table_frame_drv [table_frame]:
  "ba_pending (upd_drv l f (w :: ('o, 'k, 'z) tworld_scheme)) = ba_pending w" "ba_results (upd_drv l f w) = ba_results w"
  "ba_done (upd_drv l f w) = ba_done w" "en_batch (upd_drv l f w) = en_batch w" "en_index (upd_drv l f w) = en_index w"
  "io_hook (upd_drv l f w) = io_hook w" "io_result (upd_drv l f w) = io_result w" "io_code (upd_drv l f w) = io_code w"
  "io_canceling (upd_drv l f w) = io_canceling w" "aw_next (upd_drv l f w) = aw_next w" "ev_head (upd_drv l f w) = ev_head w"
  "ev_set (upd_drv l f w) = ev_set w"
  by (simp_all add: upd_drv_def)

text \<open>
  Batch \<open>b\<close> with the nodes \<open>xs\<close> and the barrier \<open>e\<close> while \<open>n\<close> nodes are pending: node \<open>i\<close> writes slot \<open>i\<close>, and
  \<open>rs\<close> are the results reported so far.
\<close>

definition batch_rep :: "('o, 'k, 'z) tworld_scheme \<Rightarrow> batch_id \<Rightarrow> event_id \<Rightarrow> addr list \<Rightarrow> (addr \<rightharpoonup> int) \<Rightarrow> nat \<Rightarrow> bool" where
  "batch_rep w b e xs rs n \<longleftrightarrow>
     distinct xs \<and> ba_done w b = e \<and> length (ba_results w b) = length xs \<and> ba_pending w b = n \<and>
     (\<exists>ys. chain (aw_next w) (ev_head w e) ys) \<and> ev_set w e = (n = 0) \<and> dom rs \<subseteq> set xs \<and>
     (\<forall>i < length xs. en_batch w (xs ! i) = b \<and> en_index w (xs ! i) = i \<and> io_hook w (xs ! i) \<and> io_result w (xs ! i) \<and>
        io_code w (xs ! i) = Op_Native \<and> (io_done w (xs ! i) \<longleftrightarrow> rs (xs ! i) \<noteq> None) \<and>
        (\<forall>r. rs (xs ! i) = Some r \<longrightarrow> ba_results w b ! i = r))"

text \<open>A node is pending until its own completion and that of its cancellation, if one was sent, have arrived.\<close>

definition batch_pending :: "addr list \<Rightarrow> (addr \<rightharpoonup> int) \<Rightarrow> ('o, 'k, 'z) uworld_scheme \<Rightarrow> addr set" where
  "batch_pending xs rs w = {a \<in> set xs. rs a = None \<or> io_canceling w a}"

definition batch_inv :: "('o, 'k, 'z) tworld_scheme \<Rightarrow> batch_id \<Rightarrow> event_id \<Rightarrow> addr list \<Rightarrow> (addr \<rightharpoonup> int) \<Rightarrow> bool" where
  "batch_inv w b e xs rs \<longleftrightarrow> batch_rep w b e xs rs (card (batch_pending xs rs w))"

lemma finite_pending [simp]: "finite (batch_pending xs rs w)"
  by (simp add: batch_pending_def)

lemma batch_retire_rep:
  assumes "batch_rep w b e xs rs (Suc n)" "en_batch w a = b"
  shows "batch_rep (entry_retire a w) b e xs rs n" "io_canceling (entry_retire a w) = io_canceling w"
proof -
  let ?v = "w\<lparr>ba_pending := (ba_pending w)(b := n)\<rparr>"
  have p: "ba_pending w b = Suc n" "ba_done w b = e" using assms(1) by (simp_all add: batch_rep_def)
  obtain ys where ys: "chain (aw_next w) (ev_head w e) ys" using assms(1) by (auto simp: batch_rep_def)
  have "batch_rep (entry_retire a w) b e xs rs n \<and> io_canceling (entry_retire a w) = io_canceling w"
  proof (cases n)
    case 0
    have "entry_retire a w = notify_list ys (?v\<lparr>ev_set := (ev_set ?v)(e := True)\<rparr>)"
      using assms p 0 ys event_fire_list [of ?v e ys] by (simp add: entry_retire_def Let_def)
    then show ?thesis using assms(1) 0 by (simp add: batch_rep_def table_frame)
  next
    case (Suc m)
    then have "entry_retire a w = ?v" using assms p by (simp add: entry_retire_def Let_def)
    then show ?thesis using assms(1) Suc by (simp add: batch_rep_def)
  qed
  then show "batch_rep (entry_retire a w) b e xs rs n" "io_canceling (entry_retire a w) = io_canceling w" by auto
qed

lemma uring_retire_rep:
  assumes rep: "batch_rep u b e xs rs (Suc n)" and a: "a \<in> set xs"
  shows "batch_rep (uring_retire batch_hooks l a u) b e xs rs n" "io_canceling (uring_retire batch_hooks l a u) = io_canceling u"
proof -
  define v where "v = callback_reset a (io_unlink l a (if io_draining u a
      then upd_drv l (\<lambda>d. d\<lparr>dr_drains := dr_drains d - 1\<rparr>) u else u))"
  let ?v = "v\<lparr>op_active := (op_active v)(a := False)\<rparr>"
  have n: "io_hook u a" "en_batch u a = b" using rep a by (auto simp: batch_rep_def in_set_conv_nth)
  have s: "uring_retire batch_hooks l a u = entry_retire a ?v"
    using n by (simp add: uring_retire_def loop_complete_def table_frame v_def batch_hooks_def Let_def)
  have f: "en_batch v = en_batch u" "en_index v = en_index u" "ba_done v = ba_done u" "ba_pending v = ba_pending u"
    "ba_results v = ba_results u" "aw_next v = aw_next u" "ev_head v = ev_head u" "ev_set v = ev_set u" "io_done v = io_done u"
    "io_hook v = io_hook u" "io_result v = io_result u" "io_code v = io_code u" "io_canceling v = io_canceling u"
    by (simp_all add: v_def table_frame)
  have "batch_rep ?v b e xs rs (Suc n)" using rep by (simp add: batch_rep_def f)
  from batch_retire_rep [OF this, of a] show "batch_rep (uring_retire batch_hooks l a u) b e xs rs n"
    "io_canceling (uring_retire batch_hooks l a u) = io_canceling u" unfolding s by (simp_all add: f n)
qed

text \<open>A node that stops being pending is retired, and the barrier counts it.\<close>

lemma batch_settle:
  assumes rep: "batch_rep u b e xs rs (card P)" and a: "a \<in> P" "P \<subseteq> set xs" "finite P"
    and p: "batch_pending xs rs u = P - {a}"
  shows "batch_inv (uring_retire batch_hooks l a u) b e xs rs" "io_canceling (uring_retire batch_hooks l a u) = io_canceling u"
proof -
  obtain n where n: "card P = Suc n" using a(1,3) by (metis card_Suc_Diff1)
  then have "n = card (P - {a})" using a(1,3) by simp
  moreover have "a \<in> set xs" using a(1,2) by blast
  ultimately show "batch_inv (uring_retire batch_hooks l a u) b e xs rs" "io_canceling (uring_retire batch_hooks l a u) = io_canceling u"
    using uring_retire_rep [OF rep [unfolded n], of a l] p by (simp_all add: batch_inv_def batch_pending_def)
qed

lemma batch_completion:
  assumes inv: "batch_inv w b e xs rs" and a: "a \<in> set xs" "rs a = None" and c: "cq_data c = Ud_Op a" "\<not> cqe_more c"
  shows "batch_inv (cqe_step batch_hooks l c w) b e xs (rs(a \<mapsto> cq_res c)) \<and> io_canceling (cqe_step batch_hooks l c w) = io_canceling w"
proof -
  obtain i where i: "i < length xs" "xs ! i = a" using a(1) by (auto simp: in_set_conv_nth)
  have n: "en_batch w a = b" "en_index w a = i" "io_hook w a" "io_result w a" "io_code w a = Op_Native"
    using inv i by (auto simp: batch_inv_def batch_rep_def)
  let ?rs = "rs(a \<mapsto> cq_res c)" and ?P = "batch_pending xs rs w"
  define u where "u = entry_result a (cq_res c) (cq_flags c) (w\<lparr>io_done := (io_done w)(a := True)\<rparr>)"
  have u: "cqe_result batch_hooks a c w = u"
    using n c(2) by (simp add: cqe_result_def batch_hooks_def u_def entry_result_def)
  have d: "io_done u a" "io_canceling u = io_canceling w" by (simp_all add: u_def entry_result_def)
  have x: "distinct xs" using inv by (simp add: batch_inv_def batch_rep_def)
  have ne: "xs ! j \<noteq> a" if "j < length xs" "j \<noteq> i" for j using that i x by (auto simp: nth_eq_iff_index_eq)
  have rep: "batch_rep u b e xs ?rs (card ?P)"
    using inv a(1) n ne i unfolding batch_inv_def batch_rep_def u_def entry_result_def
    by (auto simp: nth_list_update)
  show ?thesis
  proof (cases "io_canceling w a")
    case True
    then have "batch_pending xs ?rs u = ?P" using d(2) by (auto simp: batch_pending_def)
    moreover have "cqe_step batch_hooks l c w = u" using True u d c(1) by (simp add: cqe_step_def Let_def)
    ultimately show ?thesis using rep d(2) by (simp add: batch_inv_def)
  next
    case False
    then have "batch_pending xs ?rs u = ?P - {a}" "a \<in> ?P" "?P \<subseteq> set xs" using d(2) a by (auto simp: batch_pending_def)
    from batch_settle [OF rep this(2,3) _ this(1)] show ?thesis using False u d c(1) by (simp add: cqe_step_def Let_def)
  qed
qed

lemma batch_cancel_sent:
  assumes "batch_inv w b e xs rs" "a \<in> set xs" "rs a = None" "uring_cancel K l a w = Some (Inr (), w')"
  shows "batch_inv w' b e xs rs"
proof -
  obtain f where w': "w' = (upd_drv l f w)\<lparr>io_canceling := (io_canceling w)(a := True), io_cancel_sent := (io_cancel_sent w)(a := True)\<rparr>"
    using assms(4) by (auto simp: uring_cancel_def with_drv_def upd_drv_def split: option.splits sum.splits prod.splits)
  have "batch_pending xs rs w' = batch_pending xs rs w" using assms(3) unfolding w' by (auto simp: batch_pending_def)
  then show ?thesis using assms(1) unfolding batch_inv_def w' by (simp add: batch_rep_def table_frame)
qed

lemma batch_cancel_completion:
  assumes inv: "batch_inv w b e xs rs" and a: "a \<in> set xs" "io_canceling w a" and c: "cq_data c = Ud_Cancel a"
  shows "batch_inv (cqe_step batch_hooks l c w) b e xs rs"
proof -
  let ?u = "w\<lparr>io_canceling := (io_canceling w)(a := False)\<rparr>" and ?P = "batch_pending xs rs w"
  have rep: "batch_rep ?u b e xs rs (card ?P)" using inv by (simp add: batch_inv_def batch_rep_def)
  have done_iff: "io_done w a \<longleftrightarrow> rs a \<noteq> None" using inv a(1) by (auto simp: batch_inv_def batch_rep_def in_set_conv_nth)
  show ?thesis
  proof (cases "rs a")
    case None
    then have "batch_pending xs rs ?u = ?P" by (auto simp: batch_pending_def)
    then show ?thesis using rep None done_iff c by (simp add: cqe_step_def batch_inv_def)
  next
    case (Some r)
    then have "batch_pending xs rs ?u = ?P - {a}" "a \<in> ?P" "?P \<subseteq> set xs" using a by (auto simp: batch_pending_def)
    from batch_settle [OF rep this(2,3) _ this(1)] show ?thesis using Some done_iff c by (simp add: cqe_step_def)
  qed
qed

text \<open>
  The life of a submitted batch: the kernel completes every node once, in any order; the loop may send a cancellation of a node
  still in flight, whose completion arrives before or after that of the node; the rest of the program leaves the batch alone,
  except for waiting on its barrier.
\<close>

inductive batch_step :: "'k kern \<Rightarrow> loop_id \<Rightarrow> batch_id \<Rightarrow> event_id \<Rightarrow> addr list \<Rightarrow>
    (addr \<rightharpoonup> int) \<times> ('o, 'k, 'z) tworld_scheme \<Rightarrow> (addr \<rightharpoonup> int) \<times> ('o, 'k, 'z) tworld_scheme \<Rightarrow> bool" for K l b e xs where
  Completed: "a \<in> set xs \<Longrightarrow> rs a = None \<Longrightarrow> cq_data c = Ud_Op a \<Longrightarrow> \<not> cqe_more c \<Longrightarrow>
    batch_step K l b e xs (rs, w) (rs(a \<mapsto> cq_res c), cqe_step batch_hooks l c w)"
| Cancel_Sent: "a \<in> set xs \<Longrightarrow> rs a = None \<Longrightarrow> uring_cancel K l a w = Some (Inr (), w') \<Longrightarrow> batch_step K l b e xs (rs, w) (rs, w')"
| Cancel_Completed: "a \<in> set xs \<Longrightarrow> io_canceling w a \<Longrightarrow> cq_data c = Ud_Cancel a \<Longrightarrow>
    batch_step K l b e xs (rs, w) (rs, cqe_step batch_hooks l c w)"
| Elsewhere: "ba_done w' b = ba_done w b \<Longrightarrow> ba_pending w' b = ba_pending w b \<Longrightarrow> ba_results w' b = ba_results w b \<Longrightarrow> ev_set w' e = ev_set w e \<Longrightarrow>
    chain (aw_next w') (ev_head w' e) ys \<Longrightarrow>
    (\<And>a. a \<in> set xs \<Longrightarrow> en_batch w' a = en_batch w a \<and> en_index w' a = en_index w a \<and> io_hook w' a = io_hook w a \<and> io_result w' a = io_result w a \<and>
       io_code w' a = io_code w a \<and> io_done w' a = io_done w a \<and> io_canceling w' a = io_canceling w a) \<Longrightarrow>
    batch_step K l b e xs (rs, w) (rs, w')"

inductive_cases batch_stepE: "batch_step K l b e xs (rs, w) (rs', w')"

lemma batch_step_inv:
  assumes "batch_step K l b e xs (rs, w) (rs', w')" and inv: "batch_inv w b e xs rs"
  shows "batch_inv w' b e xs rs'"
  using assms(1)
proof (rule batch_stepE)
  fix ys
  assume "rs' = rs" "ba_done w' b = ba_done w b" "ba_pending w' b = ba_pending w b" "ba_results w' b = ba_results w b" "ev_set w' e = ev_set w e"
    "chain (aw_next w') (ev_head w' e) ys" and
    f: "\<And>a. a \<in> set xs \<Longrightarrow> en_batch w' a = en_batch w a \<and> en_index w' a = en_index w a \<and> io_hook w' a = io_hook w a \<and> io_result w' a = io_result w a \<and>
       io_code w' a = io_code w a \<and> io_done w' a = io_done w a \<and> io_canceling w' a = io_canceling w a"
  moreover have "batch_pending xs rs w' = batch_pending xs rs w" using f by (auto simp: batch_pending_def)
  ultimately show ?thesis using inv unfolding batch_inv_def batch_rep_def by auto
qed (auto intro: batch_completion [OF inv, THEN conjunct1] batch_cancel_sent [OF inv] batch_cancel_completion [OF inv])

lemma batch_run_inv:
  "(batch_step K l b e xs)\<^sup>*\<^sup>* (rs, w) (rs', w') \<Longrightarrow> batch_inv w b e xs rs \<Longrightarrow> batch_inv w' b e xs rs'"
  by (induction "(rs', w')" arbitrary: rs' w' rule: rtranclp_induct) (auto dest: batch_step_inv)

text \<open>Everything about a batch that its submission sets up, and that publishing the entries leaves alone.\<close>

definition batch_view :: "('o, 'k, 'z) tworld_scheme \<Rightarrow> _" where
  "batch_view w = ((ba_done w, ba_pending w, ba_results w, ev_set w, ev_head w, aw_next w),
     (en_batch w, en_index w, io_hook w, io_result w, io_code w, io_done w, io_canceling w))"

lemma batch_inv_view: "batch_view w' = batch_view w \<Longrightarrow> batch_inv w' b e xs rs = batch_inv w b e xs rs"
  by (simp add: batch_view_def batch_inv_def batch_rep_def batch_pending_def)

lemma view_drv [simp]: "batch_view (upd_drv l f w) = batch_view w"
  by (simp add: batch_view_def table_frame)

lemma view_wake [simp]: "batch_view (loop_wake l w) = batch_view w"
  by (simp add: batch_view_def loop_wake_def upd_loop_def)

lemma view_link [simp]: "batch_view (io_link l a w) = batch_view w"
  by (simp add: batch_view_def io_link_def upd_loop_def split: prod.split)

lemma view_emplace [simp]: "batch_view (callback_emplace a k w) = batch_view w"
  by (simp add: batch_view_def callback_emplace_def cancel_fn_def loop_wake_def upd_loop_def Let_def)

lemma view_upd [simp]:
  "batch_view (w\<lparr>op_active := f\<rparr>) = batch_view w" "batch_view (w\<lparr>io_draining := g\<rparr>) = batch_view w" "batch_view (w\<lparr>io_namelen := h\<rparr>) = batch_view w"
  by (simp_all add: batch_view_def)

lemma view_with_drv: "with_drv l f w = Some (r, w') \<Longrightarrow> batch_view w' = batch_view w"
  by (auto simp: with_drv_def split: option.splits prod.splits)

lemma view_reserve: "access_reserve K t l n drain w = Some (r, w') \<Longrightarrow> batch_view w' = batch_view w"
  by (auto simp: access_reserve_def dest!: view_with_drv split: if_splits option.splits prod.splits sum.splits)

lemma view_submit:
  assumes "uring_submit K t l a w = Some (r, w')"
  shows "batch_view w' = batch_view w"
proof (cases "dr_iopoll (drv w l) \<and> \<not> io_storage (io_code w a)")
  case True
  then show ?thesis using assms by (auto simp: uring_submit_def)
next
  case False
  define native where "native = (case io_native w a of None \<Rightarrow> sqe_of (Prep_Other 0) | Some s \<Rightarrow> s)"
  define pre where "pre = (if sq_flags native AND IOSQE_IO_DRAIN \<noteq> 0 \<and> dr_watching (drv w l) \<and> \<not> dr_watch_waking (drv w l)
    then access_reserve K t l 1 True w else Some (Inr (), w))"
  have v1: "batch_view w1 = batch_view w" if "pre = Some (q, w1)" for q w1
    using that view_reserve by (auto simp: pre_def split: if_splits)
  show ?thesis using assms False unfolding uring_submit_def native_def [symmetric] Let_def pre_def [symmetric]
    by (auto dest!: v1 view_with_drv split: option.splits prod.splits sum.splits if_splits)
qed

lemma view_start: "batch_start K t xs w = Some (r, w') \<Longrightarrow> batch_view w' = batch_view w"
proof (induction xs arbitrary: w)
  case (Cons a xs)
  have v: "batch_view w1 = batch_view w" if "access_start K t a w = Some (q, w1)" for q w1
    using view_submit [OF that [unfolded access_start_def Let_def]] by simp
  show ?case using Cons by (auto dest: v split: option.splits prod.splits sum.splits)
qed simp

text \<open>The constructor loop binds node \<open>i\<close> to slot \<open>i\<close>.\<close>

definition entry_bound :: "batch_id \<Rightarrow> nat \<Rightarrow> addr \<Rightarrow> ('o, 'k, 'z) tworld_scheme \<Rightarrow> bool" where
  "entry_bound b i a w \<longleftrightarrow> en_batch w a = b \<and> en_index w a = i \<and> io_hook w a \<and> io_result w a \<and> io_code w a = Op_Native \<and>
     \<not> io_done w a \<and> \<not> io_canceling w a"

lemma entry_init_bound [simp]:
  "entry_bound b' i' a' (entry_init l b i s a w) = (if a' = a then b' = b \<and> i' = i else entry_bound b' i' a' w)"
  by (auto simp: entry_bound_def entry_init_def native_init_def io_init_def Let_def)

lemma entries_bound_other: "a \<notin> fst ` set es \<Longrightarrow> entry_bound b' j a (entries_init l b i es w) = entry_bound b' j a w"
  by (induction l b i es w rule: entries_init.induct) auto

lemma entries_bound:
  assumes "distinct xs" "length xs = length ss" "j < length xs"
  shows "entry_bound b (i + j) (xs ! j) (entries_init l b i (zip xs ss) w)"
  using assms(2,1,3)
proof (induction xs ss arbitrary: i j w rule: list_induct2)
  case (Cons a xs s ss)
  have a: "a \<notin> fst ` set (zip xs ss)" using Cons.prems by (auto dest: set_zip_leftD)
  show ?case
  proof (cases j)
    case 0
    then show ?thesis using a by (simp add: entries_bound_other)
  next
    case (Suc m)
    then show ?thesis using Cons.IH [of m "i + 1"] Cons.prems by simp
  qed
qed simp

lemma entries_init_batch:
  "ba_done (entries_init l b i es w) = ba_done w" "ba_pending (entries_init l b i es w) = ba_pending w"
  "ba_results (entries_init l b i es w) = ba_results w" "ev_set (entries_init l b i es w) = ev_set w"
  "ev_head (entries_init l b i es w) = ev_head w" "aw_next (entries_init l b i es w) = aw_next w"
  by (induction l b i es w rule: entries_init.induct)
    (simp_all add: entry_init_def native_init_def io_init_def Let_def)

lemma entries_init_inv:
  assumes x: "distinct xs" "length xs = length ss" "xs \<noteq> []" and w: "ba_done w b = e" "ba_pending w b = length xs"
    "length (ba_results w b) = length xs" "\<not> ev_set w e" "ev_head w e = None"
  shows "batch_inv (entries_init l b 0 (zip xs ss) w) b e xs Map.empty" "\<forall>a \<in> set xs. \<not> io_canceling (entries_init l b 0 (zip xs ss) w) a"
proof -
  let ?w = "entries_init l b 0 (zip xs ss) w"
  have n: "entry_bound b j (xs ! j) ?w" if "j < length xs" for j using entries_bound [OF x(1,2) that, of b 0 l w] by simp
  have "batch_pending xs Map.empty ?w = set xs" by (auto simp: batch_pending_def)
  then have "card (batch_pending xs Map.empty ?w) = length xs" using x(1) by (simp add: distinct_card)
  then show "batch_inv ?w b e xs Map.empty" using x n w
    by (auto simp: batch_inv_def batch_rep_def entries_init_batch entry_bound_def intro: exI [of _ "[]"])
  show "\<forall>a \<in> set xs. \<not> io_canceling ?w a" using n by (auto simp: entry_bound_def in_set_conv_nth)
qed

text \<open>A batch just published: nothing completed and nothing canceled.\<close>

definition batch_fresh :: "('o, 'k, 'z) tworld_scheme \<Rightarrow> batch_id \<Rightarrow> event_id \<Rightarrow> addr list \<Rightarrow> bool" where
  "batch_fresh w b e xs \<longleftrightarrow> batch_inv w b e xs Map.empty \<and> (\<forall>a \<in> set xs. \<not> io_canceling w a)"

lemma batch_fresh_view: "batch_view w' = batch_view w \<Longrightarrow> batch_fresh w b e xs \<Longrightarrow> batch_fresh w' b e xs"
  using batch_inv_view [of w' w] by (simp add: batch_fresh_def batch_view_def)

text \<open>
  What \<^verbatim>\<open>co_await done.join()\<close> on the barrier of a published batch is: the batch lives on, and the await returns, without
  throwing, only with the barrier set.
\<close>

definition barrier_joins :: "(event_id \<Rightarrow> ('o, 'k, 'z) tworld_scheme \<Rightarrow> (unit, ('o, 'k, 'z) tworld_scheme) result) \<Rightarrow> 'k kern \<Rightarrow> loop_id \<Rightarrow> batch_id \<Rightarrow> event_id \<Rightarrow> addr list \<Rightarrow> bool" where
  "barrier_joins await K l b e xs \<longleftrightarrow>
     (\<forall>w r w'. batch_fresh w b e xs \<and> await e w = (r, w') \<longrightarrow> r = Inr () \<and> ev_set w' e \<and> (\<exists>rs. (batch_step K l b e xs)\<^sup>*\<^sup>* (Map.empty, w) (rs, w')))"

lemma batch_submitted:
  assumes xs: "distinct xs" "length xs = length entries" "entries \<noteq> []"
    and run: "batch_submit K await t l entries order k b e xs w = Some (Inr out, w')"
  obtains w3 where "batch_fresh w3 b e xs" "await e w3 = (Inr (), w')" "out = ba_results w' b"
proof -
  have g: "\<not> (\<not> loop_check t l w \<or> loop_stopped l w \<or> stop_requested k w \<or> entries = [] \<or> 32768 < length entries)"
    by (rule ccontr) (use run xs(3) in \<open>auto simp: batch_submit_def split: if_splits\<close>)
  obtain ss drain where p: "batch_prepare order entries False = Inr (ss, drain)"
  proof (cases "batch_prepare order entries False")
    case (Inl x)
    then show thesis using run g by (simp add: batch_submit_def)
  next
    case (Inr q)
    then show thesis using that by (cases q) simp
  qed
  have len: "length xs = length ss" using batch_prepare_linked(1) [OF p] xs(2) by simp
  define w0 where "w0 = event_init l e w"
  define v where "v = w0\<lparr>ba_done := (ba_done w0)(b := e), ba_pending := (ba_pending w0)(b := length entries),
    ba_results := (ba_results w0)(b := replicate (length entries) 0)\<rparr>"
  define w1 where "w1 = entries_init l b 0 (zip xs ss) v"
  have inv: "batch_fresh w1 b e xs"
    unfolding w1_def batch_fresh_def by (intro conjI entries_init_inv) (use xs len in \<open>auto simp: v_def w0_def event_init_def\<close>)
  have sub: "batch_submit K await t l entries order k b e xs w = (case access_reserve K t l (length entries) drain w1 of
        Some (Inr _, w2) \<Rightarrow>
          (case batch_start K t xs (case k of None \<Rightarrow> w2 | Some tk \<Rightarrow> fold (\<lambda>a. callback_emplace a tk) xs w2) of
             Some (Inr _, w3) \<Rightarrow> (case await e w3 of (Inl x, w4) \<Rightarrow> Some (Inl x, w4) | (Inr _, w4) \<Rightarrow> Some (Inr (ba_results w4 b), w4))
           | Some (Inl x, w3) \<Rightarrow> Some (Inl x, w3) | None \<Rightarrow> None)
      | Some (Inl x, w2) \<Rightarrow> Some (Inl x, w2) | None \<Rightarrow> None)"
    using g p unfolding w1_def v_def w0_def by (simp add: batch_submit_def Let_def)
  obtain r2 w2 where res: "access_reserve K t l (length entries) drain w1 = Some (r2, w2)" using run sub by (fastforce split: option.splits)
  have r2: "r2 = Inr ()" using run sub res by (cases r2) auto
  note w2 = res [unfolded r2]
  define u where "u = (case k of None \<Rightarrow> w2 | Some tk \<Rightarrow> fold (\<lambda>a. callback_emplace a tk) xs w2)"
  have em: "batch_view (fold (\<lambda>a. callback_emplace a tk) ys w2) = batch_view w2" for tk ys
    by (induction ys arbitrary: w2) simp_all
  have vu: "batch_view u = batch_view w1" using view_reserve [OF w2] by (simp add: u_def em split: option.split)
  have rest: "(case batch_start K t xs u of
      Some (Inr _, w3) \<Rightarrow> (case await e w3 of (Inl x, w4) \<Rightarrow> Some (Inl x, w4) | (Inr _, w4) \<Rightarrow> Some (Inr (ba_results w4 b), w4))
    | Some (Inl x, w3) \<Rightarrow> Some (Inl x, w3) | None \<Rightarrow> None) = Some (Inr out, w')"
    using run sub w2 unfolding u_def by simp
  obtain w3 where w3: "batch_start K t xs u = Some (Inr (), w3)" "await e w3 = (Inr (), w')" "out = ba_results w' b"
    using rest by (auto split: option.splits prod.splits sum.splits)
  have "batch_view w3 = batch_view w1" using view_start [OF w3(1)] vu by simp
  from batch_fresh_view [OF this inv] have "batch_fresh w3 b e xs" .
  then show thesis using w3(2,3) by (rule that)
qed

text \<open>C18: however the kernel orders the completions of a batch, and whether or not its nodes are canceled meanwhile, a
  \<^verbatim>\<open>submit\<close> that returns gives a vector that holds the result reported for entry \<open>i\<close> at position \<open>i\<close>.  The barrier it waits on
  is open exactly when every node has reported its result and no cancellation is outstanding, and the remaining count is the
  number of nodes of which one of the two is still missing: it opens at the last completion and not before.\<close>

theorem batch_collects:
  assumes "distinct xs" and "length xs = length entries" and "entries \<noteq> []" and "barrier_joins await K l b e xs"
    and "batch_submit K await t l entries order k b e xs w = Some (Inr out, w')"
  shows "\<exists>w3 rs. await e w3 = (Inr (), w') \<and> (batch_step K l b e xs)\<^sup>*\<^sup>* (Map.empty, w3) (rs, w') \<and>
    dom rs = set xs \<and> out = map (\<lambda>a. the (rs a)) xs \<and>
    (\<forall>qs v. (batch_step K l b e xs)\<^sup>*\<^sup>* (Map.empty, w3) (qs, v) \<longrightarrow>
       (ev_set v e \<longleftrightarrow> (\<forall>a \<in> set xs. qs a \<noteq> None \<and> \<not> io_canceling v a)) \<and>
       ba_pending v b = card {a \<in> set xs. qs a = None \<or> io_canceling v a})"
proof -
  obtain w3 where fresh: "batch_fresh w3 b e xs" and w3: "await e w3 = (Inr (), w')" "out = ba_results w' b"
    by (rule batch_submitted [OF assms(1,2,3,5)])
  then have i3: "batch_inv w3 b e xs Map.empty" by (simp add: batch_fresh_def)
  obtain rs where rs: "(batch_step K l b e xs)\<^sup>*\<^sup>* (Map.empty, w3) (rs, w')" "ev_set w' e"
    using assms(4) fresh w3(1) unfolding barrier_joins_def by blast
  have barrier: "(ev_set v e \<longleftrightarrow> (\<forall>a \<in> set xs. qs a \<noteq> None \<and> \<not> io_canceling v a)) \<and>
      ba_pending v b = card {a \<in> set xs. qs a = None \<or> io_canceling v a}"
    if "(batch_step K l b e xs)\<^sup>*\<^sup>* (Map.empty, w3) (qs, v)" for qs v
  proof -
    have "batch_inv v b e xs qs" using batch_run_inv [OF that i3] .
    then have "ev_set v e \<longleftrightarrow> batch_pending xs qs v = {}" "ba_pending v b = card (batch_pending xs qs v)"
      by (simp_all add: batch_inv_def batch_rep_def)
    then show ?thesis by (auto simp: batch_pending_def)
  qed
  have inv: "batch_inv w' b e xs rs" using batch_run_inv [OF rs(1) i3] .
  have all: "rs a \<noteq> None" if "a \<in> set xs" for a using barrier [OF rs(1)] rs(2) that by blast
  have dom: "dom rs = set xs" using all inv by (auto simp: batch_inv_def batch_rep_def)
  have out: "ba_results w' b = map (\<lambda>a. the (rs a)) xs"
  proof (rule nth_equalityI)
    show "length (ba_results w' b) = length (map (\<lambda>a. the (rs a)) xs)" using inv by (simp add: batch_inv_def batch_rep_def)
    fix i assume "i < length (ba_results w' b)"
    then have i: "i < length xs" using inv by (simp add: batch_inv_def batch_rep_def)
    then obtain r where "rs (xs ! i) = Some r" using all [of "xs ! i"] by auto
    then show "ba_results w' b ! i = map (\<lambda>a. the (rs a)) xs ! i" using inv i by (simp add: batch_inv_def batch_rep_def)
  qed
  show ?thesis using w3 rs(1) dom out barrier by blast
qed

text \<open>Two entries; the kernel reports the second one first.\<close>

definition node_cqe :: "addr \<Rightarrow> int \<Rightarrow> cqe" where
  "node_cqe a r = \<lparr>cq_data = Ud_Op a, cq_res = r, cq_flags = 0\<rparr>"

definition second_first :: "event_id \<Rightarrow> (unit, nat \<times> sqe list) tworld \<Rightarrow> (unit, (unit, nat \<times> sqe list) tworld) result" where
  "second_first e w = (Inr (), cqe_step batch_hooks 0 (node_cqe 5 3) (cqe_step batch_hooks 0 (node_cqe 6 (- 5)) w))"

lemma second_first_run:
  "(batch_step list_kern 0 0 0 [5, 6])\<^sup>*\<^sup>* (Map.empty, w) ([6 \<mapsto> - 5, 5 \<mapsto> 3], snd (second_first 0 w))"
proof -
  let ?w = "cqe_step batch_hooks 0 (node_cqe 6 (- 5)) w"
  have "batch_step list_kern 0 0 0 [5, 6] (Map.empty, w) (Map.empty(6 \<mapsto> cq_res (node_cqe 6 (- 5))), ?w)"
    by (rule batch_step.Completed) (simp_all add: node_cqe_def cqe_more_def)
  moreover have "batch_step list_kern 0 0 0 [5, 6] ([6 \<mapsto> - 5], ?w) ([6 \<mapsto> - 5](5 \<mapsto> cq_res (node_cqe 5 3)), cqe_step batch_hooks 0 (node_cqe 5 3) ?w)"
    by (rule batch_step.Completed) (simp_all add: node_cqe_def cqe_more_def)
  ultimately show ?thesis by (simp add: second_first_def node_cqe_def)
qed

lemma second_first_inv:
  assumes "batch_fresh w 0 0 [5, 6]"
  shows "ev_set (snd (second_first 0 w)) 0" "ba_results (snd (second_first 0 w)) 0 = [3, - 5]"
proof -
  let ?v = "cqe_step batch_hooks 0 (node_cqe 6 (- 5)) w" and ?w = "snd (second_first 0 w)"
  let ?rs = "[6 \<mapsto> - 5, 5 \<mapsto> 3] :: nat \<rightharpoonup> int"
  have w: "batch_inv w 0 0 [5, 6] Map.empty" "\<not> io_canceling w 5" "\<not> io_canceling w 6" using assms by (simp_all add: batch_fresh_def)
  have v: "batch_inv ?v 0 0 [5, 6] [6 \<mapsto> - 5] \<and> io_canceling ?v = io_canceling w"
    using batch_completion [OF w(1), of 6 "node_cqe 6 (- 5)" 0] by (simp add: node_cqe_def cqe_more_def)
  then have inv: "batch_inv ?w 0 0 [5, 6] ?rs \<and> io_canceling ?w = io_canceling w"
    using batch_completion [of ?v 0 0 "[5, 6]" "[6 \<mapsto> - 5]" 5 "node_cqe 5 3" 0] by (simp add: second_first_def node_cqe_def cqe_more_def)
  then have "batch_pending [5, 6] ?rs ?w = {}" using w(2,3) by (simp add: batch_pending_def)
  then show "ev_set ?w 0" using inv by (simp add: batch_inv_def batch_rep_def)
  have "length (ba_results ?w 0) = 2" "ba_results ?w 0 ! 0 = 3" "ba_results ?w 0 ! 1 = - 5"
    using inv unfolding batch_inv_def batch_rep_def by (auto simp: less_Suc_eq numeral_2_eq_2)
  then show "ba_results ?w 0 = [3, - 5]" by (auto intro!: nth_equalityI simp: less_Suc_eq numeral_2_eq_2)
qed

lemma second_first_joins: "barrier_joins second_first list_kern 0 0 0 [5, 6]"
  unfolding barrier_joins_def
proof (intro allI impI)
  fix w r w' assume a: "batch_fresh w 0 0 [5, 6] \<and> second_first 0 w = (r, w')"
  then have "w' = snd (second_first 0 w)" "r = Inr ()" by (simp_all add: second_first_def)
  then show "r = Inr () \<and> ev_set w' 0 \<and> (\<exists>rs. (batch_step list_kern 0 0 0 [5, 6])\<^sup>*\<^sup>* (Map.empty, w) (rs, w'))"
    using second_first_inv(1) [of w] second_first_run [of w] a by auto
qed

lemma batch_submit_await:
  assumes "batch_submit K (\<lambda>e w. (Inr (), w)) t l entries order k b e xs w = Some (Inr out, v)" "entries \<noteq> []"
  shows "batch_submit K await t l entries order k b e xs w =
    (case await e v of (Inl x, w4) \<Rightarrow> Some (Inl x, w4) | (Inr _, w4) \<Rightarrow> Some (Inr (ba_results w4 b), w4))"
  using assms unfolding batch_submit_def Let_def
  by (auto simp del: batch_start.simps entries_init.simps split: if_splits sum.splits prod.splits option.splits)

theorem batch_collects_witness:
  "\<exists>w'. batch_submit list_kern second_first 0 0 [sqe_of Prep_Nop, sqe_of Prep_Nop] Link_Soft None 0 0 [5, 6]
     (table_world () (0, [])) = Some (Inr [3, - 5], w') \<and> ev_set w' 0 \<and> (\<exists>rs :: addr \<rightharpoonup> int. dom rs = {5, 6} \<and> [3, - 5] = [the (rs 5), the (rs 6)])"
proof -
  let ?es = "[sqe_of Prep_Nop, sqe_of Prep_Nop]"
  let ?B = "batch_submit list_kern second_first 0 0 ?es Link_Soft None 0 0 [5, 6] (table_world () (0, []))"
  obtain v where v: "batch_submit list_kern (\<lambda>e w. (Inr (), w)) 0 0 ?es Link_Soft None 0 0 [5, 6] (table_world () (0, [])) = Some (Inr [0, 0], v)"
    using two_nops_run by blast
  have "\<exists>out w'. ?B = Some (Inr out, w')"
    using batch_submit_await [OF v, of second_first] by (simp add: second_first_def)
  then obtain out w' where run: "?B = Some (Inr out, w')" by blast
  have x: "distinct [5, 6 :: nat]" "length [5, 6 :: nat] = length ?es" "?es \<noteq> []" by simp_all
  obtain w3 where w3: "batch_fresh w3 0 0 [5, 6]" "second_first 0 w3 = (Inr (), w')" "out = ba_results w' 0"
    by (rule batch_submitted [OF x run])
  then have w': "w' = snd (second_first 0 w3)" by simp
  have "out = [3, - 5]" "ev_set w' 0" using second_first_inv [OF w3(1)] w3(3) unfolding w' by simp_all
  moreover obtain rs :: "addr \<rightharpoonup> int" where "dom rs = set [5, 6]" "out = map (\<lambda>a. the (rs a)) [5, 6]"
    using batch_collects [OF x second_first_joins run] by (elim exE conjE) (rule that; assumption)
  ultimately show ?thesis using run by simp blast
qed

end
