(* ===== verification/Uring_Net_Props.thy ===== *)
theory Uring_Net_Props
  imports Uring_Stream Uring_Ops_Props
begin

text \<open>
  Properties of zero-copy sends, provided buffers and multishot streams: the order in which a
  bundled completion is decoded, the accounting of leases, the two completions of a zero-copy
  send, and the pins a stream holds on its buffer pool.
\<close>

subsection \<open>Buffer pools\<close>

named_theorems pool_frame \<open>notifications leave buffer pools alone\<close>

lemma pool_frame_notify [pool_frame]:
  "pv_loop (wait_notify a (w :: ('o, 'k, 'z) nworld_scheme)) = pv_loop w" "pv_count (wait_notify a w) = pv_count w"
  "pv_size (wait_notify a w) = pv_size w" "pv_leases (wait_notify a w) = pv_leases w" "pv_data (wait_notify a w) = pv_data w"
  "pv_held (wait_notify a w) = pv_held w" "pv_next (wait_notify a w) = pv_next w" "pv_tail (wait_notify a w) = pv_tail w"
  "pv_returned (wait_notify a w) = pv_returned w" "pv_active (wait_notify a w) = pv_active w" "pv_ring (wait_notify a w) = pv_ring w"
  by (simp_all add: wait_notify_def wait_unlink_def loop_finish_def callback_reset_def ready_push_def
      upd_loop_def Let_def split: prod.split option.split)

lemma pool_frame_list [pool_frame]:
  "pv_loop (notify_list xs (w :: ('o, 'k, 'z) nworld_scheme)) = pv_loop w" "pv_count (notify_list xs w) = pv_count w"
  "pv_size (notify_list xs w) = pv_size w" "pv_leases (notify_list xs w) = pv_leases w" "pv_data (notify_list xs w) = pv_data w"
  "pv_held (notify_list xs w) = pv_held w" "pv_next (notify_list xs w) = pv_next w" "pv_tail (notify_list xs w) = pv_tail w"
  "pv_returned (notify_list xs w) = pv_returned w" "pv_active (notify_list xs w) = pv_active w" "pv_ring (notify_list xs w) = pv_ring w"
  unfolding notify_list_def by (induction xs arbitrary: w) (simp_all add: pool_frame)

text \<open>
  Pool \<open>p\<close> when \<open>qs\<close> are the published buffers in publication order, not yet taken: the others are
  held by leases, the successor table follows the publication order and \<^verbatim>\<open>tail_\<close> is the last one.
\<close>

definition pool_rep :: "('o, 'k, 'z) nworld_scheme \<Rightarrow> pool_id \<Rightarrow> nat list \<Rightarrow> bool" where
  "pool_rep w p qs \<longleftrightarrow>
     pv_count w p \<le> 32768 \<and> length (pv_held w p) = pv_count w p \<and> length (pv_next w p) = pv_count w p \<and>
     distinct qs \<and> set qs \<subseteq> {..< pv_count w p} \<and> (\<forall>i < pv_count w p. pv_held w p ! i \<longleftrightarrow> i \<notin> set qs) \<and>
     pv_leases w p + length qs = pv_count w p \<and>
     (\<forall>j. Suc j < length qs \<longrightarrow> pv_next w p ! (qs ! j) = qs ! Suc j) \<and> (qs \<noteq> [] \<longrightarrow> pv_tail w p = last qs) \<and>
     (\<exists>ys. chain (aw_next w) (ev_head w (pv_returned w p)) ys)"

text \<open>The fixed parts of a pool, and that its loop runs on thread \<open>t\<close>.\<close>

definition pool_same :: "thread_id \<Rightarrow> pool_id \<Rightarrow> ('o, 'k, 'z) nworld_scheme \<Rightarrow> ('o, 'k, 'z) nworld_scheme \<Rightarrow> bool" where
  "pool_same t p w w' \<longleftrightarrow> pv_count w' p = pv_count w p \<and> pv_size w' p = pv_size w p \<and> pv_data w' p = pv_data w p \<and>
     pv_loop w' p = pv_loop w p \<and> (loop_check t (pv_loop w p) w \<longrightarrow> loop_check t (pv_loop w p) w')"

definition lease :: "pool_id \<Rightarrow> nat \<Rightarrow> ('o, 'k, 'z) nworld_scheme \<Rightarrow> ('o, 'k, 'z) nworld_scheme" where
  "lease p i w = w\<lparr>pv_held := (pv_held w)(p := (pv_held w p)[i := True]), pv_leases := (pv_leases w)(p := pv_leases w p + 1)\<rparr>"

definition lease_of :: "pool_id \<Rightarrow> nat \<Rightarrow> nat \<Rightarrow> ('o, 'k, 'z) nworld_scheme \<Rightarrow> chunk" where
  "lease_of p i n w = \<lparr>ck_owner = Some p, ck_id = i, ck_data = (pv_data w p + i * pv_size w p, n)\<rparr>"

lemma pool_same_lease: "pool_same t p w (lease p i w)"
  by (simp add: pool_same_def lease_def loop_check_def)

lemma take_ok:
  assumes "pool_rep w p (i # qs)" "loop_check t (pv_loop w p) w" "flags AND CQE_F_BUFFER \<noteq> 0" "buffer_id flags = i" "n \<le> pv_size w p"
  shows "provided_take t p flags n w = (Inr (lease_of p i n w), lease p i w)"
  using assms by (auto simp: provided_take_def pool_rep_def lease_of_def lease_def Let_def)

lemma rep_lease: "pool_rep w p (i # qs) \<Longrightarrow> pool_rep (lease p i w) p qs"
  by (auto simp: pool_rep_def lease_def nth_list_update)

lemma rep_put:
  assumes rep: "pool_rep w p qs" and c: "loop_check t (pv_loop w p) w" and i: "i < pv_count w p" "i \<notin> set qs"
  shows "\<exists>w'. provided_put t p i w = Some w' \<and> pool_rep w' p (qs @ [i]) \<and> pool_same t p w w' \<and> pv_active w' = pv_active w"
proof -
  let ?v = "w\<lparr>pv_held := (pv_held w)(p := (pv_held w p)[i := False]), pv_leases := (pv_leases w)(p := pv_leases w p - 1),
      pv_next := (pv_next w)(p := (pv_next w p)[pv_tail w p := u16 i]), pv_tail := (pv_tail w)(p := i)\<rparr>"
  let ?e = "pv_returned w p"
  from rep obtain ys where "chain (aw_next w) (ev_head w ?e) ys" by (auto simp: pool_rep_def)
  then have e: "event_fire ?e (publish p i ?v) = notify_list ys ((publish p i ?v)\<lparr>ev_set := (ev_set w)(?e := True)\<rparr>)"
    using event_fire_list [of "publish p i ?v" ?e ys] by (simp add: publish_def)
  have len: "pv_leases w p \<noteq> 0"
  proof
    assume "pv_leases w p = 0"
    then have "length qs = pv_count w p" "distinct qs" "set qs \<subseteq> {..< pv_count w p}" using rep by (simp_all add: pool_rep_def)
    then have "set qs = {..< pv_count w p}" by (metis card_lessThan card_subset_eq distinct_card finite_lessThan)
    then show False using i by blast
  qed
  have next_link: "(pv_next w p)[pv_tail w p := u16 i] ! ((qs @ [i]) ! j) = (qs @ [i]) ! Suc j" if "Suc j < length (qs @ [i])" for j
  proof (cases "Suc j = length qs")
    case True
    then have ne: "qs \<noteq> []" by auto
    have "qs ! j = last qs" using True ne by (metis diff_Suc_1 last_conv_nth)
    moreover have "pv_tail w p = last qs" using rep ne by (simp add: pool_rep_def)
    moreover have "last qs < length (pv_next w p)" using rep last_in_set [OF ne] by (auto simp: pool_rep_def)
    moreover have "u16 i = i" using i(1) rep by (simp add: u16_def pool_rep_def)
    ultimately show ?thesis using True by (simp add: nth_append)
  next
    case False
    then have j: "Suc j < length qs" using that by simp
    have "distinct qs" using rep by (simp add: pool_rep_def)
    moreover have "last qs = qs ! (length qs - 1)" using j by (intro last_conv_nth) auto
    ultimately have "qs ! j \<noteq> last qs" using j by (simp add: nth_eq_iff_index_eq)
    moreover have "pv_tail w p = last qs" using j rep by (auto simp: pool_rep_def)
    ultimately show ?thesis using j rep by (simp add: pool_rep_def nth_append)
  qed
  have "pool_rep (event_fire ?e (publish p i ?v)) p (qs @ [i])"
    using rep i len next_link unfolding e by (auto simp: pool_rep_def publish_def pool_frame nth_list_update)
  moreover have "pool_same t p w (event_fire ?e (publish p i ?v))"
    unfolding e by (simp add: pool_same_def publish_def pool_frame loop_check_def)
  moreover have "pv_active (event_fire ?e (publish p i ?v)) = pv_active w" unfolding e by (simp add: publish_def pool_frame)
  ultimately show ?thesis using c by (auto simp: provided_put_def Let_def)
qed

subsection \<open>Bundles\<close>

text \<open>A bundle of \<open>len\<close> bytes fills whole slots and a last, shorter one.\<close>

fun pieces :: "nat \<Rightarrow> nat \<Rightarrow> nat \<Rightarrow> nat list" where
  "pieces 0 len slot = []"
| "pieces (Suc n) len slot = min len slot # pieces n (len - min len slot) slot"

lemma length_pieces [simp]: "length (pieces n len slot) = n"
  by (induction n len slot rule: pieces.induct) simp_all

lemma sum_pieces: "len \<le> n * slot \<Longrightarrow> sum_list (pieces n len slot) = len"
  by (induction n len slot rule: pieces.induct) (auto simp: min_def)

lemma bundle_parts_cover: "0 < slot \<Longrightarrow> len \<le> bundle_parts len slot * slot"
  using dividend_less_div_times [of slot "len - 1"] by (auto simp: bundle_parts_def)

text \<open>The reference: the leases of the given buffers, in order, each with its share of the bytes.\<close>

fun deliver :: "(chunk \<Rightarrow> ('o, 'k, 'z) nworld_scheme \<Rightarrow> (unit, ('o, 'k, 'z) nworld_scheme) result option) \<Rightarrow> thread_id \<Rightarrow> pool_id \<Rightarrow>
    (nat \<times> nat) list \<Rightarrow> exn option \<Rightarrow> ('o, 'k, 'z) nworld_scheme \<Rightarrow> (unit, ('o, 'k, 'z) nworld_scheme) result option" where
  "deliver fn t p [] failure w = Some (case failure of None \<Rightarrow> Inr () | Some e \<Rightarrow> Inl e, w)"
| "deliver fn t p ((i, n) # cs) failure w =
     (case failure of
        None \<Rightarrow>
          (case fn (lease_of p i n w) (lease p i w) of
             None \<Rightarrow> None
           | Some (Inl e, w1) \<Rightarrow> deliver fn t p cs (Some e) w1
           | Some (Inr _, w1) \<Rightarrow> deliver fn t p cs None w1)
      | Some e \<Rightarrow>
          (case chunk_destroy t (lease_of p i n w) (lease p i w) of None \<Rightarrow> None | Some w1 \<Rightarrow> deliver fn t p cs (Some e) w1))"

text \<open>A consumer may return the lease it is given, and others, in any order.\<close>

definition pool_safe :: "(chunk \<Rightarrow> ('o, 'k, 'z) nworld_scheme \<Rightarrow> (unit, ('o, 'k, 'z) nworld_scheme) result option) \<Rightarrow> thread_id \<Rightarrow> pool_id \<Rightarrow> bool" where
  "pool_safe fn t p \<longleftrightarrow>
     (\<forall>c w r w' qs. pool_rep w p qs \<and> loop_check t (pv_loop w p) w \<and> ck_owner c = Some p \<and> ck_id c < pv_count w p \<and> ck_id c \<notin> set qs \<and>
        fn c w = Some (r, w') \<longrightarrow> (\<exists>xs. pool_rep w' p (qs @ xs)) \<and> pool_same t p w w')"

lemma buffer_id_flags:
  assumes "i < 65536"
  shows "buffer_id ((flags AND 65535) OR push_bit 16 (word_of_nat i)) = i"
    "((flags AND 65535) OR push_bit 16 (word_of_nat i)) AND CQE_F_BUFFER = flags AND CQE_F_BUFFER"
proof -
  have m: "(65535 :: 32 word) = mask 16" by (simp add: mask_eq_exp_minus_1)
  have u: "unat (word_of_nat i :: 32 word) = i" using assms by (simp add: unat_of_nat)
  have "take_bit 16 i = i" using assms by (simp add: take_bit_nat_eq_self)
  then have b: "n < 16" if "bit i n" for n using that by (metis bit_take_bit_iff)
  have "drop_bit 16 ((flags AND 65535) OR push_bit 16 (word_of_nat i)) = (word_of_nat i :: 32 word)"
    unfolding m by (intro bit_word_eqI) (auto simp: bit_simps dest: b)
  then show "buffer_id ((flags AND 65535) OR push_bit 16 (word_of_nat i)) = i" using u by (simp add: buffer_id_def)
  show "((flags AND 65535) OR push_bit 16 (word_of_nat i)) AND CQE_F_BUFFER = flags AND CQE_F_BUFFER"
    unfolding m CQE_F_BUFFER_def by (intro bit_word_eqI) (auto simp: bit_simps bit_1_iff)
qed

lemma each_loop_deliver:
  assumes "pool_safe fn t p" "pool_rep w p (rs @ ys)" "loop_check t (pv_loop w p) w" "flags AND CQE_F_BUFFER \<noteq> 0"
    and "rs \<noteq> [] \<longrightarrow> i = hd rs"
  shows "each_loop fn t p flags (length rs) i len failure w = deliver fn t p (zip rs (pieces (length rs) len (pv_size w p))) failure w"
  using assms(2,3,5)
proof (induction rs arbitrary: i ys len failure w)
  case Nil
  then show ?case by simp
next
  case (Cons r rs)
  let ?n = "min len (pv_size w p)" and ?c = "lease_of p r (min len (pv_size w p)) w" and ?w1 = "lease p r w"
  have i: "i = r" "r < pv_count w p" "r < 65536" "r \<notin> set (rs @ ys)" using Cons.prems by (auto simp: pool_rep_def)
  have rep1: "pool_rep ?w1 p (rs @ ys)" using rep_lease Cons.prems(1) by simp
  have s1: "pool_same t p w ?w1" by (rule pool_same_lease)
  have take: "provided_take t p ((flags AND 65535) OR push_bit 16 (word_of_nat i)) ?n w = (Inr ?c, ?w1)"
    using take_ok [of w p r "rs @ ys" t "(flags AND 65535) OR push_bit 16 (word_of_nat i)" ?n] Cons.prems(1,2) i
      buffer_id_flags [OF i(3), of flags] assms(4) by simp
  have nx: "rs \<noteq> [] \<longrightarrow> pv_next w p ! i = hd rs"
    using Cons.prems(1) i(1) by (cases rs) (auto simp: pool_rep_def dest: spec [of _ 0])
  have step: "each_loop fn t p flags (length rs) (pv_next w p ! i) (len - ?n) f w2 =
      deliver fn t p (zip rs (pieces (length rs) (len - ?n) (pv_size w p))) f w2"
    if "pool_rep w2 p ((rs @ ys) @ xs)" "pool_same t p ?w1 w2" for f w2 xs
  proof -
    have "pv_size w2 p = pv_size w p" "loop_check t (pv_loop w2 p) w2"
      using that(2) s1 Cons.prems(2) by (auto simp: pool_same_def)
    then show ?thesis using Cons.IH [of w2 "ys @ xs" "pv_next w p ! i" "len - ?n" f] that(1) nx by simp
  qed
  have c1: "loop_check t (pv_loop ?w1 p) ?w1" "pv_count ?w1 p = pv_count w p" "ck_owner ?c = Some p" "ck_id ?c = r"
    using s1 Cons.prems(2) by (auto simp: pool_same_def lease_of_def)
  show ?case
  proof (cases failure)
    case None
    have "each_loop fn t p flags (length rs) (pv_next w p ! i) (len - ?n) f w2 =
        deliver fn t p (zip rs (pieces (length rs) (len - ?n) (pv_size w p))) f w2" if fn: "fn ?c ?w1 = Some (q, w2)" for q w2 f
    proof -
      have "(\<exists>xs. pool_rep w2 p ((rs @ ys) @ xs)) \<and> pool_same t p ?w1 w2"
        using assms(1) rep1 c1 i(2,4) fn unfolding pool_safe_def by metis
      then show ?thesis using step by blast
    qed
    then show ?thesis using None take i(1,2) by (auto split: option.splits prod.splits sum.splits)
  next
    case (Some e)
    from rep_put [OF rep1 c1(1), of r] i(2,4) c1(2) obtain w2 where w2: "provided_put t p r ?w1 = Some w2"
      "pool_rep w2 p ((rs @ ys) @ [r])" "pool_same t p ?w1 w2" by auto
    have "chunk_destroy t ?c ?w1 = Some w2" using w2(1) by (simp add: chunk_destroy_def chunk_release_def lease_of_def)
    then show ?thesis using Some take i(1,2) step [OF w2(2,3)] by simp
  qed
qed

text \<open>C21: a bundled completion is decoded in publication order, whatever order earlier leases were returned in and
  whatever the consumer returns meanwhile: \<^verbatim>\<open>each\<close> does exactly what handing out the next published
  buffers does, one after the other, each full but the last; it never reports an invalid bundle, and after a
  failure of the consumer the remaining buffers are returned at once.\<close>

theorem each_publication_order:
  assumes "pool_safe fn t p" and "pool_rep w p (rs @ ys)" and "loop_check t (pv_loop w p) w" and "0 < pv_size w p"
    and "flags AND CQE_F_BUFFER \<noteq> 0" and "hd rs = buffer_id flags" and "length rs = bundle_parts len (pv_size w p)"
  shows "provided_each fn t p flags len w = deliver fn t p (zip rs (pieces (length rs) len (pv_size w p))) None w \<and>
    sum_list (pieces (length rs) len (pv_size w p)) = len"
proof -
  have "length rs \<le> pv_count w p" using assms(2) by (simp add: pool_rep_def)
  then have "provided_each fn t p flags len w = each_loop fn t p flags (length rs) (buffer_id flags) len None w"
    using assms(7) by (simp add: provided_each_def)
  also have "\<dots> = deliver fn t p (zip rs (pieces (length rs) len (pv_size w p))) None w"
    using each_loop_deliver [OF assms(1,2,3,5)] assms(6) by metis
  finally show ?thesis using sum_pieces bundle_parts_cover [OF assms(4)] assms(7) by simp
qed

subsection \<open>Lease accounting\<close>

text \<open>The slot of buffer \<open>i\<close>, and a pool whose ring ends in the slots not yet taken.\<close>

definition slot_of :: "('o, 'k, 'z) nworld_scheme \<Rightarrow> pool_id \<Rightarrow> nat \<Rightarrow> nat \<times> nat \<times> nat" where
  "slot_of w p i = (pv_data w p + i * pv_size w p, pv_size w p, i)"

definition pool_inv :: "('o, 'k, 'z) nworld_scheme \<Rightarrow> pool_id \<Rightarrow> nat list \<Rightarrow> bool" where
  "pool_inv w p qs \<longleftrightarrow> pool_rep w p qs \<and> (\<exists>used. pv_ring w p = used @ map (slot_of w p) qs)"

lemma publish_fields [simp]:
  "pv_held (publish p i w) = pv_held w" "pv_next (publish p i w) = pv_next w" "pv_tail (publish p i w) = pv_tail w"
  "pv_leases (publish p i w) = pv_leases w" "pv_count (publish p i w) = pv_count w" "pv_returned (publish p i w) = pv_returned w"
  "pv_size (publish p i w) = pv_size w" "pv_data (publish p i w) = pv_data w" "aw_next (publish p i w) = aw_next w"
  "ev_head (publish p i w) = ev_head w" "pv_ring (publish p i w) p = pv_ring w p @ [slot_of w p i]"
  "slot_of (publish p i w) q = slot_of w q" "pv_loop (publish p i w) = pv_loop w" "loops (publish p i w) = loops w"
  by (simp_all add: publish_def slot_of_def loop_check_def fun_eq_iff)

lemma publish_all [simp]:
  "pv_held (fold (publish p) xs w) = pv_held w" "pv_next (fold (publish p) xs w) = pv_next w" "pv_tail (fold (publish p) xs w) = pv_tail w"
  "pv_leases (fold (publish p) xs w) = pv_leases w" "pv_count (fold (publish p) xs w) = pv_count w"
  "pv_returned (fold (publish p) xs w) = pv_returned w" "aw_next (fold (publish p) xs w) = aw_next w"
  "ev_head (fold (publish p) xs w) = ev_head w" "pv_ring (fold (publish p) xs w) p = pv_ring w p @ map (slot_of w p) xs"
  "slot_of (fold (publish p) xs w) q = slot_of w q" "pv_loop (fold (publish p) xs w) = pv_loop w"
  "pv_size (fold (publish p) xs w) = pv_size w" "loops (fold (publish p) xs w) = loops w"
  by (induction xs arbitrary: w) simp_all

lemma reg_call_pools:
  assumes "reg_call t l f (w :: ('o, 'k, 'z) nworld_scheme) = (r, w')"
  shows "\<exists>d. w' = w\<lparr>drv := d\<rparr>"
proof (cases "loop_check t l w")
  case True
  then show ?thesis using assms by (auto simp: reg_call_def upd_drv_def Let_def split: prod.splits sum.splits)
next
  case False
  then have "w' = w\<lparr>drv := drv w\<rparr>" using assms by (simp add: reg_call_def)
  then show ?thesis by blast
qed

lemma provided_new_inv:
  assumes "provided_new B t l entries len bgid base e p w = (Inr (), w')"
  shows "pool_inv w' p [0 ..< unat entries] \<and> pv_count w' p = unat entries"
    "pv_size w' p = unat len \<and> pv_loop w' p = l \<and> loop_check t l w'"
proof -
  let ?n = "unat entries" and ?w0 = "event_init l e w"
  let ?w1 = "?w0\<lparr>pv_loop := (pv_loop ?w0)(p := l), pv_count := (pv_count ?w0)(p := ?n), pv_size := (pv_size ?w0)(p := unat len),
      pv_leases := (pv_leases ?w0)(p := 0), pv_active := (pv_active ?w0)(p := 0), pv_group := (pv_group ?w0)(p := bgid),
      pv_data := (pv_data ?w0)(p := base), pv_held := (pv_held ?w0)(p := replicate ?n False),
      pv_next := (pv_next ?w0)(p := replicate ?n 0), pv_tail := (pv_tail ?w0)(p := ?n - 1),
      pv_returned := (pv_returned ?w0)(p := e), pv_ring := (pv_ring ?w0)(p := [])\<rparr>"
  obtain c where c: "capacity entries len = Inr c" using assms by (auto simp: provided_new_def split: sum.splits)
  have n: "?n \<le> 32768" using c by (auto simp: capacity_def word_less_nat_alt not_less split: if_splits)
  obtain r w2 where reg: "reg_call t l (br_register B entries bgid) ?w1 = (r, w2)" by fastforce
  then obtain d where w2: "w2 = ?w1\<lparr>drv := d\<rparr>" using reg_call_pools by blast
  have w': "w' = fold (publish p) [0 ..< ?n] (w2\<lparr>pv_next := (pv_next w2)(p := map (\<lambda>i. u16 ((i + 1) mod ?n)) [0 ..< ?n])\<rparr>)"
    using assms c reg by (auto simp: provided_new_def Let_def split: sum.splits)
  have "u16 (Suc j mod ?n) = Suc j" if "Suc j < ?n" for j using that n by (simp add: u16_def)
  then have "pool_rep w' p [0 ..< ?n]" using n unfolding w' w2
    by (auto simp: pool_rep_def event_init_def last_conv_nth intro: exI [of _ "[]"])
  moreover have "pv_ring w' p = [] @ map (slot_of w' p) [0 ..< ?n]" unfolding w' w2 by (simp add: slot_of_def fun_eq_iff)
  ultimately show "pool_inv w' p [0 ..< unat entries] \<and> pv_count w' p = unat entries" unfolding pool_inv_def w' w2 by auto
  have "loop_check t l ?w1" using assms c reg by (auto simp: provided_new_def reg_call_def Let_def split: if_splits)
  then show "pv_size w' p = unat len \<and> pv_loop w' p = l \<and> loop_check t l w'" unfolding w' w2 by (simp add: loop_check_def)
qed

text \<open>
  The life of a pool: the kernel fills published buffers in order, leases are taken when their
  completion is processed and returned in any order, and the rest of the program leaves the pool alone.
\<close>

inductive pool_step :: "thread_id \<Rightarrow> pool_id \<Rightarrow> nat list \<times> ('o, 'k, 'z) nworld_scheme \<Rightarrow> nat list \<times> ('o, 'k, 'z) nworld_scheme \<Rightarrow> bool" for t p where
  Taken: "provided_take t p flags n w = (Inr c, w') \<Longrightarrow> buffer_id flags = i \<Longrightarrow> pool_step t p (i # qs, w) (qs, w')"
| Returned: "provided_put t p i w = Some w' \<Longrightarrow> i < pv_count w p \<Longrightarrow> i \<notin> set qs \<Longrightarrow> pool_step t p (qs, w) (qs @ [i], w')"
| Elsewhere: "pv_held w' p = pv_held w p \<Longrightarrow> pv_next w' p = pv_next w p \<Longrightarrow> pv_tail w' p = pv_tail w p \<Longrightarrow> pv_leases w' p = pv_leases w p \<Longrightarrow>
    pv_count w' p = pv_count w p \<Longrightarrow> pv_ring w' p = pv_ring w p \<Longrightarrow> slot_of w' p = slot_of w p \<Longrightarrow>
    chain (aw_next w') (ev_head w' (pv_returned w' p)) ys \<Longrightarrow> pool_step t p (qs, w) (qs, w')"

inductive_cases pool_stepE: "pool_step t p (qs, w) (qs', w')"

lemma put_ring:
  assumes "provided_put t p i w = Some w'" "chain (aw_next w) (ev_head w (pv_returned w p)) ys"
  shows "pv_ring w' p = pv_ring w p @ [slot_of w p i]" "slot_of w' p = slot_of w p"
proof -
  let ?v = "w\<lparr>pv_held := (pv_held w)(p := (pv_held w p)[i := False]), pv_leases := (pv_leases w)(p := pv_leases w p - 1),
      pv_next := (pv_next w)(p := (pv_next w p)[pv_tail w p := u16 i]), pv_tail := (pv_tail w)(p := i)\<rparr>"
  have "w' = notify_list ys ((publish p i ?v)\<lparr>ev_set := (ev_set w)(pv_returned w p := True)\<rparr>)"
    using assms event_fire_list [of "publish p i ?v" "pv_returned w p" ys]
    by (simp add: provided_put_def publish_def Let_def split: if_splits)
  then show "pv_ring w' p = pv_ring w p @ [slot_of w p i]" "slot_of w' p = slot_of w p"
    by (simp_all add: pool_frame publish_def slot_of_def fun_eq_iff)
qed

lemma pool_step_inv:
  assumes "pool_step t p (qs, w) (qs', w')" and inv: "pool_inv w p qs"
  shows "pool_inv w' p qs' \<and> pv_count w' p = pv_count w p"
  using assms(1)
proof (rule pool_stepE)
  fix flags n c assume s: "provided_take t p flags n w = (Inr c, w')" "qs = buffer_id flags # qs'"
  then have w': "w' = lease p (buffer_id flags) w" by (auto simp: provided_take_def lease_def Let_def split: if_splits)
  have "slot_of w' p = slot_of w p" "pv_ring w' = pv_ring w" "pv_count w' = pv_count w" unfolding w' by (auto simp: lease_def slot_of_def)
  moreover obtain used where "pv_ring w p = used @ map (slot_of w p) (buffer_id flags # qs')"
    using inv s(2) unfolding pool_inv_def by blast
  then have "pv_ring w p = (used @ [slot_of w p (buffer_id flags)]) @ map (slot_of w p) qs'" by simp
  moreover have "pool_rep w' p qs'" using inv s(2) rep_lease w' unfolding pool_inv_def by metis
  ultimately show ?thesis unfolding pool_inv_def by metis
next
  fix i assume s: "provided_put t p i w = Some w'" "i < pv_count w p" "i \<notin> set qs" "qs' = qs @ [i]"
  have "loop_check t (pv_loop w p) w" using s(1) by (auto simp: provided_put_def split: if_splits)
  from rep_put [OF _ this s(2,3)] inv s(1) have "pool_rep w' p (qs @ [i])" "pv_count w' p = pv_count w p"
    by (auto simp: pool_inv_def pool_same_def)
  moreover obtain ys where "chain (aw_next w) (ev_head w (pv_returned w p)) ys" using inv by (auto simp: pool_inv_def pool_rep_def)
  ultimately show ?thesis using put_ring [OF s(1)] inv s(4) by (auto simp: pool_inv_def)
next
  fix ys assume "qs' = qs" "pv_held w' p = pv_held w p" "pv_next w' p = pv_next w p" "pv_tail w' p = pv_tail w p" "pv_leases w' p = pv_leases w p"
    "pv_count w' p = pv_count w p" "pv_ring w' p = pv_ring w p" "slot_of w' p = slot_of w p" "chain (aw_next w') (ev_head w' (pv_returned w' p)) ys"
  then show ?thesis using inv unfolding pool_inv_def pool_rep_def by auto
qed

lemma pool_run_inv:
  "(pool_step t p)\<^sup>*\<^sup>* (qs, w) (qs', w') \<Longrightarrow> pool_inv w p qs \<Longrightarrow> pool_inv w' p qs' \<and> pv_count w' p = pv_count w p"
  by (induction "(qs', w')" arbitrary: qs' w' rule: rtranclp_induct) (auto dest: pool_step_inv)

lemma available_published:
  "provided_available await t p w = Some (Inr (), w') \<Longrightarrow> pv_leases w' p \<noteq> pv_count w' p"
  by (rule provided_available.raw_induct [where P = "\<lambda>aw t' p' v r. \<forall>v'. r = (Inr (), v') \<longrightarrow> pv_leases v' p' \<noteq> pv_count v' p'", rule_format])
    (auto split: if_splits prod.splits sum.splits)

lemma put_signals:
  assumes "pool_rep w p qs" "provided_put t p i w = Some w'"
  shows "ev_set w' (pv_returned w p)"
proof -
  let ?v = "w\<lparr>pv_held := (pv_held w)(p := (pv_held w p)[i := False]), pv_leases := (pv_leases w)(p := pv_leases w p - 1),
      pv_next := (pv_next w)(p := (pv_next w p)[pv_tail w p := u16 i]), pv_tail := (pv_tail w)(p := i)\<rparr>"
  from assms(1) obtain ys where "chain (aw_next w) (ev_head w (pv_returned w p)) ys" by (auto simp: pool_rep_def)
  then have "w' = notify_list ys ((publish p i ?v)\<lparr>ev_set := (ev_set w)(pv_returned w p := True)\<rparr>)"
    using assms(2) event_fire_list [of "publish p i ?v" "pv_returned w p" ys]
    by (simp add: provided_put_def publish_def Let_def split: if_splits)
  then show ?thesis by simp
qed

text \<open>C19: through any history of a buffer pool, every buffer is either published for the kernel or held by exactly one
  lease, \<^verbatim>\<open>leases_\<close> counts the held ones, the ring ends in the published slots in publication order, and the pool
  cannot be destroyed while a lease is out.  Reception waits exactly when no buffer is published: with one published
  \<^verbatim>\<open>available\<close> returns at once without awaiting, with none it clears the event of returned buffers, awaits that event and
  tests again, it never returns before a buffer is published, and every return of a lease sets the event it waits for.\<close>

theorem pool_accounts:
  assumes "provided_new B t l entries len bgid base e p w0 = (Inr (), w1)" and "(pool_step t p)\<^sup>*\<^sup>* ([0 ..< unat entries], w1) (qs, w)"
  shows "distinct qs \<and> {i. i < unat entries \<and> pv_held w p ! i} = {..< unat entries} - set qs \<and>
    pv_leases w p = card {i. i < unat entries \<and> pv_held w p ! i} \<and> (\<exists>used. pv_ring w p = used @ map (slot_of w p) qs) \<and>
    (pv_leases w p = pv_count w p \<longleftrightarrow> qs = []) \<and> (qs \<noteq> [] \<longrightarrow> provided_available await t p w = Some (Inr (), w)) \<and>
    (qs = [] \<longrightarrow> provided_available await t p w =
       (if loop_check t (ev_loop w (pv_returned w p)) w
        then (case await (pv_returned w p) (w\<lparr>ev_set := (ev_set w)(pv_returned w p := False)\<rparr>) of
                (Inl x, w2) \<Rightarrow> Some (Inl x, w2)
              | (Inr _, w2) \<Rightarrow> provided_available await t p w2)
        else Some (Inl wrong_thread, w))) \<and>
    (\<forall>w'. provided_available await t p w = Some (Inr (), w') \<longrightarrow> pv_leases w' p \<noteq> pv_count w' p) \<and>
    (\<forall>i w'. provided_put t p i w = Some w' \<longrightarrow> ev_set w' (pv_returned w p)) \<and>
    (length qs < unat entries \<longrightarrow> provided_destroy B t p w = None)"
proof -
  from pool_run_inv [OF assms(2)] provided_new_inv [OF assms(1)]
  have inv: "pool_inv w p qs" and n: "pv_count w p = unat entries" by auto
  have rep: "pool_rep w p qs" and ring: "\<exists>used. pv_ring w p = used @ map (slot_of w p) qs" using inv by (auto simp: pool_inv_def)
  have held: "{i. i < unat entries \<and> pv_held w p ! i} = {..< unat entries} - set qs" using rep n by (auto simp: pool_rep_def)
  have "card ({..< unat entries} - set qs) = unat entries - length qs"
    using rep n by (simp add: pool_rep_def card_Diff_subset distinct_card)
  moreover have l: "pv_leases w p + length qs = unat entries" using rep n by (simp add: pool_rep_def)
  ultimately have leases: "pv_leases w p = card {i. i < unat entries \<and> pv_held w p ! i}" "pv_leases w p + length qs = unat entries"
    using held by simp_all
  have "provided_available await t p w = Some (Inr (), w)" if "qs \<noteq> []"
  proof -
    have "pv_leases w p \<noteq> pv_count w p" using that l n by auto
    then show ?thesis by (subst provided_available.simps) simp
  qed
  moreover have "provided_available await t p w =
       (if loop_check t (ev_loop w (pv_returned w p)) w
        then (case await (pv_returned w p) (w\<lparr>ev_set := (ev_set w)(pv_returned w p := False)\<rparr>) of
                (Inl x, w2) \<Rightarrow> Some (Inl x, w2)
              | (Inr _, w2) \<Rightarrow> provided_available await t p w2)
        else Some (Inl wrong_thread, w))" if "qs = []"
  proof -
    have "pv_leases w p = pv_count w p" using that l n by auto
    then show ?thesis by (subst provided_available.simps) (simp add: event_reset_def)
  qed
  moreover have "provided_destroy B t p w = None" if "length qs < unat entries" using that leases(2) by (simp add: provided_destroy_def)
  moreover have "distinct qs" using rep by (simp add: pool_rep_def)
  moreover have "pv_leases w p = pv_count w p \<longleftrightarrow> qs = []" using l n by auto
  moreover have "pv_leases w' p \<noteq> pv_count w' p" if "provided_available await t p w = Some (Inr (), w')" for w'
    using that by (rule available_published)
  moreover have "ev_set w' (pv_returned w p)" if "provided_put t p i w = Some w'" for i w' using rep that by (rule put_signals)
  ultimately show ?thesis using ring held leases(1) by blast
qed

subsection \<open>Zero-copy sends\<close>

text \<open>A zero-copy send with the waiters \<open>ys\<close> on its first and \<open>zs\<close> on its second event.\<close>

definition zc_ready :: "('o, 'k, 'z) nworld_scheme \<Rightarrow> addr \<Rightarrow> addr list \<Rightarrow> addr list \<Rightarrow> bool" where
  "zc_ready w a ys zs \<longleftrightarrow>
     io_hook w a \<and> io_result w a \<and> io_code w a = Op_Native \<and> zs_sent w a \<noteq> zs_released w a \<and> a \<notin> set ys \<and> a \<notin> set zs \<and>
     (io_reserved w a \<longrightarrow> io_busy w a \<noteq> None) \<and>
     chain (aw_next w) (ev_head w (zs_sent w a)) ys \<and> chain (aw_next w) (ev_head w (zs_released w a)) zs"

named_theorems zc_frame \<open>operations of the loop leave a zero-copy send alone\<close>

lemma zc_frame_notify [zc_frame]:
  "zs_sent (wait_notify a (w :: ('o, 'k, 'z) nworld_scheme)) = zs_sent w" "zs_released (wait_notify a w) = zs_released w"
  "io_reserved (wait_notify a w) = io_reserved w" "io_busy (wait_notify a w) = io_busy w" "busy_slot (wait_notify a w) = busy_slot w"
  "io_done (wait_notify a w) = io_done w" "io_draining (wait_notify a w) = io_draining w"
  "op_error (wait_notify a w) = op_error w" "io_bytes (wait_notify a w) = io_bytes w"
  by (simp_all add: wait_notify_def wait_unlink_def loop_finish_def callback_reset_def ready_push_def
      upd_loop_def Let_def split: prod.split option.split)

lemma zc_frame_list [zc_frame]:
  "zs_sent (notify_list xs (w :: ('o, 'k, 'z) nworld_scheme)) = zs_sent w" "zs_released (notify_list xs w) = zs_released w"
  "io_reserved (notify_list xs w) = io_reserved w" "io_busy (notify_list xs w) = io_busy w" "busy_slot (notify_list xs w) = busy_slot w"
  "io_done (notify_list xs w) = io_done w" "io_draining (notify_list xs w) = io_draining w"
  "op_error (notify_list xs w) = op_error w" "io_bytes (notify_list xs w) = io_bytes w"
  unfolding notify_list_def by (induction xs arbitrary: w) (simp_all add: zc_frame)

lemma zc_frame_unlink [zc_frame]:
  "zs_sent (io_unlink l a (w :: ('o, 'k, 'z) nworld_scheme)) = zs_sent w" "zs_released (io_unlink l a w) = zs_released w"
  "io_reserved (io_unlink l a w) = io_reserved w" "io_busy (io_unlink l a w) = io_busy w"
  "busy_slot (io_unlink l a w) = busy_slot w" "op_error (io_unlink l a w) = op_error w" "io_bytes (io_unlink l a w) = io_bytes w"
  by (simp_all add: io_unlink_def upd_loop_def split: prod.split)

lemma zc_frame_reset [zc_frame]:
  "zs_sent (callback_reset a (w :: ('o, 'k, 'z) nworld_scheme)) = zs_sent w" "zs_released (callback_reset a w) = zs_released w"
  "io_reserved (callback_reset a w) = io_reserved w" "io_busy (callback_reset a w) = io_busy w"
  "busy_slot (callback_reset a w) = busy_slot w" "op_error (callback_reset a w) = op_error w" "io_bytes (callback_reset a w) = io_bytes w"
  by (simp_all add: callback_reset_def split: option.split)

lemma zc_frame_drv [zc_frame]:
  "zs_sent (upd_drv l f (w :: ('o, 'k, 'z) nworld_scheme)) = zs_sent w" "zs_released (upd_drv l f w) = zs_released w"
  "io_reserved (upd_drv l f w) = io_reserved w" "io_busy (upd_drv l f w) = io_busy w"
  "busy_slot (upd_drv l f w) = busy_slot w" "op_error (upd_drv l f w) = op_error w" "io_bytes (upd_drv l f w) = io_bytes w"
  by (simp_all add: upd_drv_def)

lemma zc_retire_events:
  assumes "zc_ready w a ys zs" "\<not> op_active w a"
  shows "ev_set (zc_retire a w) = (ev_set w)(zs_sent w a := True, zs_released w a := True)" "\<not> op_active (zc_retire a w) a"
    "busy_slot (zc_retire a w) = busy_slot w" "io_reserved (zc_retire a w) = io_reserved w"
    "op_error (zc_retire a w) = op_error w" "io_bytes (zc_retire a w) = io_bytes w"
proof -
  let ?v = "notify_list ys (w\<lparr>ev_set := (ev_set w)(zs_sent w a := True)\<rparr>)"
  have 1: "event_fire (zs_sent w a) w = ?v" using assms(1) by (intro event_fire_list) (simp add: zc_ready_def)
  have "event_fire (zs_released w a) ?v = notify_list zs (?v\<lparr>ev_set := (ev_set ?v)(zs_released w a := True)\<rparr>)"
    using assms(1) by (intro event_fire_list) (simp add: zc_ready_def)
  then show "ev_set (zc_retire a w) = (ev_set w)(zs_sent w a := True, zs_released w a := True)" "\<not> op_active (zc_retire a w) a"
    "busy_slot (zc_retire a w) = busy_slot w" "io_reserved (zc_retire a w) = io_reserved w"
    "op_error (zc_retire a w) = op_error w" "io_bytes (zc_retire a w) = io_bytes w"
    using 1 assms(2) by (simp_all add: zc_retire_def zc_frame)
qed

text \<open>What the \<^verbatim>\<open>result\<close> hook does with a completion; \<open>first\<close> says that it is not the notification.\<close>

definition zc_noted :: "addr \<Rightarrow> bool \<Rightarrow> int \<Rightarrow> ('o, 'k, 'z) nworld_scheme \<Rightarrow> ('o, 'k, 'z) nworld_scheme \<Rightarrow> bool" where
  "zc_noted a first res w w' \<longleftrightarrow>
     busy_slot w' = (if first \<and> io_reserved w a then (busy_slot w)(the (io_busy w a) := False) else busy_slot w) \<and>
     (io_reserved w' a \<longleftrightarrow> io_reserved w a \<and> \<not> first) \<and>
     op_error w' a = (if first \<and> res < 0 then Some (Errno (nat (- res))) else op_error w a) \<and>
     io_bytes w' a = (if first \<and> res \<ge> 0 then nat res else io_bytes w a)"

lemma zc_noted_refl: "zc_noted a False res w w"
  by (simp add: zc_noted_def)

lemma zc_noted_cong:
  "zc_noted a first res w u \<Longrightarrow> busy_slot v = busy_slot u \<Longrightarrow> io_reserved v = io_reserved u \<Longrightarrow> op_error v = op_error u \<Longrightarrow> io_bytes v = io_bytes u \<Longrightarrow>
     zc_noted a first res w v"
  by (simp add: zc_noted_def)

lemma zc_result_step:
  fixes res :: int and flags :: "32 word" and w :: "('o, 'k, 'z) nworld_scheme"
  assumes "zc_ready w a ys zs"
  defines "v \<equiv> zc_result a res flags w" and "notif \<equiv> flags AND CQE_F_NOTIF \<noteq> 0"
  shows "zc_ready v a ys zs" "ev_set v = (ev_set w)(zs_sent w a := ev_set w (zs_sent w a) \<or> \<not> notif \<and> res \<ge> 0)"
    "op_active v a = op_active w a" "io_canceling v = io_canceling w" "io_done v = io_done w" "io_draining v = io_draining w"
    "zs_sent v = zs_sent w" "zs_released v = zs_released w" "io_code v = io_code w" "zc_noted a (\<not> notif) res w v"
proof -
  define u where "u = io_release a (if res < 0 then set_error a (Some (Errno (nat (- res)))) w else w\<lparr>io_bytes := (io_bytes w)(a := nat res)\<rparr>)"
  have u: "zc_ready u a ys zs" "ev_set u = ev_set w" "op_active u = op_active w" "io_canceling u = io_canceling w" "io_done u = io_done w"
    "zs_sent u = zs_sent w" "zs_released u = zs_released w" "io_draining u = io_draining w" "io_code u = io_code w"
    using assms(1) by (auto simp: u_def io_release_def zc_ready_def set_error_def split: option.split if_splits)
  have un: "zc_noted a True res w u"
    using assms(1) by (auto simp: u_def io_release_def zc_ready_def zc_noted_def set_error_def split: option.split if_splits)
  show "zc_ready v a ys zs" "ev_set v = (ev_set w)(zs_sent w a := ev_set w (zs_sent w a) \<or> \<not> notif \<and> res \<ge> 0)"
    "op_active v a = op_active w a" "io_canceling v = io_canceling w" "io_done v = io_done w" "io_draining v = io_draining w"
    "zs_sent v = zs_sent w" "zs_released v = zs_released w" "io_code v = io_code w" "zc_noted a (\<not> notif) res w v"
  proof -
    consider "notif" "v = w" | "\<not> notif" "res < 0" "v = u"
      | "\<not> notif" "res \<ge> 0" "v = notify_list ys (u\<lparr>ev_set := (ev_set u)(zs_sent w a := True)\<rparr>)"
    proof (cases "notif")
      case True
      then show ?thesis by (intro that(1)) (simp_all add: v_def notif_def zc_result_def)
    next
      case False
      then have "v = (if res \<ge> 0 then event_fire (zs_sent u a) u else u)" by (simp add: v_def notif_def zc_result_def u_def Let_def)
      moreover have "event_fire (zs_sent u a) u = notify_list ys (u\<lparr>ev_set := (ev_set u)(zs_sent u a := True)\<rparr>)"
        using u(1) by (intro event_fire_list) (simp add: zc_ready_def)
      ultimately show ?thesis using that(2,3) False u(6) by (cases "res \<ge> 0") auto
    qed
    note c = this
    have n: "a \<notin> set ys" using assms(1) by (simp add: zc_ready_def)
    show "zc_ready v a ys zs" using c assms(1) u(1) by cases (simp_all add: zc_ready_def table_frame zc_frame u)
    show "ev_set v = (ev_set w)(zs_sent w a := ev_set w (zs_sent w a) \<or> \<not> notif \<and> res \<ge> 0)" using c by cases (auto simp: u)
    show "op_active v a = op_active w a" using c by cases (simp_all add: u n)
    show "zc_noted a (\<not> notif) res w v" using c
      by cases (simp_all add: un zc_noted_refl zc_noted_cong [OF un] zc_frame)
    show "io_canceling v = io_canceling w" "io_done v = io_done w" "io_draining v = io_draining w" "zs_sent v = zs_sent w"
      "zs_released v = zs_released w" "io_code v = io_code w"
      using c by (cases, simp_all add: u table_frame zc_frame)+
  qed
qed

text \<open>Retiring a send that is ready for it.\<close>

lemma zc_retired:
  fixes l :: loop_id and u :: "('o, 'k, 'z) nworld_scheme"
  assumes "zc_ready u a ys zs"
  defines "v \<equiv> uring_retire zc_hooks l a u"
  shows "ev_set v (zs_sent u a) \<and> ev_set v (zs_released u a) \<and> \<not> op_active v a"
    "busy_slot v = busy_slot u" "io_reserved v = io_reserved u" "op_error v = op_error u" "io_bytes v = io_bytes u"
proof -
  define x where "x = callback_reset a (io_unlink l a (if io_draining u a
    then upd_drv l (\<lambda>d. d\<lparr>dr_drains := dr_drains d - 1\<rparr>) u else u))"
  let ?x = "x\<lparr>op_active := (op_active x)(a := False)\<rparr>"
  have "io_hook u a" using assms(1) by (simp add: zc_ready_def)
  then have v: "v = zc_retire a ?x"
    by (simp add: v_def uring_retire_def loop_complete_def table_frame x_def zc_hooks_def Let_def)
  have f: "zs_sent x = zs_sent u" "zs_released x = zs_released u" "busy_slot x = busy_slot u" "io_reserved x = io_reserved u"
    "op_error x = op_error u" "io_bytes x = io_bytes u" by (simp_all add: x_def zc_frame)
  have rdy: "zc_ready ?x a ys zs" using assms(1) by (simp add: zc_ready_def x_def zc_frame table_frame)
  show "ev_set v (zs_sent u a) \<and> ev_set v (zs_released u a) \<and> \<not> op_active v a"
    "busy_slot v = busy_slot u" "io_reserved v = io_reserved u" "op_error v = op_error u" "io_bytes v = io_bytes u"
    using zc_retire_events [OF rdy] f unfolding v by simp_all
qed

text \<open>C35: the completions of a zero-copy send and of its cancellation, whichever arrives last.  The first completion of
  the send, and no other, records its byte count or error, clears the busy flag of the socket direction if the send still
  holds it, and reports success as sent, without allowing the buffer to be reused.  \<^verbatim>\<open>join\<close> is released only by the last
  of these completions, that of the send when no cancellation is outstanding and that of the cancellation when the send has
  already completed; a failed send is reported not before that.\<close>

theorem zc_two_barriers:
  assumes "zc_ready w a ys zs" and "cq_data c = (if own then Ud_Op a else Ud_Cancel a)"
  shows "let w' = cqe_step zc_hooks l c w; first = (own \<and> cq_flags c AND CQE_F_NOTIF = 0) in
    busy_slot w' = (if first \<and> io_reserved w a then (busy_slot w)(the (io_busy w a) := False) else busy_slot w) \<and>
    (io_reserved w' a \<longleftrightarrow> io_reserved w a \<and> \<not> first) \<and>
    op_error w' a = (if first \<and> cq_res c < 0 then Some (Errno (nat (- cq_res c))) else op_error w a) \<and>
    io_bytes w' a = (if first \<and> cq_res c \<ge> 0 then nat (cq_res c) else io_bytes w a) \<and>
    (if own \<and> (cqe_more c \<or> io_canceling w a) \<or> \<not> own \<and> \<not> io_done w a
     then ev_set w' (zs_released w a) = ev_set w (zs_released w a) \<and> op_active w' a = op_active w a \<and>
       ev_set w' (zs_sent w a) = (ev_set w (zs_sent w a) \<or> first \<and> cq_res c \<ge> 0)
     else ev_set w' (zs_released w a) \<and> ev_set w' (zs_sent w a) \<and> \<not> op_active w' a)"
proof (cases own)
  case False
  let ?u = "w\<lparr>io_canceling := (io_canceling w)(a := False)\<rparr>"
  have "zc_ready ?u a ys zs" using assms(1) by (simp add: zc_ready_def)
  from zc_retired [OF this, of l] assms(2) False show ?thesis by (simp add: cqe_step_def Let_def)
next
  case True
  let ?w0 = "w\<lparr>io_done := (io_done w)(a := \<not> cqe_more c)\<rparr>"
  have r0: "zc_ready ?w0 a ys zs" using assms(1) by (simp add: zc_ready_def)
  define u where "u = zc_result a (cq_res c) (cq_flags c) ?w0"
  note s = zc_result_step [OF r0, where res = "cq_res c" and flags = "cq_flags c", folded u_def, simplified]
  have code: "io_code w a = Op_Native" "io_result w a" "zs_sent w a \<noteq> zs_released w a"
    using assms(1) s(1) by (simp_all add: zc_ready_def)
  have res: "cqe_result zc_hooks a c w = u" using code s(9) by (simp add: cqe_result_def u_def zc_hooks_def Let_def)
  have n: "zc_noted a (cq_flags c AND CQE_F_NOTIF = 0) (cq_res c) w u" using s(10) by (simp add: zc_noted_def)
  show ?thesis
  proof (cases "cqe_more c \<or> io_canceling w a")
    case more: True
    then have "cqe_step zc_hooks l c w = u" using assms(2) True res s(4,5) by (auto simp: cqe_step_def Let_def)
    then show ?thesis using more True s(2,3) n code(3) by (simp add: Let_def zc_noted_def)
  next
    case False
    have st: "cqe_step zc_hooks l c w = uring_retire zc_hooks l a u"
      using False True assms(2) res s(4,5) by (simp add: cqe_step_def Let_def)
    note z = zc_retired [OF s(1), of l]
    have "zc_noted a (cq_flags c AND CQE_F_NOTIF = 0) (cq_res c) w (uring_retire zc_hooks l a u)"
      by (rule zc_noted_cong [OF n z(2-5)])
    then show ?thesis using False True z(1) s(7,8) st by (simp add: Let_def zc_noted_def)
  qed
qed

subsection \<open>Streams\<close>

text \<open>A history of completions of one stream.\<close>

fun stream_results :: "('o, 'k, 'z) sworld_scheme consumer \<Rightarrow> addr \<Rightarrow> (int \<times> 32 word) list \<Rightarrow> ('o, 'k, 'z) sworld_scheme \<Rightarrow> ('o, 'k, 'z) sworld_scheme option" where
  "stream_results consume a [] w = Some w"
| "stream_results consume a ((res, flags) # qs) w =
     (case stream_result consume a res flags w of None \<Rightarrow> None | Some w1 \<Rightarrow> stream_results consume a qs w1)"

lemma stream_results_append:
  "stream_results consume a (ps @ qs) w =
     (case stream_results consume a ps w of None \<Rightarrow> None | Some w1 \<Rightarrow> stream_results consume a qs w1)"
  by (induction ps arbitrary: w) (auto split: option.split)

text \<open>Consumers are user code behind the stream: they may stop it but not restart it or change its failure.\<close>

definition stream_private :: "('o, 'k, 'z) sworld_scheme consumer \<Rightarrow> addr \<Rightarrow> bool" where
  "stream_private consume a \<longleftrightarrow>
     (\<forall>res flags w r w'. consume a res flags w = Some (r, w') \<longrightarrow> st_failure w' a = st_failure w a \<and> (st_stopped w a \<longrightarrow> st_stopped w' a))"

lemma stream_stop_fields [simp]:
  "st_stopped (stream_stop a w) = (st_stopped w)(a := True)" "st_failure (stream_stop a w) = st_failure w"
  by (simp_all add: stream_stop_def cancel_fn_def loop_wake_def upd_loop_def)

lemma stream_result_failed:
  assumes "stream_private consume a" "stream_result consume a res flags w = Some w'" "st_failure w a = Some x"
  shows "st_failure w' a = Some x"
proof -
  let ?w1 = "if res < 0 then set_error a (Some (Errno (nat (- res)))) w else w\<lparr>io_bytes := (io_bytes w)(a := nat res)\<rparr>"
  obtain r w2 where c: "consume a res flags ?w1 = Some (r, w2)" using assms(2) by (fastforce simp: stream_result_def Let_def split: option.splits)
  then have "st_failure w2 a = st_failure ?w1 a" using assms(1) unfolding stream_private_def by blast
  then have "st_failure w2 a = Some x" using assms(3) by (simp add: set_error_def split: if_splits)
  then show ?thesis using assms(2) c by (auto simp: stream_result_def Let_def split: sum.splits)
qed

lemma stream_results_failed:
  "stream_private consume a \<Longrightarrow> stream_results consume a qs w = Some w' \<Longrightarrow> st_failure w a = Some x \<Longrightarrow> st_failure w' a = Some x"
proof (induction qs arbitrary: w)
  case (Cons q qs)
  obtain res flags where q: "q = (res, flags)" by fastforce
  obtain w1 where w1: "stream_result consume a res flags w = Some w1" "stream_results consume a qs w1 = Some w'"
    using Cons.prems(2) q by (auto split: option.splits)
  show ?case by (rule Cons.IH [OF Cons.prems(1) w1(2) stream_result_failed [OF Cons.prems(1) w1(1) Cons.prems(3)]])
qed simp

text \<open>Once a consumer has thrown, its first exception is what the receiving coroutine rethrows after the request is
  drained, whatever completions still arrive, however the consumer reacts to them and however the await ends.\<close>

theorem stream_first_failure:
  assumes "stream_private consume a" and "st_failure w a = None" and "consume a res flags
      (if res < 0 then set_error a (Some (Errno (nat (- res)))) w else w\<lparr>io_bytes := (io_bytes w)(a := nat res)\<rparr>) = Some (Inl x, w1)"
    and "stream_results consume a ((res, flags) # qs) w = Some w'" and "r = Inr n \<or> r = Inl (System_Error c)"
  shows "stream_exit tolerated a r w' = Raise x"
proof -
  let ?w0 = "if res < 0 then set_error a (Some (Errno (nat (- res)))) w else w\<lparr>io_bytes := (io_bytes w)(a := nat res)\<rparr>"
  have "st_failure w1 a = st_failure ?w0 a" using assms(1,3) unfolding stream_private_def by blast
  then have n: "st_failure w1 a = None" using assms(2) by (simp add: set_error_def split: if_splits)
  obtain w2 where w2: "stream_result consume a res flags w = Some w2" "stream_results consume a qs w2 = Some w'"
    using assms(4) by (auto split: option.splits)
  have "st_failure w2 a = Some x" using w2(1) assms(3) n by (auto simp: stream_result_def Let_def)
  from stream_results_failed [OF assms(1) w2(2) this] have "st_failure w' a = Some x" .
  then show ?thesis using assms(5) by (auto simp: stream_exit_def stream_tail_def)
qed

text \<open>
  A tick callback with a state \<open>x\<close> of its own, the extension of the world: it throws, asks to go on or asks to
  stop as \<open>verdict\<close> says, and steps its state.
\<close>

definition on_tick :: "('z \<Rightarrow> exn + bool) \<Rightarrow> ('z \<Rightarrow> 'z) \<Rightarrow> (unit, ('o, 'k, 'z) sworld_scheme) callback" where
  "on_tick verdict step u w = (verdict (sworld.more w), sworld.more_update step w)"

text \<open>At most \<open>n\<close> calls of it: how many were made, how they ended (\<^const>\<open>None\<close>: it asked for more each time), and its state.\<close>

fun ticks_run :: "('z \<Rightarrow> exn + bool) \<Rightarrow> ('z \<Rightarrow> 'z) \<Rightarrow> nat \<Rightarrow> 'z \<Rightarrow> nat \<times> (exn + unit) option \<times> 'z" where
  "ticks_run verdict step 0 x = (0, None, x)"
| "ticks_run verdict step (Suc n) x =
     (case verdict x of
        Inl e \<Rightarrow> (1, Some (Inl e), step x)
      | Inr False \<Rightarrow> (1, Some (Inr ()), step x)
      | Inr True \<Rightarrow> (case ticks_run verdict step n (step x) of (k, r, y) \<Rightarrow> (Suc k, r, y)))"

lemma ticks_run_add:
  "ticks_run verdict step (m + n) x =
     (case ticks_run verdict step m x of
        (k, None, y) \<Rightarrow> (case ticks_run verdict step n y of (k', r, z) \<Rightarrow> (k + k', r, z))
      | (k, Some r, y) \<Rightarrow> (k, Some r, y))"
  by (induction m arbitrary: x) (auto split: sum.split bool.split prod.split option.split)

lemma ticks_run_all: "ticks_run verdict step n x = (k, None, y) \<Longrightarrow> k = n"
  by (induction n arbitrary: x k) (auto split: sum.splits bool.splits prod.splits)

lemma ticks_run_le: "ticks_run verdict step n x = (k, r, y) \<Longrightarrow> k \<le> n"
  by (induction n arbitrary: x k) (auto split: sum.splits bool.splits prod.splits)

text \<open>
  A kernel timer, awaited: the completions of a multishot timeout for \<open>n\<close> ticks are at least one and at most \<open>n\<close> times
  \<^verbatim>\<open>-ETIME\<close>, and a last \<^verbatim>\<open>-ECANCELED\<close> only if the consumer stopped the request.  The loop runs the \<^verbatim>\<open>result\<close>
  hook of the stream for each of them; the await then ends as the last one left the request.
\<close>

definition timer_completions :: "nat \<Rightarrow> bool \<Rightarrow> (int \<times> 32 word) list \<Rightarrow> bool" where
  "timer_completions n stopped cs \<longleftrightarrow>
     (\<exists>fs final. cs = map (\<lambda>f. (- ETIME, f)) fs @ map (\<lambda>f. (- 125, f)) final \<and> fs \<noteq> [] \<and> length fs \<le> n \<and>
        length final \<le> 1 \<and> (final \<noteq> [] \<longrightarrow> stopped))"

definition kernel_timer :: "('o, 'k, 'z) sworld_scheme await \<Rightarrow> ('o, 'k, 'z) sworld_scheme consumer \<Rightarrow> addr \<Rightarrow> bool" where
  "kernel_timer await consume a \<longleftrightarrow>
     (\<forall>w i n f. io_native w a = Some (sqe_of (Prep_Timeout i n f)) \<and> 0 < n \<longrightarrow>
        (\<exists>cs w1 w'. stream_results consume a cs w = Some w1 \<and> timer_completions n (st_stopped w1 a) cs \<and>
           await consume a w = (case op_error w1 a of Some e \<Rightarrow> Inl (System_Error e) | None \<Rightarrow> Inr (io_bytes w1 a), w') \<and>
           tk_received w' a = tk_received w1 a \<and> st_failure w' a = st_failure w1 a \<and> st_stopped w' a = st_stopped w1 a \<and>
           sworld.more w' = sworld.more w1 \<and> \<not> op_active w' a))"

text \<open>The state of the stream after its consumer was called as \<open>(k, r, y)\<close> says, from the count \<open>c\<close> on.\<close>

definition ticked :: "addr \<Rightarrow> 32 word \<Rightarrow> nat \<times> (exn + unit) option \<times> 'z \<Rightarrow> ('o, 'k, 'z) sworld_scheme \<Rightarrow> bool" where
  "ticked a c q w \<longleftrightarrow>
     (case q of (k, r, y) \<Rightarrow>
        tk_received w a = c + word_of_nat k \<and> sworld.more w = y \<and> (st_stopped w a \<longleftrightarrow> r \<noteq> None) \<and>
        st_failure w a = (case r of Some (Inl e) \<Rightarrow> Some e | _ \<Rightarrow> None))"

lemma stream_stop_more [simp]: "sworld.more (stream_stop a w) = sworld.more w" "tk_received (stream_stop a w) = tk_received w"
  "op_error (stream_stop a w) = op_error w"
  by (simp_all add: stream_stop_def cancel_fn_def loop_wake_def upd_loop_def)

lemma tick_once:
  assumes "\<not> st_stopped w a" "st_failure w a = None"
  shows "\<exists>w'. stream_result (ticks_consume (on_tick verdict step)) a (- ETIME) f w = Some w' \<and>
    ticked a (tk_received w a) (ticks_run verdict step 1 (sworld.more w)) w' \<and> op_error w' a = Some (Errno 62)"
  using assms
  by (auto simp: stream_result_def ticks_consume_def call_back_def on_tick_def ticked_def set_error_def ETIME_def Let_def
      split: sum.splits bool.splits)

lemma tick_ignored:
  assumes "st_stopped w a" "res < 0"
  shows "\<exists>w'. stream_result (ticks_consume fn) a res f w = Some w' \<and> op_error w' a = Some (Errno (nat (- res))) \<and>
    tk_received w' = tk_received w \<and> sworld.more w' = sworld.more w \<and> st_stopped w' = st_stopped w \<and> st_failure w' = st_failure w"
  using assms by (simp add: stream_result_def ticks_consume_def set_error_def Let_def)

lemma ticked_cong:
  "ticked a c q w \<Longrightarrow> tk_received w' a = tk_received w a \<Longrightarrow> sworld.more w' = sworld.more w \<Longrightarrow> st_stopped w' a = st_stopped w a \<Longrightarrow>
     st_failure w' a = st_failure w a \<Longrightarrow> ticked a c q w'"
  by (simp add: ticked_def)

lemma tick_stopped:
  assumes "st_stopped w a" "\<forall>(res, f) \<in> set cs. res < 0"
  shows "\<exists>w'. stream_results (ticks_consume fn) a cs w = Some w' \<and>
    tk_received w' = tk_received w \<and> sworld.more w' = sworld.more w \<and> st_stopped w' = st_stopped w \<and> st_failure w' = st_failure w \<and>
    op_error w' a = (if cs = [] then op_error w a else Some (Errno (nat (- fst (last cs)))))"
  using assms
proof (induction cs arbitrary: w)
  case (Cons q cs)
  obtain res f where q: "q = (res, f)" by fastforce
  obtain w1 where w1: "stream_result (ticks_consume fn) a res f w = Some w1" "op_error w1 a = Some (Errno (nat (- res)))"
    "tk_received w1 = tk_received w" "sworld.more w1 = sworld.more w" "st_stopped w1 = st_stopped w" "st_failure w1 = st_failure w"
    using tick_ignored [of w a res fn f] Cons.prems q by auto
  obtain w' where "stream_results (ticks_consume fn) a cs w1 = Some w'" "tk_received w' = tk_received w1" "sworld.more w' = sworld.more w1"
    "st_stopped w' = st_stopped w1" "st_failure w' = st_failure w1"
    "op_error w' a = (if cs = [] then op_error w1 a else Some (Errno (nat (- fst (last cs)))))"
    using Cons.IH [of w1] Cons.prems w1(5) by auto
  then show ?case using q w1 by auto
qed simp

lemma tick_batch:
  assumes "\<not> st_stopped w a" "st_failure w a = None"
  shows "\<exists>w'. stream_results (ticks_consume (on_tick verdict step)) a (map (\<lambda>f. (- ETIME, f)) fs) w = Some w' \<and>
    ticked a (tk_received w a) (ticks_run verdict step (length fs) (sworld.more w)) w' \<and> (fs \<noteq> [] \<longrightarrow> op_error w' a = Some (Errno 62))"
  using assms
proof (induction fs arbitrary: w)
  case Nil
  then show ?case by (simp add: ticked_def)
next
  case (Cons f fs)
  let ?c = "ticks_consume (on_tick verdict step)" and ?fs = "map (\<lambda>f. (- ETIME, f)) fs"
  obtain w1 where w1: "stream_result ?c a (- ETIME) f w = Some w1" "ticked a (tk_received w a) (ticks_run verdict step 1 (sworld.more w)) w1"
    "op_error w1 a = Some (Errno 62)" using tick_once [OF Cons.prems, of verdict step f] by blast
  obtain k r y where one: "ticks_run verdict step 1 (sworld.more w) = (k, r, y)" by (metis prod_cases3)
  have sum: "ticks_run verdict step (length (f # fs)) (sworld.more w) =
      (case r of None \<Rightarrow> (case ticks_run verdict step (length fs) y of (k', r', z) \<Rightarrow> (k + k', r', z)) | Some q \<Rightarrow> (k, Some q, y))"
    using ticks_run_add [of verdict step 1 "length fs" "sworld.more w"] one by (simp split: option.split)
  show ?case
  proof (cases r)
    case None
    then have "\<not> st_stopped w1 a" "st_failure w1 a = None" "sworld.more w1 = y" "tk_received w1 a = tk_received w a + word_of_nat k"
      using w1(2) one by (simp_all add: ticked_def)
    from Cons.IH [OF this(1,2)] this(3,4) sum None w1(1,3)
    show ?thesis by (auto simp: ticked_def add.assoc split: prod.splits)
  next
    case (Some q)
    then have st: "st_stopped w1 a" using w1(2) one by (simp add: ticked_def)
    obtain w' where w': "stream_results ?c a ?fs w1 = Some w'" "tk_received w' = tk_received w1" "sworld.more w' = sworld.more w1"
      "st_stopped w' = st_stopped w1" "st_failure w' = st_failure w1"
      "op_error w' a = (if ?fs = [] then op_error w1 a else Some (Errno (nat (- fst (last ?fs)))))"
      using tick_stopped [OF st, of ?fs "on_tick verdict step"] by (auto simp: ETIME_def)
    have "op_error w' a = Some (Errno 62)" using w'(6) w1(3) by (auto simp: last_map ETIME_def)
    moreover have "ticked a (tk_received w a) (k, r, y) w'" using w1(2) one by (auto intro: ticked_cong simp: w')
    ultimately show ?thesis using w'(1) w1(1) sum Some by simp
  qed
qed

text \<open>One request: it makes some of the remaining calls and the coroutine goes on exactly if each asked for more.\<close>

lemma timer_request:
  assumes timer: "kernel_timer await (ticks_consume (on_tick verdict step)) a" and n: "0 < n"
    and w: "io_native w a = Some (sqe_of (Prep_Timeout i n f))" "st_failure w a = None" "\<not> st_stopped w a"
  obtains j r w' where "await (ticks_consume (on_tick verdict step)) a w = (r, w')" "0 < j" "j \<le> n" "\<not> op_active w' a"
    "ticked a (tk_received w a) (ticks_run verdict step j (sworld.more w)) w'"
    "stream_exit timed_out a r w' = (case fst (snd (ticks_run verdict step j (sworld.more w))) of
       None \<Rightarrow> Again | Some (Inr _) \<Rightarrow> Return | Some (Inl e) \<Rightarrow> Raise e)"
proof -
  let ?c = "ticks_consume (on_tick verdict step)"
  obtain cs w1 w' where a: "stream_results ?c a cs w = Some w1" "timer_completions n (st_stopped w1 a) cs"
    "await ?c a w = (case op_error w1 a of Some e \<Rightarrow> Inl (System_Error e) | None \<Rightarrow> Inr (io_bytes w1 a), w')"
    "tk_received w' a = tk_received w1 a" "st_failure w' a = st_failure w1 a" "st_stopped w' a = st_stopped w1 a"
    "sworld.more w' = sworld.more w1" "\<not> op_active w' a"
    using timer n w(1) unfolding kernel_timer_def by metis
  obtain fs final where cs: "cs = map (\<lambda>f. (- ETIME, f)) fs @ map (\<lambda>f. (- 125, f)) final" "fs \<noteq> []" "length fs \<le> n" "length final \<le> 1"
    "final \<noteq> [] \<longrightarrow> st_stopped w1 a" using a(2) unfolding timer_completions_def by blast
  obtain w0 where w0: "stream_results ?c a (map (\<lambda>f. (- ETIME, f)) fs) w = Some w0"
    "ticked a (tk_received w a) (ticks_run verdict step (length fs) (sworld.more w)) w0" "op_error w0 a = Some (Errno 62)"
    using tick_batch [OF w(3,2), of verdict step fs] cs(2) by blast
  obtain k r y where q: "ticks_run verdict step (length fs) (sworld.more w) = (k, r, y)" by (metis prod_cases3)
  have split: "stream_results ?c a (map (\<lambda>f. (- 125, f)) final) w0 = Some w1"
    using a(1) stream_results_append [of ?c a _ "map (\<lambda>f. (- 125, f)) final" w] w0(1) unfolding cs(1) by simp
  have fin: "ticked a (tk_received w a) (k, r, y) w1 \<and> (op_error w1 a = Some (Errno 62) \<or> op_error w1 a = Some (Errno 125) \<and> st_stopped w1 a)"
  proof (cases final)
    case Nil
    then show ?thesis using split w0(2,3) q by simp
  next
    case (Cons g gs)
    then have fin: "final = [g]" "st_stopped w1 a" using cs(4,5) by auto
    have "st_stopped w0 a"
    proof (rule ccontr)
      assume "\<not> st_stopped w0 a"
      then have "stream_result ?c a (- 125) g w0 = Some (set_error a (Some (Errno 125)) w0)"
        by (simp add: stream_result_def ticks_consume_def set_error_def ETIME_def Let_def)
      then have "st_stopped w1 = st_stopped w0" using split fin(1) by (auto simp: set_error_def)
      then show False using fin(2) \<open>\<not> st_stopped w0 a\<close> by simp
    qed
    from tick_stopped [OF this, of "[(- 125, g)]" "on_tick verdict step"] split fin(1)
    have "tk_received w1 = tk_received w0" "sworld.more w1 = sworld.more w0" "st_stopped w1 = st_stopped w0" "st_failure w1 = st_failure w0"
      "op_error w1 a = Some (Errno 125)" by auto
    then show ?thesis using w0(2) q fin(2) by (auto intro: ticked_cong)
  qed
  have t: "ticked a (tk_received w a) (k, r, y) w'" using fin a(4-7) by (auto intro: ticked_cong)
  show thesis
  proof (rule that [of "case op_error w1 a of Some e \<Rightarrow> Inl (System_Error e) | None \<Rightarrow> Inr (io_bytes w1 a)" w' "length fs"])
    show "stream_exit timed_out a (case op_error w1 a of Some e \<Rightarrow> Inl (System_Error e) | None \<Rightarrow> Inr (io_bytes w1 a)) w' =
      (case fst (snd (ticks_run verdict step (length fs) (sworld.more w))) of None \<Rightarrow> Again | Some (Inr _) \<Rightarrow> Return | Some (Inl e) \<Rightarrow> Raise e)"
      using fin t a(5,6) unfolding q ticked_def
      by (auto simp: stream_exit_def stream_tail_def timed_out_def is_canceled_def ETIME_def split: option.splits sum.splits)
  qed (use a cs t q in simp_all)
qed

lemma stream_new_plain:
  "stream_new l s k None dir a w = (Inr (), w') \<Longrightarrow>
     io_native w' a = Some s \<and> st_failure w' a = None \<and> \<not> st_stopped w' a \<and> tk_received w' = tk_received w \<and> sworld.more w' = sworld.more w"
  by (auto simp: stream_new_def native_init_def io_init_def Let_def)

lemma stream_destroy_received:
  "stream_destroy S a w = Some w' \<Longrightarrow> tk_received w' = tk_received w \<and> sworld.more w' = sworld.more w"
  by (auto simp: stream_destroy_def io_cleanup_def io_release_def close_fd_def split: if_splits option.splits)

lemma ticks_loop_exact:
  assumes "kernel_timer await (ticks_consume (on_tick verdict step)) a" "tk_received w a < limit"
  shows "\<exists>w'. let (k, r, y) = ticks_run verdict step (unat limit - unat (tk_received w a)) (sworld.more w) in
    ticks_loop S await l interval limit (on_tick verdict step) tok a w = Some (case r of Some (Inl e) \<Rightarrow> Inl e | _ \<Rightarrow> Inr (), w') \<and>
    tk_received w' a = tk_received w a + word_of_nat k \<and> sworld.more w' = y"
  using assms(2)
proof (induction "unat limit - unat (tk_received w a)" arbitrary: w rule: less_induct)
  case less
  let ?fn = "on_tick verdict step"
  define n where "n = unat limit - unat (tk_received w a)"
  have ne: "limit \<noteq> 0" using less.prems by auto
  have n: "unat (limit - tk_received w a) = n" "0 < n"
    using less.prems by (simp_all add: n_def unat_sub less_imp_le word_less_nat_alt)
  let ?s = "sqe_of (Prep_Timeout interval n IORING_TIMEOUT_MULTISHOT)"
  obtain w1 where w1: "stream_new l ?s tok None None a w = (Inr (), w1)" by (simp add: stream_new_def Let_def)
  note p = stream_new_plain [OF w1]
  have c: "io_native w1 a = Some ?s" "st_failure w1 a = None" "\<not> st_stopped w1 a" using p by simp_all
  obtain j r w' where aw: "await (ticks_consume ?fn) a w1 = (r, w')" "0 < j" "j \<le> n" "\<not> op_active w' a"
    "ticked a (tk_received w1 a) (ticks_run verdict step j (sworld.more w1)) w'"
    "stream_exit timed_out a r w' = (case fst (snd (ticks_run verdict step j (sworld.more w1))) of
       None \<Rightarrow> Again | Some (Inr _) \<Rightarrow> Return | Some (Inl e) \<Rightarrow> Raise e)"
    by (rule timer_request [OF assms(1) n(2) c])
  obtain k q y where run: "ticks_run verdict step j (sworld.more w) = (k, q, y)" by (metis prod_cases3)
  obtain w2 where w2: "stream_destroy S a w' = Some w2" using aw(4) by (simp add: stream_destroy_def)
  have t: "tk_received w2 a = tk_received w a + word_of_nat k" "sworld.more w2 = y"
    using stream_destroy_received [OF w2] aw(5) p run by (simp_all add: ticked_def)
  have run_n: "ticks_run verdict step n (sworld.more w) =
      (case q of None \<Rightarrow> (case ticks_run verdict step (n - j) y of (k', r', z) \<Rightarrow> (k + k', r', z)) | Some q' \<Rightarrow> (k, Some q', y))"
    using ticks_run_add [of verdict step j "n - j" "sworld.more w"] run aw(3) by (simp split: option.split)
  have loop: "ticks_loop S await l interval limit ?fn tok a w =
      (case q of None \<Rightarrow> (if tk_received w2 a < limit then ticks_loop S await l interval limit ?fn tok a w2 else Some (Inr (), w2))
       | Some (Inr _) \<Rightarrow> Some (Inr (), w2) | Some (Inl e) \<Rightarrow> Some (Inl e, w2))"
    using w1 aw(1,6) w2 ne n(1) p run
    by (subst ticks_loop.simps) (simp add: stream_run_def stream_leave_def split: option.split sum.split)
  show ?case
  proof (cases q)
    case (Some q')
    then show ?thesis using loop run_n t by (auto simp: n_def [symmetric] split: sum.splits)
  next
    case None
    then have kj: "k = j" using ticks_run_all run by simp
    have u: "unat (tk_received w2 a) = unat (tk_received w a) + j"
    proof -
      have "unat (tk_received w a) + j \<le> unat limit" using aw(3) less.prems by (simp add: n_def word_less_nat_alt)
      moreover have "unat limit < 2 ^ LENGTH(32)" by (rule unsigned_less)
      ultimately have "unat (tk_received w a) + j < 2 ^ 32" by simp
      then show ?thesis unfolding t(1) kj by (simp add: unat_word_ariths unat_of_nat)
    qed
    have rest: "unat limit - unat (tk_received w2 a) = n - j" using u by (simp add: n_def)
    show ?thesis
    proof (cases "tk_received w2 a < limit")
      case True
      have "n - j < unat limit - unat (tk_received w a)" using aw(2,3) n(2) by (simp add: n_def)
      from less.hyps [of w2, unfolded rest, OF this True] loop None True run_n t
      show ?thesis by (auto simp: n_def [symmetric] add.assoc split: prod.splits)
    next
      case False
      then have "n - j = 0" using rest by (simp add: word_less_nat_alt)
      then show ?thesis using loop None False run_n t by (simp add: n_def [symmetric])
    qed
  qed
qed

text \<open>C40: a periodic timer with a tick limit ends, although the kernel may end a request early and the remaining count is
  taken anew for every request.  It has then done exactly what calling its consumer that many times does, up to the first
  call that throws, whose exception it rethrows, or asks to stop: the state of the consumer, the outcome and the program's
  own count \<^verbatim>\<open>received\<close> are those of that sequence of calls.  Nothing else cancels the timer.\<close>

theorem ticks_exact:
  assumes "kernel_timer await (ticks_consume (on_tick verdict step)) a" and "limit \<noteq> 0" and "0 < interval"
  shows "\<exists>w'. let (k, r, y) = ticks_run verdict step (unat limit) (sworld.more w) in
    uring_ticks S await l interval limit (on_tick verdict step) tok a w = Some (case r of Some (Inl e) \<Rightarrow> Inl e | _ \<Rightarrow> Inr (), w') \<and>
    sworld.more w' = y \<and> tk_received w' a = word_of_nat k \<and> (r = None \<longrightarrow> tk_received w' a = limit)"
proof -
  let ?w = "w\<lparr>tk_received := (tk_received w)(a := 0)\<rparr>"
  have "tk_received ?w a < limit" using assms(2) by (simp add: word_greater_zero_iff)
  note e = ticks_loop_exact [OF assms(1) this, of S l interval tok]
  obtain k r y where q: "ticks_run verdict step (unat limit) (sworld.more w) = (k, r, y)" by (metis prod_cases3)
  have "r = None \<longrightarrow> word_of_nat k = limit" using ticks_run_all q by fastforce
  then show ?thesis using e assms(3) q by (simp add: uring_ticks_def) metis
qed

subsection \<open>Instances\<close>

definition net_world :: "'o \<Rightarrow> 'k \<Rightarrow> ('o, 'k) nworld" where
  "net_world u k = tworld.extend (table_world u k)
     \<lparr>zs_sent = \<lambda>a. 1, zs_released = \<lambda>a. 2, zs_started = \<lambda>a. False, pv_loop = \<lambda>p. 0, pv_count = \<lambda>p. 0, pv_size = \<lambda>p. 0,
      pv_leases = \<lambda>p. 0, pv_active = \<lambda>p. 0, pv_group = \<lambda>p. 0, pv_data = \<lambda>p. 0, pv_held = \<lambda>p. [], pv_next = \<lambda>p. [],
      pv_tail = \<lambda>p. 0, pv_returned = \<lambda>p. 0, pv_ring = \<lambda>p. []\<rparr>"

definition stream_world :: "'o \<Rightarrow> 'k \<Rightarrow> ('o, 'k) sworld" where
  "stream_world u k = nworld.extend (net_world u k)
     \<lparr>st_stopped = \<lambda>a. False, st_failure = \<lambda>a. None, st_table = \<lambda>a. None, tk_received = \<lambda>a. 0\<rparr>"

lemmas net_world_simps = net_world_def stream_world_def table_world_simps tworld.defs nworld.defs

text \<open>
  A send that holds slot 3 and whose cancellation is outstanding: its only completion reports failure, frees the
  slot and leaves both events unset; the completion of the cancellation sets them.
\<close>

definition zc_canceled :: "(unit, unit) nworld" where
  "zc_canceled = (net_world () ())\<lparr>io_hook := (\<lambda>a. True), io_result := (\<lambda>a. True), io_code := (\<lambda>a. Op_Native),
     io_busy := (\<lambda>a. Some 3), io_reserved := (\<lambda>a. True), busy_slot := (\<lambda>s. True), io_canceling := (\<lambda>a. True)\<rparr>"

theorem zc_two_barriers_witness:
  "let w = cqe_step zc_hooks 0 \<lparr>cq_data = Ud_Op 7, cq_res = - 125, cq_flags = 0\<rparr> zc_canceled;
       v = cqe_step zc_hooks 0 \<lparr>cq_data = Ud_Op 7, cq_res = 100, cq_flags = CQE_F_MORE\<rparr> zc_canceled;
       x = cqe_step zc_hooks 0 \<lparr>cq_data = Ud_Cancel 7, cq_res = 0, cq_flags = 0\<rparr> (zc_canceled\<lparr>io_done := (\<lambda>a. True)\<rparr>)
   in \<not> busy_slot w 3 \<and> \<not> ev_set w 1 \<and> \<not> ev_set w 2 \<and> op_error w 7 = Some (Errno 125) \<and>
     \<not> busy_slot v 3 \<and> ev_set v 1 \<and> \<not> ev_set v 2 \<and> io_bytes v 7 = 100 \<and> ev_set x 1 \<and> ev_set x 2"
proof -
  let ?c = "\<lparr>cq_data = Ud_Op 7, cq_res = - 125, cq_flags = 0\<rparr>" and ?d = "\<lparr>cq_data = Ud_Op 7, cq_res = 100, cq_flags = CQE_F_MORE\<rparr>"
  let ?x = "zc_canceled\<lparr>io_done := (\<lambda>a. True)\<rparr>" and ?e = "\<lparr>cq_data = Ud_Cancel 7, cq_res = 0, cq_flags = 0\<rparr>"
  have r: "zc_ready zc_canceled 7 [] []" "zc_ready ?x 7 [] []" by (simp_all add: zc_ready_def zc_canceled_def net_world_simps)
  have d: "cqe_more ?d" "cq_flags ?d AND CQE_F_NOTIF = 0" by (simp_all add: cqe_more_def CQE_F_MORE_def CQE_F_NOTIF_def)
  have f: "io_canceling zc_canceled 7" "io_reserved zc_canceled 7" "io_busy zc_canceled 7 = Some 3" "zs_sent zc_canceled 7 = 1"
    "zs_released zc_canceled 7 = 2" "\<not> ev_set zc_canceled 1" "\<not> ev_set zc_canceled 2" by (simp_all add: zc_canceled_def net_world_simps)
  show ?thesis using zc_two_barriers [OF r(1), of ?c True 0] zc_two_barriers [OF r(1), of ?d True 0]
    zc_two_barriers [OF r(2), of ?e False 0] d f by (simp add: Let_def)
qed

text \<open>A consumer that rejects everything.\<close>

definition reject :: "(unit, unit) sworld consumer" where
  "reject a res flags w = Some (Inl (User 1), w)"

theorem stream_first_failure_witness:
  "stream_results reject 7 [(5, 0), (-125, 0)] (stream_world () ()) \<noteq> None \<and>
   stream_exit no_buffers 7 (Inl (System_Error (Errno 125)))
     (the (stream_results reject 7 [(5, 0), (-125, 0)] (stream_world () ()))) = Raise (User 1)"
proof -
  let ?w = "stream_world () ()"
  have p: "stream_private reject 7" by (simp add: stream_private_def reject_def)
  obtain w' where w': "stream_results reject 7 ((5, 0) # [(-125, 0)]) ?w = Some w'"
    by (simp add: stream_result_def reject_def Let_def)
  have c: "reject 7 5 0 (if (5 :: int) < 0 then set_error 7 (Some (Errno (nat (- 5)))) ?w else ?w\<lparr>io_bytes := (io_bytes ?w)(7 := nat 5)\<rparr>) =
      Some (Inl (User 1), ?w\<lparr>io_bytes := (io_bytes ?w)(7 := nat 5)\<rparr>)" by (simp add: reject_def)
  have n: "st_failure ?w 7 = None" by (simp add: net_world_simps)
  from stream_first_failure [OF p n c w', of "Inl (System_Error (Errno 125))" 0 "Errno 125" no_buffers] w' show ?thesis by simp
qed

text \<open>A pool of two buffers of sixteen bytes, and a consumer that returns what it gets.\<close>

definition grant :: "unit bufring" where
  "grant = \<lparr>br_register = \<lambda>n g k. (0, k), br_unregister = \<lambda>g k. (0, k)\<rparr>"

definition give_back :: "thread_id \<Rightarrow> chunk \<Rightarrow> (unit, unit) nworld \<Rightarrow> (unit, (unit, unit) nworld) result option" where
  "give_back t c w = (case chunk_destroy t c w of None \<Rightarrow> None | Some w1 \<Rightarrow> Some (Inr (), w1))"

lemma give_back_safe: "pool_safe (give_back t) t p"
  unfolding pool_safe_def
proof (intro allI impI)
  fix c w r w' qs
  assume a: "pool_rep w p qs \<and> loop_check t (pv_loop w p) w \<and> ck_owner c = Some p \<and> ck_id c < pv_count w p \<and> ck_id c \<notin> set qs \<and>
    give_back t c w = Some (r, w')"
  from rep_put [of w p qs t "ck_id c"] a obtain w2 where "provided_put t p (ck_id c) w = Some w2" "pool_rep w2 p (qs @ [ck_id c])" "pool_same t p w w2"
    by auto
  then show "(\<exists>xs. pool_rep w' p (qs @ xs)) \<and> pool_same t p w w'"
    using a by (auto simp: give_back_def chunk_destroy_def chunk_release_def)
qed

definition two_buffers :: "(unit, unit) nworld" where
  "two_buffers = snd (provided_new grant 0 0 2 16 0 4096 3 0 (net_world () ()))"

lemma two_buffers_new: "provided_new grant 0 0 2 16 0 4096 3 0 (net_world () ()) = (Inr (), two_buffers)"
proof -
  have "capacity 2 16 = Inr 32" by (simp add: capacity_def single_bit_def INT_MAX32_def SIZE_MAX_def word_less_def)
  then have "fst (provided_new grant 0 0 2 16 0 4096 3 0 (net_world () ())) = Inr ()"
    by (simp add: provided_new_def reg_call_def grant_def loop_check_def verify_def event_init_def net_world_simps Let_def)
  then show ?thesis unfolding two_buffers_def by (metis prod.collapse)
qed

lemma two_buffers_fields: "pv_size two_buffers 0 = 16" "pv_loop two_buffers 0 = 0" "loop_check 0 0 two_buffers"
  using provided_new_inv(2) [OF two_buffers_new] by simp_all

lemma two_buffers_rep: "pool_rep two_buffers 0 ([0, 1] @ [])"
  using provided_new_inv [OF two_buffers_new] by (simp add: pool_inv_def upt_rec)

theorem each_publication_order_witness:
  "provided_each (give_back 0) 0 0 1 20 two_buffers = deliver (give_back 0) 0 0 [(0, 16), (1, 4)] None two_buffers"
proof -
  have f: "(1 :: 32 word) AND CQE_F_BUFFER \<noteq> 0" "hd [0, 1] = buffer_id 1" "length [0 :: nat, 1] = bundle_parts 20 (pv_size two_buffers 0)"
    by (simp_all add: CQE_F_BUFFER_def buffer_id_def bundle_parts_def two_buffers_fields drop_bit_eq_div)
  have "0 < pv_size two_buffers 0" "loop_check 0 (pv_loop two_buffers 0) two_buffers" by (simp_all add: two_buffers_fields)
  from each_publication_order [OF give_back_safe two_buffers_rep this(2,1) f]
  show ?thesis by (simp add: two_buffers_fields)
qed

theorem pool_accounts_witness:
  "\<exists>c w. provided_take 0 0 1 16 two_buffers = (Inr c, w) \<and> pv_leases w 0 = 1 \<and> provided_destroy grant 0 0 w = None"
proof -
  have "buffer_id 1 = 0" by (simp add: buffer_id_def drop_bit_eq_div)
  then have t: "provided_take 0 0 1 16 two_buffers = (Inr (lease_of 0 0 16 two_buffers), lease 0 0 two_buffers)"
    using two_buffers_rep by (intro take_ok [of _ _ _ "[1]"]) (simp_all add: two_buffers_fields CQE_F_BUFFER_def)
  have "(pool_step 0 0)\<^sup>*\<^sup>* ([0 ..< unat (2 :: 32 word)], two_buffers) ([1], lease 0 0 two_buffers)"
    using pool_step.Taken [OF t, of 0 "[1]"] \<open>buffer_id 1 = 0\<close> by (simp add: upt_rec)
  from pool_accounts [OF two_buffers_new this]
  have "pv_leases (lease 0 0 two_buffers) 0 = card {i. i < 2 \<and> pv_held (lease 0 0 two_buffers) 0 ! i}"
    "{i. i < 2 \<and> pv_held (lease 0 0 two_buffers) 0 ! i} = {..< 2} - {1}" "provided_destroy grant 0 0 (lease 0 0 two_buffers) = None" by simp_all
  moreover have "card ({..< 2} - {1 :: nat}) = 1" by simp
  ultimately show ?thesis using t by auto
qed

text \<open>
  A timer that delivers one tick per request, and a consumer that counts its calls: with a limit of three it is called
  three times, and when it asks to stop at the second call it is called twice.
\<close>

definition slow_timer :: "(unit, unit, nat) sworld_scheme await" where
  "slow_timer consume a w =
     (case stream_result consume a (- ETIME) 0 w of
        None \<Rightarrow> (Inr 0, w)
      | Some w1 \<Rightarrow> (case op_error w1 a of Some e \<Rightarrow> Inl (System_Error e) | None \<Rightarrow> Inr (io_bytes w1 a), w1\<lparr>op_active := (op_active w1)(a := False)\<rparr>))"

lemma slow_timer_ok: "kernel_timer slow_timer (ticks_consume (on_tick verdict step)) 7"
  unfolding kernel_timer_def
proof (intro allI impI)
  fix w :: "(unit, unit, nat) sworld_scheme" and i n f
  assume a: "io_native w 7 = Some (sqe_of (Prep_Timeout i n f)) \<and> 0 < n"
  let ?c = "ticks_consume (on_tick verdict step)"
  have "stream_result ?c 7 (- ETIME) 0 w \<noteq> None"
    by (simp add: stream_result_def ticks_consume_def Let_def split: sum.split prod.split)
  then obtain w1 where w1: "stream_result ?c 7 (- ETIME) 0 w = Some w1" by blast
  have "timer_completions n (st_stopped w1 7) [(- ETIME, 0)]"
    using a unfolding timer_completions_def by (intro exI [of _ "[0]"] exI [of _ "[]"]) simp
  then show "\<exists>cs w1 w'. stream_results ?c 7 cs w = Some w1 \<and> timer_completions n (st_stopped w1 7) cs \<and>
      slow_timer ?c 7 w = (case op_error w1 7 of Some e \<Rightarrow> Inl (System_Error e) | None \<Rightarrow> Inr (io_bytes w1 7), w') \<and>
      tk_received w' 7 = tk_received w1 7 \<and> st_failure w' 7 = st_failure w1 7 \<and> st_stopped w' 7 = st_stopped w1 7 \<and>
      sworld.more w' = sworld.more w1 \<and> \<not> op_active w' 7"
    using w1 by - (rule exI [of _ "[(- ETIME, 0)]"], rule exI [of _ w1], simp add: slow_timer_def)
qed

theorem ticks_exact_witness:
  "(\<exists>w'. uring_ticks (calm_sys :: unit sys) slow_timer 0 1000 3 (on_tick (\<lambda>x. Inr True) Suc) None 7
      (sworld.extend (stream_world () ()) 0) = Some (Inr (), w') \<and> sworld.more w' = 3 \<and> tk_received w' 7 = 3) \<and>
   (\<exists>w'. uring_ticks (calm_sys :: unit sys) slow_timer 0 1000 3 (on_tick (\<lambda>x. Inr (x = 0)) Suc) None 7
      (sworld.extend (stream_world () ()) 0) = Some (Inr (), w') \<and> sworld.more w' = 2 \<and> tk_received w' 7 = 2)"
proof -
  have m: "sworld.more (sworld.extend (stream_world () ()) (0 :: nat)) = 0" by (simp add: sworld.defs)
  have r: "ticks_run (\<lambda>x. Inr True) Suc 3 0 = (3, None, 3)" "ticks_run (\<lambda>x. Inr (x = 0)) Suc 3 0 = (2, Some (Inr ()), 2)"
    by (simp_all add: numeral_3_eq_3)
  show ?thesis
    using ticks_exact [OF slow_timer_ok [of "\<lambda>x. Inr True" Suc], of 3 1000 "sworld.extend (stream_world () ()) 0" calm_sys 0 None]
      ticks_exact [OF slow_timer_ok [of "\<lambda>x. Inr (x = 0)" Suc], of 3 1000 "sworld.extend (stream_world () ()) 0" calm_sys 0 None]
    by (simp add: m r)
qed

end
