(* ===== verification/Task.thy ===== *)
theory Task
  imports Snowy_Prelude
begin

text \<open>
  \<^verbatim>\<open>task.hpp\<close>: lazy coroutine tasks.  A coroutine body is a tree of what it does next; the frames
  of running coroutines live in a heap of promises, and a machine moves control between them by
  symmetric transfer, as the promise and the awaiter do.
\<close>

subsection \<open>Coroutine bodies\<close>

text \<open>
  A body returns, throws, awaits the task of another body (or an empty task), calls a coroutine and
  drops its task without awaiting it, or suspends on some other awaitable until it is resumed.
\<close>

datatype 'v body =
    Ret 'v
  | Throw exn
  | Await "'v body" "exn + 'v \<Rightarrow> 'v body"
  | Await_Empty "exn + 'v \<Rightarrow> 'v body"
  | Drop "'v body" "'v body"
  | Suspend "'v body"

text \<open>The reference: awaiting a task is calling its body.\<close>

primrec call :: "'v body \<Rightarrow> exn + 'v" where
  "call (Ret v) = Inr v"
| "call (Throw e) = Inl e"
| "call (Await p k) = (call \<circ> k) (call p)"
| "call (Await_Empty k) = (call \<circ> k) (Inl (Logic_Error ''cannot await an empty task''))"
| "call (Drop p q) = call q"
| "call (Suspend p) = call p"

subsection \<open>Frames and handles\<close>

type_synonym handle = nat

text \<open>Where a frame is: about to run a body, inside \<^verbatim>\<open>co_await\<close> with the awaiter of a child, or finally suspended.\<close>

datatype 'v point = At "'v body" | In_Await handle "exn + 'v \<Rightarrow> 'v body" | Finished

text \<open>The promise with its continuation (\<^const>\<open>None\<close> is \<^verbatim>\<open>std::noop_coroutine()\<close>), exception and value.\<close>

record 'v frame =
  fr_point :: "'v point"
  fr_continuation :: "handle option"
  fr_exception :: "exn option"
  fr_value :: "'v option"

text \<open>
  The machine: live frames, the handle control is in (\<^const>\<open>None\<close> is back in the caller of
  \<^verbatim>\<open>resume\<close>), the handle a suspended coroutine waits with, and the next fresh handle.
\<close>

record 'v machine =
  mc_frames :: "handle \<Rightarrow> 'v frame option"
  mc_current :: "handle option"
  mc_parked :: "handle option"
  mc_fresh :: handle

text \<open>Calling a coroutine makes a frame that is suspended at its start.\<close>

definition task_make :: "'v body \<Rightarrow> 'v machine \<Rightarrow> handle \<times> 'v machine" where
  "task_make p m =
     (mc_fresh m, m\<lparr>mc_frames := (mc_frames m)(mc_fresh m := Some \<lparr>fr_point = At p, fr_continuation = None, fr_exception = None, fr_value = None\<rparr>),
                    mc_fresh := mc_fresh m + 1\<rparr>)"

definition frame_destroy :: "handle \<Rightarrow> 'v machine \<Rightarrow> 'v machine" where
  "frame_destroy h m = m\<lparr>mc_frames := (mc_frames m)(h := None)\<rparr>"

text \<open>
  \<^verbatim>\<open>task::~task\<close>, the move constructor (new and emptied task) and move assignment (the assigned and the
  emptied task), where \<open>same\<close> tells that both are one object.
\<close>

definition task_destroy :: "handle option \<Rightarrow> 'v machine \<Rightarrow> 'v machine" where
  "task_destroy x m = (case x of None \<Rightarrow> m | Some h \<Rightarrow> frame_destroy h m)"

definition task_move :: "handle option \<Rightarrow> handle option \<times> handle option" where
  "task_move other = (other, None)"

definition task_assign :: "bool \<Rightarrow> handle option \<Rightarrow> handle option \<Rightarrow> 'v machine \<Rightarrow> (handle option \<times> handle option) \<times> 'v machine" where
  "task_assign same self other m = (if same then ((self, other), m) else (task_move other, task_destroy self m))"

definition upd_frame :: "handle \<Rightarrow> ('v frame \<Rightarrow> 'v frame) \<Rightarrow> 'v machine \<Rightarrow> 'v machine" where
  "upd_frame h f m = m\<lparr>mc_frames := (mc_frames m)(h := map_option f (mc_frames m h))\<rparr>"

text \<open>\<^verbatim>\<open>return_value\<close>, \<^verbatim>\<open>unhandled_exception\<close> and \<^verbatim>\<open>final_awaiter::await_suspend\<close>.\<close>

definition return_value :: "handle \<Rightarrow> 'v \<Rightarrow> 'v machine \<Rightarrow> 'v machine" where
  "return_value h v = upd_frame h (\<lambda>f. f\<lparr>fr_value := Some v\<rparr>)"

definition unhandled_exception :: "handle \<Rightarrow> exn \<Rightarrow> 'v machine \<Rightarrow> 'v machine" where
  "unhandled_exception h e = upd_frame h (\<lambda>f. f\<lparr>fr_exception := Some e\<rparr>)"

definition final_suspend :: "handle \<Rightarrow> 'v machine \<Rightarrow> 'v machine" where
  "final_suspend h m =
     (let m1 = upd_frame h (\<lambda>f. f\<lparr>fr_point := Finished\<rparr>) m in
      m1\<lparr>mc_current := (case mc_frames m1 h of None \<Rightarrow> None | Some f \<Rightarrow> fr_continuation f)\<rparr>)"

text \<open>\<^verbatim>\<open>awaiter::await_suspend\<close>: register the continuation and transfer into the child.\<close>

definition await_suspend :: "handle \<Rightarrow> handle \<Rightarrow> 'v machine \<Rightarrow> 'v machine" where
  "await_suspend child h m = (upd_frame child (\<lambda>f. f\<lparr>fr_continuation := Some h\<rparr>) m)\<lparr>mc_current := Some child\<rparr>"

text \<open>\<^verbatim>\<open>take_result\<close>: the exception, or the value; a frame without either has no result to move from.\<close>

definition take_result :: "'v frame \<Rightarrow> (exn + 'v) option" where
  "take_result f =
     (case fr_exception f of Some e \<Rightarrow> Some (Inl e) | None \<Rightarrow> (case fr_value f of None \<Rightarrow> None | Some v \<Rightarrow> Some (Inr v)))"

text \<open>\<^verbatim>\<open>awaiter::await_resume\<close>, then the awaiter's destructor frees the child; \<^const>\<open>None\<close> would be undefined behaviour.\<close>

definition await_resume :: "handle option \<Rightarrow> 'v machine \<Rightarrow> ((exn + 'v) \<times> 'v machine) option" where
  "await_resume x m =
     (case x of
        None \<Rightarrow> Some (Inl (Logic_Error ''cannot await an empty task''), m)
      | Some c \<Rightarrow>
          (case mc_frames m c of
             None \<Rightarrow> None
           | Some f \<Rightarrow> (case take_result f of None \<Rightarrow> None | Some r \<Rightarrow> Some (r, task_destroy x m))))"

definition move_to :: "handle \<Rightarrow> 'v point \<Rightarrow> 'v machine \<Rightarrow> 'v machine" where
  "move_to h p = upd_frame h (\<lambda>f. f\<lparr>fr_point := p\<rparr>)"

text \<open>
  One step of the current coroutine.  A suspended one hands its handle to whatever it waits for
  and returns to the resumer; \<^const>\<open>None\<close> is undefined behaviour, as resuming a finished or freed frame.
\<close>

definition machine_step :: "'v machine \<Rightarrow> 'v machine option" where
  "machine_step m =
     (case mc_current m of
        None \<Rightarrow> (case mc_parked m of None \<Rightarrow> Some m | Some h \<Rightarrow> Some (m\<lparr>mc_current := Some h, mc_parked := None\<rparr>))
      | Some h \<Rightarrow>
          (case mc_frames m h of
             None \<Rightarrow> None
           | Some f \<Rightarrow>
               (case fr_point f of
                  Finished \<Rightarrow> None
                | In_Await c k \<Rightarrow>
                    (case await_resume (Some c) m of None \<Rightarrow> None | Some (r, m1) \<Rightarrow> Some (move_to h (At (k r)) m1))
                | At b \<Rightarrow>
                    (case b of
                       Ret v \<Rightarrow> Some (final_suspend h (return_value h v m))
                     | Throw e \<Rightarrow> Some (final_suspend h (unhandled_exception h e m))
                     | Await p k \<Rightarrow>
                         (case task_make p m of (c, m1) \<Rightarrow> Some (await_suspend c h (move_to h (In_Await c k) m1)))
                     | Await_Empty k \<Rightarrow>
                         (case await_resume None m of None \<Rightarrow> None | Some (r, m1) \<Rightarrow> Some (move_to h (At (k r)) m1))
                     | Drop p q \<Rightarrow>
                         (case task_make p m of (c, m1) \<Rightarrow> Some (move_to h (At q) (task_destroy (Some c) m1)))
                     | Suspend p \<Rightarrow> Some ((move_to h (At p) m)\<lparr>mc_current := None, mc_parked := Some h\<rparr>)))))"

fun machine_steps :: "nat \<Rightarrow> 'v machine \<Rightarrow> 'v machine option" where
  "machine_steps 0 m = Some m"
| "machine_steps (Suc n) m = (case machine_step m of None \<Rightarrow> None | Some m1 \<Rightarrow> machine_steps n m1)"

text \<open>A machine about to resume the frame of a new root task.\<close>

definition machine_start :: "'v body \<Rightarrow> 'v machine" where
  "machine_start p =
     (case task_make p \<lparr>mc_frames = (\<lambda>h. None), mc_current = None, mc_parked = None, mc_fresh = 0\<rparr> of
        (h, m) \<Rightarrow> m\<lparr>mc_current := Some h\<rparr>)"

subsection \<open>Symmetric transfer computes the call\<close>

lemma steps_add: "machine_steps (i + j) m = (case machine_steps i m of None \<Rightarrow> None | Some m1 \<Rightarrow> machine_steps j m1)"
  by (induction i arbitrary: m) (simp_all split: option.split)

definition reaches :: "'v machine \<Rightarrow> 'v machine \<Rightarrow> bool" where
  "reaches m m' \<longleftrightarrow> (\<exists>n. machine_steps n m = Some m')"

lemma reaches_trans: "reaches m m1 \<Longrightarrow> reaches m1 m2 \<Longrightarrow> reaches m m2"
  unfolding reaches_def using steps_add by (metis option.simps(5))

lemma reaches_step: "machine_step m = Some m1 \<Longrightarrow> reaches m1 m2 \<Longrightarrow> reaches m m2"
  unfolding reaches_def by (metis machine_steps.simps(2) option.simps(5))

lemma reaches_refl: "reaches m m"
  unfolding reaches_def by (metis machine_steps.simps(1))

text \<open>A frame that has finished with result \<open>r\<close>.\<close>

definition finished :: "exn + 'v \<Rightarrow> 'v frame \<Rightarrow> 'v frame" where
  "finished r f = (case r of Inl e \<Rightarrow> f\<lparr>fr_exception := Some e, fr_point := Finished\<rparr> | Inr v \<Rightarrow> f\<lparr>fr_value := Some v, fr_point := Finished\<rparr>)"

lemma finished_point [simp]: "finished r (f\<lparr>fr_point := x\<rparr>) = finished r f"
  by (simp add: finished_def split: sum.split)

lemma finished_fields [simp]:
  "fr_point (finished r f) = Finished"
  "fr_continuation (finished r f) = fr_continuation f"
  by (simp_all add: finished_def split: sum.split)

lemma take_finished:
  assumes "fr_exception f = None" "fr_value f = None"
  shows "take_result (finished r f) = Some r"
  using assms by (simp add: take_result_def finished_def split: sum.split)

text \<open>
  Frame \<open>h\<close> runs to its end: it holds result \<open>r\<close>, control is at its continuation, every frame
  made on the way is gone and no other frame has changed.
\<close>

definition ends :: "'v machine \<Rightarrow> handle \<Rightarrow> 'v frame \<Rightarrow> exn + 'v \<Rightarrow> bool" where
  "ends m h f r \<longleftrightarrow>
     (\<exists>fresh. mc_fresh m \<le> fresh \<and>
        reaches m (m\<lparr>mc_frames := (mc_frames m)(h := Some (finished r f)), mc_current := fr_continuation f, mc_fresh := fresh\<rparr>))"

text \<open>A frame at body \<open>p\<close> that control is in.\<close>

definition runs :: "'v machine \<Rightarrow> handle \<Rightarrow> 'v frame \<Rightarrow> 'v body \<Rightarrow> bool" where
  "runs m h f p \<longleftrightarrow> mc_frames m h = Some f \<and> fr_point f = At p \<and> mc_current m = Some h \<and> mc_parked m = None \<and>
     (\<forall>g \<ge> mc_fresh m. mc_frames m g = None) \<and> h < mc_fresh m"

lemma ends_step:
  assumes "machine_step m = Some (m\<lparr>mc_frames := (mc_frames m)(h := Some (finished r f)), mc_current := fr_continuation f\<rparr>)"
  shows "ends m h f r"
  unfolding ends_def using reaches_step [OF assms reaches_refl] by (intro exI [of _ "mc_fresh m"]) simp

lemma ends_next:
  assumes "reaches m (m\<lparr>mc_frames := (mc_frames m)(h := Some (f\<lparr>fr_point := x\<rparr>)), mc_fresh := n\<rparr>)" "mc_fresh m \<le> n"
    and "ends (m\<lparr>mc_frames := (mc_frames m)(h := Some (f\<lparr>fr_point := x\<rparr>)), mc_fresh := n\<rparr>) h (f\<lparr>fr_point := x\<rparr>) r"
  shows "ends m h f r"
proof -
  obtain n' where "n \<le> n'" "reaches (m\<lparr>mc_frames := (mc_frames m)(h := Some (f\<lparr>fr_point := x\<rparr>)), mc_fresh := n\<rparr>)
      (m\<lparr>mc_frames := (mc_frames m)(h := Some (finished r f)), mc_current := fr_continuation f, mc_fresh := n'\<rparr>)"
    using assms(3) by (auto simp: ends_def)
  then show ?thesis unfolding ends_def using reaches_trans [OF assms(1)] assms(2) le_trans by blast
qed

lemma runs_next:
  assumes "runs m h f p" "mc_fresh m \<le> n"
  shows "runs (m\<lparr>mc_frames := (mc_frames m)(h := Some (f\<lparr>fr_point := At q\<rparr>)), mc_fresh := n\<rparr>) h (f\<lparr>fr_point := At q\<rparr>) q"
  using assms by (auto simp: runs_def)

lemmas task_ops = machine_step_def task_make_def await_suspend_def await_resume_def move_to_def upd_frame_def final_suspend_def
  return_value_def unhandled_exception_def task_destroy_def frame_destroy_def

text \<open>Awaiting a task: if the child runs to its end, so does the \<^verbatim>\<open>co_await\<close>, and the child is freed.\<close>

lemma await_runs:
  assumes "runs m h f (Await p k)"
    and "\<And>m' c g. runs m' c g p \<Longrightarrow> ends m' c g r"
  shows "\<exists>n. mc_fresh m \<le> n \<and> reaches m (m\<lparr>mc_frames := (mc_frames m)(h := Some (f\<lparr>fr_point := At (k r)\<rparr>)), mc_fresh := n\<rparr>)"
proof -
  let ?c = "mc_fresh m"
  let ?child = "\<lparr>fr_point = At p, fr_continuation = Some h, fr_exception = None, fr_value = None\<rparr>"
  let ?m1 = "m\<lparr>mc_frames := (mc_frames m)(h := Some (f\<lparr>fr_point := In_Await ?c k\<rparr>), ?c := Some ?child), mc_current := Some ?c, mc_fresh := ?c + 1\<rparr>"
  have s1: "machine_step m = Some ?m1"
    using assms(1) by (auto simp: runs_def task_ops fun_eq_iff)
  have "runs ?m1 ?c ?child p" using assms(1) by (auto simp: runs_def)
  from assms(2) [OF this] obtain n where n: "?c < n"
    "reaches ?m1 (?m1\<lparr>mc_frames := (mc_frames ?m1)(?c := Some (finished r ?child)), mc_current := fr_continuation ?child, mc_fresh := n\<rparr>)"
    by (auto simp: ends_def Suc_le_eq)
  let ?m2 = "?m1\<lparr>mc_frames := (mc_frames ?m1)(?c := Some (finished r ?child)), mc_current := fr_continuation ?child, mc_fresh := n\<rparr>"
  let ?m3 = "m\<lparr>mc_frames := (mc_frames m)(h := Some (f\<lparr>fr_point := At (k r)\<rparr>)), mc_fresh := n\<rparr>"
  have none: "mc_frames m ?c = None" "h \<noteq> ?c" "mc_current m = Some h" using assms(1) by (auto simp: runs_def)
  have s2: "machine_step ?m2 = Some ?m3"
    using none by (auto simp: task_ops take_finished fun_eq_iff)
  show ?thesis using reaches_step [OF s1 reaches_trans [OF n(2) reaches_step [OF s2 reaches_refl]]] n(1) less_imp_le by blast
qed

lemma run_frame: "runs m h f p \<Longrightarrow> ends m h f (call p)"
proof (induction p arbitrary: m h f)
  case (Ret v)
  then show ?case by (intro ends_step) (simp add: runs_def task_ops finished_def Let_def)
next
  case (Throw e)
  then show ?case by (intro ends_step) (simp add: runs_def task_ops finished_def Let_def)
next
  case (Await p k)
  obtain n where n: "mc_fresh m \<le> n" "reaches m (m\<lparr>mc_frames := (mc_frames m)(h := Some (f\<lparr>fr_point := At (k (call p))\<rparr>)), mc_fresh := n\<rparr>)"
    using await_runs [OF Await.prems Await.IH(1)] by blast
  show ?case using ends_next [OF n(2,1)] Await.IH(2) [OF rangeI runs_next [OF Await.prems n(1)]] by simp
next
  case (Await_Empty k)
  let ?q = "k (Inl (Logic_Error ''cannot await an empty task''))"
  have "machine_step m = Some (m\<lparr>mc_frames := (mc_frames m)(h := Some (f\<lparr>fr_point := At ?q\<rparr>)), mc_fresh := mc_fresh m\<rparr>)"
    using Await_Empty.prems by (simp add: runs_def task_ops)
  from ends_next [OF reaches_step [OF this reaches_refl] order_refl Await_Empty.IH [OF rangeI runs_next [OF Await_Empty.prems order_refl]]]
  show ?case by simp
next
  case (Drop p q)
  have "machine_step m = Some (m\<lparr>mc_frames := (mc_frames m)(h := Some (f\<lparr>fr_point := At q\<rparr>)), mc_fresh := Suc (mc_fresh m)\<rparr>)"
    using Drop.prems by (auto simp: runs_def task_ops fun_eq_iff)
  from ends_next [OF reaches_step [OF this reaches_refl] le_SucI [OF order_refl] Drop.IH(2) [OF runs_next [OF Drop.prems le_SucI [OF order_refl]]]]
  show ?case by simp
next
  case (Suspend p)
  let ?m1 = "m\<lparr>mc_frames := (mc_frames m)(h := Some (f\<lparr>fr_point := At p\<rparr>)), mc_current := None, mc_parked := Some h\<rparr>"
  let ?m2 = "m\<lparr>mc_frames := (mc_frames m)(h := Some (f\<lparr>fr_point := At p\<rparr>)), mc_fresh := mc_fresh m\<rparr>"
  have "machine_step m = Some ?m1" using Suspend.prems by (simp add: runs_def task_ops)
  moreover have "machine_step ?m1 = Some ?m2" using Suspend.prems by (simp add: runs_def machine_step_def)
  ultimately have "reaches m ?m2" using reaches_step reaches_refl by blast
  from ends_next [OF this order_refl Suspend.IH [OF runs_next [OF Suspend.prems order_refl]]]
  show ?case by simp
qed

text \<open>C1: equivalence of symmetric transfer with nested calls.  Resuming the frame of any root task, and
  again each time it suspends, brings the machine without undefined behaviour to a state where
  control is back in the resumer, nothing is parked, the root frame is finally suspended with
  exactly the value or exception the nested call gives, and the root frame is the only one left.
\<close>

theorem task_equals_call:
  "\<exists>n m f. machine_steps n (machine_start p) = Some m \<and> mc_current m = None \<and> mc_parked m = None \<and>
     mc_frames m = [0 \<mapsto> f] \<and> fr_point f = Finished \<and> take_result f = Some (call p)"
proof -
  let ?f = "\<lparr>fr_point = At p, fr_continuation = None, fr_exception = None, fr_value = None\<rparr>"
  have "runs (machine_start p) 0 ?f p" by (simp add: runs_def machine_start_def task_make_def)
  from run_frame [OF this] obtain n fresh where "machine_steps n (machine_start p) =
      Some ((machine_start p)\<lparr>mc_frames := (mc_frames (machine_start p))(0 := Some (finished (call p) ?f)), mc_current := None, mc_fresh := fresh\<rparr>)"
    by (auto simp: ends_def reaches_def)
  moreover have "mc_parked (machine_start p) = None" "mc_frames (machine_start p) = [0 \<mapsto> ?f]"
    by (simp_all add: machine_start_def task_make_def)
  ultimately show ?thesis using take_finished [of ?f "call p"] by fastforce
qed

subsection \<open>No step is undefined and no frame leaks\<close>

text \<open>
  The frames below frame \<open>c\<close>: each is inside \<^verbatim>\<open>co_await\<close> with the awaiter of the one above it, which has
  it as its continuation; the last one returns to the resumer.
\<close>

fun suspended :: "(handle \<Rightarrow> 'v frame option) \<Rightarrow> handle \<Rightarrow> handle list \<Rightarrow> bool" where
  "suspended F c [] \<longleftrightarrow> (\<exists>f. F c = Some f \<and> fr_continuation f = None)"
| "suspended F c (h # hs) \<longleftrightarrow>
     (\<exists>f. F c = Some f \<and> fr_continuation f = Some h) \<and>
     (\<exists>g k. F h = Some g \<and> fr_point g = In_Await c k \<and> fr_exception g = None \<and> fr_value g = None) \<and> suspended F h hs"

definition fresh_frame :: "'v frame \<Rightarrow> bool" where
  "fresh_frame f \<longleftrightarrow> (\<exists>p. fr_point f = At p) \<and> fr_exception f = None \<and> fr_value f = None"

definition ended_frame :: "'v frame \<Rightarrow> bool" where
  "ended_frame f \<longleftrightarrow> fr_point f = Finished \<and> take_result f \<noteq> None"

text \<open>
  The live frames are one stack \<open>t # hs\<close>: control is in its top frame or the top frame is parked, or
  the top frame has ended and control is in the one below it, or the root has ended.
\<close>

definition stack_ok :: "'v machine \<Rightarrow> handle \<Rightarrow> handle list \<Rightarrow> bool" where
  "stack_ok m t hs \<longleftrightarrow>
     dom (mc_frames m) = set (t # hs) \<and> distinct (t # hs) \<and> (\<forall>h \<in> set (t # hs). h < mc_fresh m) \<and> suspended (mc_frames m) t hs \<and>
     (fresh_frame (the (mc_frames m t)) \<and>
        (mc_current m = Some t \<and> mc_parked m = None \<or> mc_current m = None \<and> mc_parked m = Some t) \<or>
      ended_frame (the (mc_frames m t)) \<and> mc_parked m = None \<and> mc_current m = (case hs of [] \<Rightarrow> None | h # _ \<Rightarrow> Some h))"

definition machine_ok :: "'v machine \<Rightarrow> bool" where
  "machine_ok m \<longleftrightarrow> (\<exists>t hs. stack_ok m t hs)"

lemma suspended_cong:
  assumes "suspended F c hs" "\<And>h. h \<in> set hs \<Longrightarrow> F' h = F h"
    and "F c = Some f" "F' c = Some f'" "fr_continuation f' = fr_continuation f"
  shows "suspended F' c hs"
  using assms
proof (induction hs arbitrary: c f f')
  case (Cons h hs)
  then obtain g k where g: "F h = Some g" "fr_point g = In_Await c k" "fr_exception g = None" "fr_value g = None" by auto
  have "suspended F' h hs" using Cons g(1) by (intro Cons.IH [of h g g]) auto
  then show ?case using Cons.prems g by auto
qed simp

lemma suspended_top: "suspended F c hs \<Longrightarrow> \<exists>f. F c = Some f \<and> fr_continuation f = (case hs of [] \<Rightarrow> None | h # _ \<Rightarrow> Some h)"
  by (cases hs) auto

lemma stack_okD:
  assumes "stack_ok m t hs"
  shows "dom (mc_frames m) = set (t # hs)" "distinct (t # hs)" "\<And>h. h \<in> set (t # hs) \<Longrightarrow> h < mc_fresh m" "suspended (mc_frames m) t hs"
  using assms unfolding stack_ok_def by blast+

lemma stack_ok_freshI:
  assumes "dom F = set (t # hs)" "distinct (t # hs)" "\<And>h. h \<in> set (t # hs) \<Longrightarrow> h < n" "suspended F t hs"
    and "F t = Some f" "fresh_frame f" "cur = Some t \<and> park = None \<or> cur = None \<and> park = Some t"
  shows "stack_ok \<lparr>mc_frames = F, mc_current = cur, mc_parked = park, mc_fresh = n\<rparr> t hs"
  using assms unfolding stack_ok_def by simp

lemma stack_ok_endedI:
  assumes "dom F = set (t # hs)" "distinct (t # hs)" "\<And>h. h \<in> set (t # hs) \<Longrightarrow> h < n" "suspended F t hs"
    and "F t = Some f" "ended_frame f" "cur = (case hs of [] \<Rightarrow> None | h # _ \<Rightarrow> Some h)"
  shows "stack_ok \<lparr>mc_frames = F, mc_current = cur, mc_parked = None, mc_fresh = n\<rparr> t hs"
  using assms unfolding stack_ok_def by simp

text \<open>The top frame moves on within its body.\<close>

lemma stack_move:
  assumes "stack_ok m t hs" "mc_frames m t = Some f" "mc_fresh m \<le> n"
    and "fresh_frame g" "fr_continuation g = fr_continuation f"
    and "cur = Some t \<and> park = None \<or> cur = None \<and> park = Some t"
  shows "stack_ok \<lparr>mc_frames = (mc_frames m)(t := Some g), mc_current = cur, mc_parked = park, mc_fresh = n\<rparr> t hs"
proof (rule stack_ok_freshI [OF _ _ _ _ _ assms(4,6)])
  note s = stack_okD [OF assms(1)]
  show "dom ((mc_frames m)(t := Some g)) = set (t # hs)" using s(1) by auto
  show "h < n" if "h \<in> set (t # hs)" for h using s(3) [OF that] assms(3) by simp
  show "suspended ((mc_frames m)(t := Some g)) t hs"
    using s(2) by (intro suspended_cong [OF s(4) _ assms(2) _ assms(5)]) auto
qed (use stack_okD(2) [OF assms(1)] in simp_all)

text \<open>The top frame ends.\<close>

lemma stack_end:
  assumes "stack_ok m t hs" "mc_frames m t = Some f" "ended_frame g" "fr_continuation g = fr_continuation f"
  shows "stack_ok \<lparr>mc_frames = (mc_frames m)(t := Some g), mc_current = fr_continuation f, mc_parked = None, mc_fresh = mc_fresh m\<rparr> t hs"
proof (rule stack_ok_endedI [OF _ _ _ _ _ assms(3)])
  note s = stack_okD [OF assms(1)]
  show "dom ((mc_frames m)(t := Some g)) = set (t # hs)" using s(1) by auto
  show "h < mc_fresh m" if "h \<in> set (t # hs)" for h using s(3) [OF that] .
  show "suspended ((mc_frames m)(t := Some g)) t hs"
    using s(2) by (intro suspended_cong [OF s(4) _ assms(2) _ assms(4)]) auto
  show "fr_continuation f = (case hs of [] \<Rightarrow> None | h # _ \<Rightarrow> Some h)" using suspended_top [OF s(4)] assms(2) by auto
qed (use stack_okD(2) [OF assms(1)] in simp_all)

text \<open>The top frame awaits a new child, which goes on top of it.\<close>

lemma stack_push:
  assumes "stack_ok m t hs" "mc_frames m t = Some f" "fresh_frame f"
  shows "stack_ok \<lparr>mc_frames = (mc_frames m)(t := Some (f\<lparr>fr_point := In_Await (mc_fresh m) k\<rparr>),
      mc_fresh m := Some \<lparr>fr_point = At p, fr_continuation = Some t, fr_exception = None, fr_value = None\<rparr>),
    mc_current = Some (mc_fresh m), mc_parked = None, mc_fresh = mc_fresh m + 1\<rparr> (mc_fresh m) (t # hs)"
    (is "stack_ok \<lparr>mc_frames = ?F, mc_current = _, mc_parked = _, mc_fresh = _\<rparr> ?c _")
proof (rule stack_ok_freshI [where f = "\<lparr>fr_point = At p, fr_continuation = Some t, fr_exception = None, fr_value = None\<rparr>"])
  note s = stack_okD [OF assms(1)]
  have c: "?c \<notin> set (t # hs)" using s(3) by blast
  show "dom ?F = set (?c # t # hs)" using s(1) by auto
  show "distinct (?c # t # hs)" using s(2) c by simp
  show "h < mc_fresh m + 1" if "h \<in> set (?c # t # hs)" for h using s(3) [of h] that by auto
  have "suspended ?F t hs"
    using s(2) c by (intro suspended_cong [OF s(4) _ assms(2), where f' = "f\<lparr>fr_point := In_Await ?c k\<rparr>"]) auto
  then show "suspended ?F ?c (t # hs)" using assms(3) c by (simp add: fresh_frame_def)
qed (simp_all add: fresh_frame_def)

text \<open>The ended top frame is freed and the one below it goes on.\<close>

lemma stack_pop:
  assumes "stack_ok m c (t # hs)" "mc_frames m t = Some f"
  shows "stack_ok \<lparr>mc_frames = (mc_frames m)(c := None, t := Some (f\<lparr>fr_point := At q\<rparr>)), mc_current = Some t, mc_parked = None,
    mc_fresh = mc_fresh m\<rparr> t hs"
    (is "stack_ok \<lparr>mc_frames = ?F, mc_current = _, mc_parked = _, mc_fresh = _\<rparr> _ _")
proof (rule stack_ok_freshI)
  note s = stack_okD [OF assms(1)]
  show "dom ?F = set (t # hs)" using s(1,2) by auto
  show "h < mc_fresh m" if "h \<in> set (t # hs)" for h using s(3) [of h] that by simp
  have below: "suspended (mc_frames m) t hs" using s(4) by simp
  show "suspended ?F t hs"
    using s(2) by (intro suspended_cong [OF below _ assms(2), where f' = "f\<lparr>fr_point := At q\<rparr>"]) auto
  show "fresh_frame (f\<lparr>fr_point := At q\<rparr>)" using s(4) assms(2) by (auto simp: fresh_frame_def)
qed (use stack_okD(2) [OF assms(1)] in simp_all)

text \<open>Each step of the frame control is in.\<close>

lemma stack_step_fresh:
  assumes ok: "stack_ok m t hs" and f: "mc_frames m t = Some f" "fr_point f = At p" "fr_exception f = None" "fr_value f = None"
    and cur: "mc_current m = Some t" "mc_parked m = None"
  shows "\<exists>m' t' hs'. machine_step m = Some m' \<and> stack_ok m' t' hs'"
proof -
  obtain F c k n where m: "m = \<lparr>mc_frames = F, mc_current = c, mc_parked = k, mc_fresh = n\<rparr>" by (cases m)
  have t: "t < n" "F n = None" using stack_okD(1,3) [OF ok] m by (auto simp: domIff)
  note [simp] = f cur
  note defs = task_ops finished_def Let_def ended_frame_def take_result_def fresh_frame_def
  show ?thesis
  proof (cases p)
    case (Ret v)
    then have "machine_step m = Some \<lparr>mc_frames = (mc_frames m)(t := Some (finished (Inr v) f)), mc_current = fr_continuation f, mc_parked = None, mc_fresh = mc_fresh m\<rparr>"
      using f cur m by (simp add: defs)
    then show ?thesis using stack_end [OF ok f(1), of "finished (Inr v) f"] by (auto simp: ended_frame_def take_finished)
  next
    case (Throw e)
    then have "machine_step m = Some \<lparr>mc_frames = (mc_frames m)(t := Some (finished (Inl e) f)), mc_current = fr_continuation f, mc_parked = None, mc_fresh = mc_fresh m\<rparr>"
      using f cur m by (simp add: defs)
    then show ?thesis using stack_end [OF ok f(1), of "finished (Inl e) f"] by (auto simp: ended_frame_def take_finished)
  next
    case (Await q k)
    have "fresh_frame f" using f by (simp add: fresh_frame_def)
    then show ?thesis using stack_push [OF ok f(1), of k q] Await f cur m t by (auto simp: task_ops fun_upd_twist)
  next
    case (Await_Empty k)
    have "machine_step m = Some \<lparr>mc_frames = (mc_frames m)(t := Some (f\<lparr>fr_point := At (k (Inl (Logic_Error ''cannot await an empty task'')))\<rparr>)),
        mc_current = Some t, mc_parked = None, mc_fresh = mc_fresh m\<rparr>"
      using Await_Empty f cur m by (simp add: task_ops)
    then show ?thesis using stack_move [OF ok f(1) order_refl, of "f\<lparr>fr_point := At (k (Inl (Logic_Error ''cannot await an empty task'')))\<rparr>"] f
      by (auto simp: fresh_frame_def)
  next
    case (Drop q r)
    have "machine_step m = Some \<lparr>mc_frames = (mc_frames m)(t := Some (f\<lparr>fr_point := At r\<rparr>)), mc_current = Some t, mc_parked = None, mc_fresh = mc_fresh m + 1\<rparr>"
      using Drop f cur m t by (auto simp: task_ops fun_eq_iff)
    then show ?thesis using stack_move [OF ok f(1), of "mc_fresh m + 1" "f\<lparr>fr_point := At r\<rparr>"] f by (auto simp: fresh_frame_def)
  next
    case (Suspend q)
    have "machine_step m = Some \<lparr>mc_frames = (mc_frames m)(t := Some (f\<lparr>fr_point := At q\<rparr>)), mc_current = None, mc_parked = Some t, mc_fresh = mc_fresh m\<rparr>"
      using Suspend f cur m by (simp add: task_ops)
    then show ?thesis using stack_move [OF ok f(1) order_refl, of "f\<lparr>fr_point := At q\<rparr>"] f by (auto simp: fresh_frame_def)
  qed
qed

lemma machine_ok_step:
  assumes "machine_ok m"
  shows "\<exists>m'. machine_step m = Some m' \<and> machine_ok m'"
proof -
  obtain t hs where ok: "stack_ok m t hs" using assms by (auto simp: machine_ok_def)
  obtain f where f: "mc_frames m t = Some f" using stack_okD(1) [OF ok] by auto
  consider (run) "fresh_frame f" "mc_current m = Some t" "mc_parked m = None"
    | (parked) "fresh_frame f" "mc_current m = None" "mc_parked m = Some t"
    | (ended) "ended_frame f" "mc_parked m = None" "mc_current m = (case hs of [] \<Rightarrow> None | h # _ \<Rightarrow> Some h)"
    using ok f unfolding stack_ok_def by auto
  then show ?thesis
  proof cases
    case run
    then obtain p where "fr_point f = At p" "fr_exception f = None" "fr_value f = None" by (auto simp: fresh_frame_def)
    from stack_step_fresh [OF ok f this run(2,3)] show ?thesis by (auto simp: machine_ok_def)
  next
    case parked
    then have "machine_step m = Some (m\<lparr>mc_current := Some t, mc_parked := None\<rparr>)" by (simp add: machine_step_def)
    moreover have "stack_ok (m\<lparr>mc_current := Some t, mc_parked := None\<rparr>) t hs" using ok f parked by (auto simp: stack_ok_def)
    ultimately show ?thesis by (auto simp: machine_ok_def)
  next
    case ended
    show ?thesis
    proof (cases hs)
      case Nil
      then show ?thesis using ended assms by (simp add: machine_step_def)
    next
      case (Cons h hs')
      obtain g k where g: "mc_frames m h = Some g" "fr_point g = In_Await t k" using stack_okD(4) [OF ok] Cons by auto
      obtain r where r: "take_result f = Some r" using ended(1) by (auto simp: ended_frame_def)
      have "h \<noteq> t" using stack_okD(2) [OF ok] Cons by auto
      then have "machine_step m = Some \<lparr>mc_frames = (mc_frames m)(t := None, h := Some (g\<lparr>fr_point := At (k r)\<rparr>)), mc_current = Some h, mc_parked = None,
          mc_fresh = mc_fresh m\<rparr>"
        using ended(2,3) Cons f g r by (simp add: task_ops)
      then show ?thesis using stack_pop [OF ok [unfolded Cons] g(1), of "k r"] by (auto simp: machine_ok_def)
    qed
  qed
qed

text \<open>C2: a well-formed machine never reaches undefined behaviour.  From the start of any root task every number
  of steps is defined: no freed or finished frame is ever resumed, no result is taken from a
  frame that has none, and the live frames are always exactly the stack of awaiting coroutines.
\<close>

theorem task_frames_safe:
  "\<exists>m. machine_steps n (machine_start p) = Some m \<and> machine_ok m"
proof -
  have run: "\<exists>m'. machine_steps n m = Some m' \<and> machine_ok m'" if "machine_ok m" for m :: "'a machine"
    using that
  proof (induction n arbitrary: m)
    case (Suc n)
    obtain m1 where "machine_step m = Some m1" "machine_ok m1" using machine_ok_step [OF Suc.prems] by blast
    then show ?case using Suc.IH by simp
  qed simp
  have "stack_ok (machine_start p) 0 []"
    by (simp add: stack_ok_def machine_start_def task_make_def fresh_frame_def)
  then have "machine_ok (machine_start p)" unfolding machine_ok_def by blast
  then show ?thesis by (rule run)
qed

end
