(* ===== verification/Frame.thy ===== *)
theory Frame
  imports Snowy_Prelude
begin

text \<open>
  \<^verbatim>\<open>detail/frame.hpp\<close>: a coroutine frame followed by a copy of its allocator, in one array of blocks.
  Sizes are 64-bit words; \<open>blk\<close> is \<^verbatim>\<open>sizeof(block)\<close> and \<open>own\<close> is \<^verbatim>\<open>sizeof(A)\<close>.
\<close>

type_synonym size_t = "64 word"

text \<open>An allocator type: what \<^verbatim>\<open>allocate\<close> and \<^verbatim>\<open>deallocate\<close> do with a number of blocks; a position is a block index.\<close>

record ('a, 's) allocator =
  al_allocate :: "'a \<Rightarrow> size_t \<Rightarrow> 's \<Rightarrow> (nat, 's) result"
  al_deallocate :: "'a \<Rightarrow> nat \<Rightarrow> size_t \<Rightarrow> 's \<Rightarrow> 's"

definition slots :: "size_t \<Rightarrow> size_t \<Rightarrow> size_t" where
  "slots blk n = (n + blk - 1) div blk"

text \<open>The state is that of the allocator's resource and the allocator copies that are alive in memory.\<close>

definition frame_new :: "('a, 's) allocator \<Rightarrow> size_t \<Rightarrow> size_t \<Rightarrow> size_t \<Rightarrow> 'a \<Rightarrow> 's \<times> (nat \<Rightarrow> 'a option) \<Rightarrow> (nat, 's \<times> (nat \<Rightarrow> 'a option)) result" where
  "frame_new al blk own n source = (\<lambda>(s, saved).
     if n > - 1 - blk - own then (Inl Bad_Alloc, (s, saved))
     else (let offset = slots blk n in
           case al_allocate al source (offset + slots blk own) s of
             (Inl e, s1) \<Rightarrow> (Inl e, (s1, saved))
           | (Inr mem, s1) \<Rightarrow> (Inr mem, (s1, saved(mem + unat offset := Some source)))))"

text \<open>\<^const>\<open>None\<close> when there is no allocator where \<^verbatim>\<open>operator delete\<close> looks for it.\<close>

definition frame_delete :: "('a, 's) allocator \<Rightarrow> size_t \<Rightarrow> size_t \<Rightarrow> nat \<Rightarrow> size_t \<Rightarrow> 's \<times> (nat \<Rightarrow> 'a option) \<Rightarrow> ('s \<times> (nat \<Rightarrow> 'a option)) option" where
  "frame_delete al blk own mem n = (\<lambda>(s, saved).
     case saved (mem + unat (slots blk n)) of
       None \<Rightarrow> None
     | Some a \<Rightarrow>
         Some (al_deallocate al a mem (slots blk n + slots blk own) s, saved(mem + unat (slots blk n) := None)))"

subsection \<open>Block counts\<close>

lemma unat_slots:
  assumes "0 < unat blk" "unat n + unat blk \<le> 2 ^ 64"
  shows "unat (slots blk n) = (unat n + (unat blk - 1)) div unat blk"
proof -
  have one: "(1 :: size_t) \<le> blk" using assms(1) by (simp add: word_le_nat_alt)
  have b: "unat (blk - 1) = unat blk - 1" using unat_sub [OF one] by simp
  have "unat n + (unat blk - 1) < 2 ^ 64" using assms by linarith
  then have "unat (n + (blk - 1)) = unat n + (unat blk - 1)"
    using b unat_add_lem [of n "blk - 1"] by simp
  then show ?thesis by (simp add: slots_def unat_div add_diff_eq [symmetric] del: add_diff_eq)
qed

lemma ceil_div:
  fixes n b :: nat
  assumes "0 < b"
  shows "n \<le> (n + (b - 1)) div b * b" "(n + (b - 1)) div b * b < n + b"
proof -
  have "(n + (b - 1)) div b * b + (n + (b - 1)) mod b = n + (b - 1)" by simp
  moreover have "(n + (b - 1)) mod b < b" using assms by simp
  ultimately show "n \<le> (n + (b - 1)) div b * b" "(n + (b - 1)) div b * b < n + b" using assms by linarith+
qed

lemma slots_count:
  fixes blk own n :: size_t
  assumes "0 < unat blk" "unat blk + unat own < 2 ^ 64" "n \<le> - 1 - blk - own"
  shows "unat n \<le> unat (slots blk n) * unat blk" "unat own \<le> unat (slots blk own) * unat blk"
    "unat (slots blk n + slots blk own) = unat (slots blk n) + unat (slots blk own)"
proof -
  let ?a = "unat (slots blk n)" and ?b = "unat (slots blk own)" and ?B = "unat blk"
  have sum: "unat (blk + own) = unat blk + unat own" using assms(2) by (intro unat_add_lem [THEN iffD1]) simp
  have "- 1 - blk - own = - 1 - (blk + own)" by simp
  also have "unat (- 1 - (blk + own)) = unat (- 1 :: size_t) - unat (blk + own)" by (rule unat_sub) simp
  also have "unat (- 1 :: size_t) = 2 ^ 64 - 1" by (simp add: unsigned_minus_1_eq_mask mask_eq_exp_minus_1)
  finally have "unat (- 1 - blk - own) = 2 ^ 64 - 1 - (?B + unat own)" using sum by simp
  then have n: "unat n + ?B + unat own < 2 ^ 64" using assms(2,3) by (simp add: word_le_nat_alt)
  have a: "?a = (unat n + (?B - 1)) div ?B" using n assms(1) by (intro unat_slots) auto
  have b: "?b = (unat own + (?B - 1)) div ?B" using assms(1,2) by (intro unat_slots) auto
  show "unat n \<le> ?a * ?B" "unat own \<le> ?b * ?B" using ceil_div(1) [OF assms(1)] a b by simp_all
  have "?a * ?B < unat n + ?B" "?b * ?B < unat own + ?B" using ceil_div(2) [OF assms(1)] a b by simp_all
  then have lt: "(?a + ?b) * ?B < 2 ^ 64 + (?B - 1)" using n assms(1) by (simp add: distrib_right)
  have "?a + ?b < 2 ^ 64"
  proof (rule ccontr)
    assume "\<not> ?a + ?b < 2 ^ 64"
    then have "2 ^ 64 * ?B \<le> (?a + ?b) * ?B" by (intro mult_le_mono1) simp
    moreover have "(2 :: nat) ^ 64 * ?B = 2 ^ 64 + 2 ^ 64 * (?B - 1)" using assms(1) by (cases ?B) simp_all
    moreover have "?B - 1 \<le> 2 ^ 64 * (?B - 1)" by simp
    ultimately show False using lt by linarith
  qed
  then show "unat (slots blk n + slots blk own) = ?a + ?b" by (intro unat_add_lem [THEN iffD1]) simp
qed

text \<open>C39: a custom frame fits its allocation and is freed as it was allocated.  When \<^verbatim>\<open>operator new\<close> returns,
  no 64-bit size wrapped: the frame's bytes end before the saved allocator, whose bytes end within the
  allocated blocks; and \<^verbatim>\<open>operator delete\<close>, given the same size, finds that allocator whatever the
  resource did meanwhile, ends its lifetime and returns exactly the allocated number of blocks to it.
\<close>

theorem frame_roundtrip:
  fixes blk own n :: size_t
  assumes "0 < unat blk" "unat blk + unat own < 2 ^ 64"
    and "frame_new al blk own n source (s, saved) = (Inr mem, (s1, saved1))"
  shows "\<exists>blocks. al_allocate al source blocks s = (Inr mem, s1) \<and>
    unat n \<le> unat (slots blk n) * unat blk \<and>
    unat (slots blk n) * unat blk + unat own \<le> unat blocks * unat blk \<and>
    (\<forall>s2. frame_delete al blk own mem n (s2, saved1) =
       Some (al_deallocate al source mem blocks s2, saved(mem + unat (slots blk n) := None)))"
proof -
  let ?n = "slots blk n + slots blk own"
  have "n \<le> - 1 - blk - own" using assms(3) by (auto simp: frame_new_def split: if_splits)
  note c = slots_count [OF assms(1,2) this]
  have "al_allocate al source ?n s = (Inr mem, s1)" "saved1 = saved(mem + unat (slots blk n) := Some source)"
    using assms(3) by (auto simp: frame_new_def Let_def split: if_splits prod.splits sum.splits)
  then show ?thesis using c by (intro exI [of _ ?n]) (simp add: frame_delete_def distrib_right)
qed

text \<open>A resource that counts blocks in use and hands them out in order.\<close>

definition counting :: "(unit, nat) allocator" where
  "counting = \<lparr>al_allocate = (\<lambda>a k s. (Inr s, s + unat k)), al_deallocate = (\<lambda>a p k s. s - unat k)\<rparr>"

theorem frame_roundtrip_witness:
  "\<exists>s1 saved1. frame_new counting 16 8 100 () (0, \<lambda>p. None) = (Inr 0, (s1, saved1)) \<and> s1 = 8 \<and>
     frame_delete counting 16 8 0 100 (s1, saved1) = Some (0, \<lambda>p. None)"
proof -
  have sl: "slots 16 100 = 7" "slots 16 8 = 1" by (simp_all add: slots_def)
  have new: "frame_new counting 16 8 100 () (0, \<lambda>p. None) = (Inr 0, (8, (\<lambda>p. None)(7 := Some ())))"
    by (simp add: frame_new_def counting_def sl Let_def)
  have "0 < unat (16 :: size_t)" "unat (16 :: size_t) + unat (8 :: size_t) < 2 ^ 64" by simp_all
  from frame_roundtrip [OF this new] obtain blocks where
    "al_allocate counting () blocks 0 = (Inr 0, 8)"
    "\<forall>s2. frame_delete counting 16 8 0 100 (s2, (\<lambda>p. None)(7 := Some ())) =
       Some (al_deallocate counting () 0 blocks s2, (\<lambda>p. None)(0 + unat (slots 16 100) := None))" by blast
  then have "frame_delete counting 16 8 0 100 (8, (\<lambda>p. None)(7 := Some ())) = Some (0, \<lambda>p. None)"
    by (simp add: counting_def)
  then show ?thesis using new by blast
qed

end
