(* ===== verification/When.thy ===== *)
theory When
  imports Event
begin

text \<open>
  \<^verbatim>\<open>when.hpp\<close>: structured concurrency on one loop.  A parent starts children, waits on a barrier event
  that only the last child sets, and then reads the slots the children filled.  The step relation
  completes the children in every order, with any other activity of the loop in between.
\<close>

subsection \<open>The parent's state\<close>

text \<open>\<^verbatim>\<open>join\<close> and \<^verbatim>\<open>group\<close>: the barrier of the parent and the result slots.\<close>

record 'v joins = events +
  jn_owner :: loop_id
  jn_done :: event_id
  jn_error :: "exn option"
  jn_stop :: token_id
  jn_pending :: nat
  jn_winner :: "nat option"
  jn_values :: "'v option list"

definition join_init :: "loop_id \<Rightarrow> event_id \<Rightarrow> token_id \<Rightarrow> nat \<Rightarrow> ('v, 'z) joins_scheme \<Rightarrow> ('v, 'z) joins_scheme" where
  "join_init l e k n w =
     (event_init l e w)\<lparr>jn_owner := l, jn_done := e, jn_error := None, jn_stop := k, jn_pending := 0, jn_winner := None,
        jn_values := replicate n None\<rparr>"

subsection \<open>Children\<close>

text \<open>
  The first step of \<^verbatim>\<open>collect\<close>, up to \<^verbatim>\<open>co_await state.owner.schedule()\<close>.  Making the child (calling its
  factory, moving it, allocating the frame) is code of the caller, \<open>mk\<close>; child \<open>i\<close> yields with the
  awaiter at \<open>ad i\<close> and the handle \<open>hs i\<close>.  An exception of the yield would leave a detached coroutine: \<^const>\<open>None\<close>.
\<close>

definition collect_start :: "(nat \<Rightarrow> ('v, 'z) joins_scheme \<Rightarrow> (unit, ('v, 'z) joins_scheme) result) \<Rightarrow> (nat \<Rightarrow> addr) \<Rightarrow> (nat \<Rightarrow> handle_id) \<Rightarrow>
    thread_id \<Rightarrow> nat \<Rightarrow> ('v, 'z) joins_scheme \<Rightarrow> (unit, ('v, 'z) joins_scheme) result option" where
  "collect_start mk ad hs t i w =
     (case mk i w of
        (Inl e, w1) \<Rightarrow> Some (Inl e, w1)
      | (Inr _, w1) \<Rightarrow>
          (case yield_suspend t (ad i) (hs i) (w1\<lparr>op_owner := (op_owner w1)(ad i := jn_owner w1)\<rparr>) of
             (Inl e, w2) \<Rightarrow> None
           | (Inr _, w2) \<Rightarrow> Some (Inr (), w2)))"

text \<open>Moving the child's value into its slot may throw (\<open>mv\<close>); the error then replaces it.\<close>

definition outcome :: "('v \<Rightarrow> exn + 'v) \<Rightarrow> exn + 'v \<Rightarrow> exn + 'v" where
  "outcome mv r = (case r of Inl e \<Rightarrow> Inl e | Inr v \<Rightarrow> mv v)"

definition error_of :: "exn + 'v \<Rightarrow> exn option" where
  "error_of r = (case r of Inl e \<Rightarrow> Some e | Inr v \<Rightarrow> None)"

text \<open>
  The rest of \<^verbatim>\<open>collect\<close>, on the owner's thread, once the child ended with \<open>r\<close>: fill the slot, record the
  winner or the first error, and open the barrier after the last child.
\<close>

definition collect_finish :: "('v \<Rightarrow> exn + 'v) \<Rightarrow> thread_id \<Rightarrow> nat \<Rightarrow> bool \<Rightarrow> exn + 'v \<Rightarrow> ('v, 'z) joins_scheme \<Rightarrow> ('v, 'z) joins_scheme option" where
  "collect_finish mv t i race r w =
     (let w1 = (case outcome mv r of Inl e \<Rightarrow> w | Inr v \<Rightarrow> w\<lparr>jn_values := (jn_values w)[i := Some v]\<rparr>);
          error = error_of (outcome mv r);
          w2 = (if race
                then if jn_winner w1 = None then request_stop (jn_stop w1) (w1\<lparr>jn_winner := Some i, jn_error := error\<rparr>) else w1
                else if error \<noteq> None \<and> jn_error w1 = None then w1\<lparr>jn_error := error\<rparr> else w1);
          w3 = w2\<lparr>jn_pending := jn_pending w2 - 1\<rparr>
      in if jn_pending w3 \<noteq> 0 then Some w3
         else case event_set t (jn_done w3) w3 of Some (Inr _, w4) \<Rightarrow> Some w4 | _ \<Rightarrow> None)"

subsection \<open>Launching and collecting\<close>

text \<open>The launch loop of \<^verbatim>\<open>when_all\<close> over the indices that are left; \<open>start\<close> is \<^const>\<open>collect_start\<close>.\<close>

fun all_launch :: "(nat \<Rightarrow> ('v, 'z) joins_scheme \<Rightarrow> (unit, ('v, 'z) joins_scheme) result option) \<Rightarrow> nat list \<Rightarrow>
    ('v, 'z) joins_scheme \<Rightarrow> ('v, 'z) joins_scheme option" where
  "all_launch start [] w = Some w"
| "all_launch start (i # is) w =
     (case start i (w\<lparr>jn_pending := jn_pending w + 1\<rparr>) of
        None \<Rightarrow> None
      | Some (Inl e, w1) \<Rightarrow> Some (w1\<lparr>jn_pending := jn_pending w1 - 1, jn_error := Some e\<rparr>)
      | Some (Inr _, w1) \<Rightarrow> all_launch start is w1)"

text \<open>The pack expansion of \<^verbatim>\<open>detail::all\<close>, which calls \<^verbatim>\<open>launch\<close> for every child and tests the error instead.\<close>

fun pack_launch :: "(nat \<Rightarrow> ('v, 'z) joins_scheme \<Rightarrow> (unit, ('v, 'z) joins_scheme) result option) \<Rightarrow> nat list \<Rightarrow>
    ('v, 'z) joins_scheme \<Rightarrow> ('v, 'z) joins_scheme option" where
  "pack_launch start [] w = Some w"
| "pack_launch start (i # is) w =
     (if jn_error w \<noteq> None then pack_launch start is w
      else case start i (w\<lparr>jn_pending := jn_pending w + 1\<rparr>) of
        None \<Rightarrow> None
      | Some (Inl e, w1) \<Rightarrow> pack_launch start is (w1\<lparr>jn_pending := jn_pending w1 - 1, jn_error := Some e\<rparr>)
      | Some (Inr _, w1) \<Rightarrow> pack_launch start is w1)"

text \<open>The launch loop of \<^verbatim>\<open>when_any\<close>; a startup error is kept apart and cancels the started children.\<close>

fun any_launch :: "(nat \<Rightarrow> ('v, 'z) joins_scheme \<Rightarrow> (unit, ('v, 'z) joins_scheme) result option) \<Rightarrow> nat list \<Rightarrow>
    ('v, 'z) joins_scheme \<Rightarrow> (exn option \<times> ('v, 'z) joins_scheme) option" where
  "any_launch start [] w = Some (None, w)"
| "any_launch start (i # is) w =
     (case start i (w\<lparr>jn_pending := jn_pending w + 1\<rparr>) of
        None \<Rightarrow> None
      | Some (Inl e, w1) \<Rightarrow> (let w2 = w1\<lparr>jn_pending := jn_pending w1 - 1\<rparr> in Some (Some e, request_stop (jn_stop w2) w2))
      | Some (Inr _, w1) \<Rightarrow> any_launch start is w1)"

text \<open>
  The pack expansions of the other \<^verbatim>\<open>when_any\<close> call \<^verbatim>\<open>launch\<close> for every factory and test the startup error
  instead; the slot counter advances with each launched child.
\<close>

fun pack_any_launch :: "(nat \<Rightarrow> nat \<Rightarrow> ('v, 'z) joins_scheme \<Rightarrow> (unit, ('v, 'z) joins_scheme) result option) \<Rightarrow> nat list \<Rightarrow> nat \<Rightarrow>
    exn option \<Rightarrow> ('v, 'z) joins_scheme \<Rightarrow> (exn option \<times> ('v, 'z) joins_scheme) option" where
  "pack_any_launch start [] index startup w = Some (startup, w)"
| "pack_any_launch start (i # is) index startup w =
     (if startup \<noteq> None then pack_any_launch start is index startup w
      else case start i index (w\<lparr>jn_pending := jn_pending w + 1\<rparr>) of
        None \<Rightarrow> None
      | Some (Inl e, w1) \<Rightarrow>
          (let w2 = w1\<lparr>jn_pending := jn_pending w1 - 1\<rparr> in pack_any_launch start is index (Some e) (request_stop (jn_stop w2) w2))
      | Some (Inr _, w1) \<Rightarrow> pack_any_launch start is (index + 1) None w1)"

text \<open>\<^verbatim>\<open>if (state.pending) co_await state.done.join()\<close>, a wait that stop requests do not end.\<close>

definition join_wait :: "thread_id \<Rightarrow> addr \<Rightarrow> handle_id \<Rightarrow> ('v, 'z) joins_scheme \<Rightarrow> (bool, ('v, 'z) joins_scheme) result" where
  "join_wait t a h w =
     (if jn_pending w = 0 then (Inr False, w)
      else awaiter_suspend t a h (awaiter_init (jn_done w) a None False w))"

text \<open>What the parent returns: \<^const>\<open>None\<close> if it read a slot nobody filled.\<close>

definition all_result :: "('v, 'z) joins_scheme \<Rightarrow> (exn + 'v list) option" where
  "all_result w =
     (case jn_error w of
        Some e \<Rightarrow> Some (Inl e)
      | None \<Rightarrow> (case those (jn_values w) of None \<Rightarrow> None | Some vs \<Rightarrow> Some (Inr vs)))"

definition any_result :: "exn option \<Rightarrow> ('v, 'z) joins_scheme \<Rightarrow> (exn + nat \<times> 'v) option" where
  "any_result startup w =
     (case startup of
        Some e \<Rightarrow> Some (Inl e)
      | None \<Rightarrow>
          (case jn_error w of
             Some e \<Rightarrow> Some (Inl e)
           | None \<Rightarrow>
               (case jn_winner w of
                  None \<Rightarrow> None
                | Some i \<Rightarrow>
                    if i < length (jn_values w)
                    then (case jn_values w ! i of None \<Rightarrow> None | Some v \<Rightarrow> Some (Inr (i, v)))
                    else None)))"

text \<open>The variant-returning race tests every index of the pack in turn; the last match is what stays in \<^verbatim>\<open>output\<close>.\<close>

definition variant_result :: "exn option \<Rightarrow> ('v, 'z) joins_scheme \<Rightarrow> (exn + nat \<times> 'v) option" where
  "variant_result startup w =
     (case startup of
        Some e \<Rightarrow> Some (Inl e)
      | None \<Rightarrow>
          (case jn_error w of
             Some e \<Rightarrow> Some (Inl e)
           | None \<Rightarrow>
               (case jn_winner w of
                  None \<Rightarrow> None
                | Some i \<Rightarrow>
                    map_option Inr
                      (fold (\<lambda>j out. if i = j then (case jn_values w ! j of None \<Rightarrow> None | Some v \<Rightarrow> Some (j, v)) else out)
                         [0..<length (jn_values w)] None))))"

text \<open>\<^verbatim>\<open>when_all\<close> and \<^verbatim>\<open>when_any\<close> up to their suspension on the barrier.\<close>

definition when_all_begin where
  "when_all_begin mk ad hs t l e k n a h w =
     (if \<not> loop_check t l w then Some (Inl wrong_thread, w)
      else case all_launch (collect_start mk ad hs t) [0..<n] (join_init l e k n w) of
        None \<Rightarrow> None
      | Some w1 \<Rightarrow> Some (join_wait t a h w1))"

definition when_any_begin where
  "when_any_begin mk ad hs t l e k n a h w =
     (if \<not> loop_check t l w then Some (Inl wrong_thread, w)
      else if n = 0 then Some (Inl (Invalid_Argument ''empty when_any''), w)
      else case any_launch (collect_start mk ad hs t) [0..<n] (join_init l e k n w) of
        None \<Rightarrow> None
      | Some (startup, w1) \<Rightarrow> Some (join_wait t a h w1))"

text \<open>\<^verbatim>\<open>timeout\<close>: the second child of its race is a sleep that ends in an error, and the winner's value is returned.\<close>

definition timeout_child :: "exn + unit \<Rightarrow> exn + 'v" where
  "timeout_child slept = (case slept of Inl e \<Rightarrow> Inl e | Inr _ \<Rightarrow> Inl (System_Error Timed_Out))"

definition timeout_result :: "(exn + nat \<times> 'v) option \<Rightarrow> (exn + 'v) option" where
  "timeout_result x = map_option (map_sum id snd) x"

subsection \<open>What children and the loop keep of the parent's state\<close>

definition join_fields :: "('v, 'z) joins_scheme \<Rightarrow> loop_id \<times> event_id \<times> exn option \<times> token_id \<times> nat \<times> nat option \<times> 'v option list" where
  "join_fields w = (jn_owner w, jn_done w, jn_error w, jn_stop w, jn_pending w, jn_winner w, jn_values w)"

text \<open>Other code on the loop cannot reach the parent's frame, reset its private event or withdraw a stop request.\<close>

definition join_same :: "('v, 'z) joins_scheme \<Rightarrow> ('v, 'z) joins_scheme \<Rightarrow> bool" where
  "join_same w w' \<longleftrightarrow> join_fields w' = join_fields w \<and> ev_set w' (jn_done w) = ev_set w (jn_done w) \<and>
     (stop_flag w (jn_stop w) \<longrightarrow> stop_flag w' (jn_stop w))"

lemma join_same_refl: "join_same w w"
  by (simp add: join_same_def)

lemma join_same_trans: "join_same u v \<Longrightarrow> join_same v w \<Longrightarrow> join_same u w"
  by (auto simp: join_same_def join_fields_def)

lemma join_fields_notify [simp]: "join_fields (wait_notify a w) = join_fields w" "stop_flag (wait_notify a w) = stop_flag w"
  by (simp_all add: join_fields_def wait_notify_def wait_unlink_def loop_finish_def callback_reset_def ready_push_def
      upd_loop_def Let_def split: prod.split option.split)

lemma join_fields_cancels [simp]:
  "join_fields (fold cancel_fn xs w) = join_fields w" "ev_set (fold cancel_fn xs w) = ev_set w" "stop_flag (fold cancel_fn xs w) = stop_flag w"
  by (induction xs arbitrary: w) (simp_all add: join_fields_def cancel_fn_def loop_wake_def upd_loop_def)

lemma join_request_stop [simp]:
  "join_fields (request_stop k w) = join_fields w" "ev_set (request_stop k (w :: ('v, 'z) joins_scheme)) = ev_set w"
  "stop_flag (request_stop k w) = (stop_flag w)(k := True)"
  by (auto simp: request_stop_def join_fields_def [of "w\<lparr>stop_flag := _, stop_cbs := _\<rparr>"] join_fields_def [of w] fun_eq_iff)

lemma notify_from_keeps:
  assumes "notify_from p w = Some w'"
  shows "join_fields w' = join_fields w \<and> ev_set w' = ev_set w \<and> stop_flag w' = stop_flag w"
  using assms
proof (induction rule: notify_from.raw_induct [rotated, consumes 1, case_names step])
  case (step f p w y)
  then show ?case by (auto simp: Let_def split: option.splits)
qed

lemma event_set_keeps:
  assumes "event_set t e w = Some (r, w')" "r = Inr ()"
  shows "join_fields w' = join_fields w \<and> ev_set w' = (ev_set w)(e := True) \<and> stop_flag w' = stop_flag w"
  using assms by (auto simp: event_set_def join_fields_def split: if_splits option.splits dest!: notify_from_keeps)

lemma join_sameD:
  assumes "join_same w w'"
  shows "jn_done w' = jn_done w" "jn_error w' = jn_error w" "jn_stop w' = jn_stop w" "jn_pending w' = jn_pending w"
    "jn_winner w' = jn_winner w" "jn_values w' = jn_values w" "ev_set w' (jn_done w) = ev_set w (jn_done w)"
  using assms by (simp_all add: join_same_def join_fields_def)

lemma collect_start_keeps:
  assumes "\<And>i w. join_same w (snd (mk i w))" and "collect_start mk ad hs t i w = Some (r, w')"
  shows "join_same w w'"
  using assms(2) assms(1) [where i=i and w=w]
  by (auto simp: collect_start_def yield_suspend_def ready_push_def upd_loop_def join_same_def join_fields_def
      split: prod.splits sum.splits if_splits)

lemma collect_finish_fields:
  assumes "collect_finish mv t i race r w = Some w'"
  shows "jn_done w' = jn_done w" "jn_stop w' = jn_stop w" "jn_pending w' = jn_pending w - 1"
    "jn_values w' = (case outcome mv r of Inl e \<Rightarrow> jn_values w | Inr v \<Rightarrow> (jn_values w)[i := Some v])"
    "jn_winner w' = (if race \<and> jn_winner w = None then Some i else jn_winner w)"
    "jn_error w' = (if race then if jn_winner w = None then error_of (outcome mv r) else jn_error w
       else if jn_error w = None then error_of (outcome mv r) else jn_error w)"
    "ev_set w' (jn_done w) = (ev_set w (jn_done w) \<or> jn_pending w - 1 = 0)"
    "stop_flag w' (jn_stop w) = (stop_flag w (jn_stop w) \<or> race \<and> jn_winner w = None)"
proof -
  define w1 where "w1 = (case outcome mv r of Inl e \<Rightarrow> w | Inr v \<Rightarrow> w\<lparr>jn_values := (jn_values w)[i := Some v]\<rparr>)"
  define w2 where "w2 = (if race
                then if jn_winner w1 = None then request_stop (jn_stop w1) (w1\<lparr>jn_winner := Some i, jn_error := error_of (outcome mv r)\<rparr>) else w1
                else if error_of (outcome mv r) \<noteq> None \<and> jn_error w1 = None then w1\<lparr>jn_error := error_of (outcome mv r)\<rparr> else w1)"
  define w3 where "w3 = w2\<lparr>jn_pending := jn_pending w2 - 1\<rparr>"
  have r: "(if jn_pending w3 \<noteq> 0 then Some w3
         else case event_set t (jn_done w3) w3 of Some (Inr _, w4) \<Rightarrow> Some w4 | _ \<Rightarrow> None) = Some w'"
    using assms unfolding collect_finish_def Let_def w3_def w2_def w1_def by simp
  have f1: "join_fields w1 = (jn_owner w, jn_done w, jn_error w, jn_stop w, jn_pending w, jn_winner w,
      case outcome mv r of Inl e \<Rightarrow> jn_values w | Inr v \<Rightarrow> (jn_values w)[i := Some v])" "ev_set w1 = ev_set w" "stop_flag w1 = stop_flag w"
    unfolding w1_def by (simp_all add: join_fields_def split: sum.split)
  have f2: "join_fields w2 = (jn_owner w1, jn_done w1,
      if race then if jn_winner w1 = None then error_of (outcome mv r) else jn_error w1
       else if jn_error w1 = None then error_of (outcome mv r) else jn_error w1,
      jn_stop w1, jn_pending w1, if race \<and> jn_winner w1 = None then Some i else jn_winner w1, jn_values w1)"
    "ev_set w2 = ev_set w1" "stop_flag w2 (jn_stop w1) = (stop_flag w1 (jn_stop w1) \<or> race \<and> jn_winner w1 = None)"
    unfolding w2_def by (auto simp: join_fields_def [of w1] join_fields_def [of "w1\<lparr>jn_error := _\<rparr>"]
        join_fields_def [of "w1\<lparr>jn_winner := _, jn_error := _\<rparr>"])
  have f3: "join_fields w' = join_fields w3" "ev_set w' (jn_done w3) = (ev_set w3 (jn_done w3) \<or> jn_pending w3 = 0)" "stop_flag w' = stop_flag w3"
    using r by (auto split: if_splits option.splits prod.splits sum.splits dest!: event_set_keeps)
  note F = f1 f2 f3 w3_def
  show "jn_done w' = jn_done w" "jn_stop w' = jn_stop w" "jn_pending w' = jn_pending w - 1"
    "jn_values w' = (case outcome mv r of Inl e \<Rightarrow> jn_values w | Inr v \<Rightarrow> (jn_values w)[i := Some v])"
    "jn_winner w' = (if race \<and> jn_winner w = None then Some i else jn_winner w)"
    "jn_error w' = (if race then if jn_winner w = None then error_of (outcome mv r) else jn_error w
       else if jn_error w = None then error_of (outcome mv r) else jn_error w)"
    "ev_set w' (jn_done w) = (ev_set w (jn_done w) \<or> jn_pending w - 1 = 0)"
    "stop_flag w' (jn_stop w) = (stop_flag w (jn_stop w) \<or> race \<and> jn_winner w = None)"
    using F by (auto simp: join_fields_def)
qed

subsection \<open>Completion in any order\<close>

text \<open>A state is the world, the children that still run and the completions so far, oldest first.\<close>

type_synonym ('v, 'z) join_state = "('v, 'z) joins_scheme \<times> nat set \<times> (nat \<times> (exn + 'v)) list"

inductive join_step :: "('v \<Rightarrow> exn + 'v) \<Rightarrow> thread_id \<Rightarrow> bool \<Rightarrow> ('v, 'z) join_state \<Rightarrow> ('v, 'z) join_state \<Rightarrow> bool"
  for mv :: "'v \<Rightarrow> exn + 'v" and t :: thread_id and race :: bool where
  finish: "i \<in> live \<Longrightarrow> collect_finish mv t i race r w = Some w' \<Longrightarrow>
    join_step mv t race (w, live, done) (w', live - {i}, done @ [(i, r)])"
| other: "join_same w w' \<Longrightarrow> join_step mv t race (w, live, done) (w', live, done)"

primrec first_error :: "('v \<Rightarrow> exn + 'v) \<Rightarrow> (nat \<times> (exn + 'v)) list \<Rightarrow> exn option" where
  "first_error mv [] = None"
| "first_error mv (x # xs) = (case error_of (outcome mv (snd x)) of Some e \<Rightarrow> Some e | None \<Rightarrow> first_error mv xs)"

lemma first_error_snoc:
  "first_error mv (xs @ [x]) = (case first_error mv xs of Some e \<Rightarrow> Some e | None \<Rightarrow> error_of (outcome mv (snd x)))"
  by (induction xs) (simp_all split: option.split)

lemma first_error_None: "first_error mv xs = None \<Longrightarrow> x \<in> set xs \<Longrightarrow> \<exists>v. outcome mv (snd x) = Inr v"
  by (induction xs) (auto simp: error_of_def split: option.splits sum.splits)

text \<open>The slot of a child holds the value it ended with.\<close>

definition slot :: "('v \<Rightarrow> exn + 'v) \<Rightarrow> (nat \<times> (exn + 'v)) list \<Rightarrow> nat \<Rightarrow> 'v option" where
  "slot mv log i = (case map_of log i of None \<Rightarrow> None | Some r \<Rightarrow> (case outcome mv r of Inl e \<Rightarrow> None | Inr v \<Rightarrow> Some v))"

text \<open>
  With \<open>m\<close> of \<open>n\<close> children started and a launch that left the error \<open>e0\<close>: the counter counts the
  running children, each started child is running or has completed once, and slots, error, winner,
  stop request and barrier are what the completions so far determine.
\<close>

definition join_inv :: "('v \<Rightarrow> exn + 'v) \<Rightarrow> bool \<Rightarrow> nat \<Rightarrow> nat \<Rightarrow> exn option \<Rightarrow> ('v, 'z) join_state \<Rightarrow> bool" where
  "join_inv mv race m n e0 = (\<lambda>(w, live, log).
     live \<subseteq> {..<m} \<and> m \<le> n \<and> jn_pending w = card live \<and> distinct (map fst log) \<and> set (map fst log) = {..<m} - live \<and>
     jn_values w = map (slot mv log) [0..<n] \<and>
     jn_winner w = (if race \<and> log \<noteq> [] then Some (fst (hd log)) else None) \<and>
     jn_error w = (if race then if log = [] then None else error_of (outcome mv (snd (hd log)))
       else case e0 of Some e \<Rightarrow> Some e | None \<Rightarrow> first_error mv log) \<and>
     (race \<and> log \<noteq> [] \<longrightarrow> stop_flag w (jn_stop w)) \<and>
     (ev_set w (jn_done w) \<longleftrightarrow> live = {} \<and> 0 < m))"

lemma join_inv_same: "join_inv mv race m n e0 (w, live, log) \<Longrightarrow> join_same w w' \<Longrightarrow> join_inv mv race m n e0 (w', live, log)"
  by (simp add: join_inv_def join_same_def join_fields_def)

lemma slot_snoc:
  assumes "i \<notin> set (map fst log)"
  shows "slot mv (log @ [(i, r)]) j = (if j = i then case outcome mv r of Inl e \<Rightarrow> None | Inr v \<Rightarrow> Some v else slot mv log j)"
proof -
  have "map_of log i = None" using assms by (simp add: map_of_eq_None_iff)
  then show ?thesis by (auto simp: slot_def map_add_def split: option.split)
qed

lemma slots_snoc:
  assumes "i \<notin> set (map fst log)" "i < n"
  shows "map (slot mv (log @ [(i, r)])) [0..<n] =
    (case outcome mv r of Inl e \<Rightarrow> map (slot mv log) [0..<n] | Inr v \<Rightarrow> (map (slot mv log) [0..<n])[i := Some v])"
proof -
  have "map_of log i = None" using assms(1) by (simp add: map_of_eq_None_iff)
  then have "slot mv log i = None" by (simp add: slot_def)
  then show ?thesis
    using assms by (auto simp: slot_snoc nth_list_update intro!: nth_equalityI split: sum.split)
qed

lemma join_inv_finish:
  assumes inv: "join_inv mv race m n e0 (w, live, log)" and i: "i \<in> live" and f: "collect_finish mv t i race r w = Some w'"
  shows "join_inv mv race m n e0 (w', live - {i}, log @ [(i, r)])"
proof -
  note I = inv [unfolded join_inv_def prod.case]
  note F = collect_finish_fields [OF f]
  have fin: "finite live" using I finite_subset [of live "{..<m}"] by auto
  have new: "i \<notin> set (map fst log)" "i < n" "i < m" using I i by auto
  have pend: "jn_pending w' = card (live - {i})" using I F(3) fin i by simp
  have last: "jn_pending w - 1 = 0 \<longleftrightarrow> live - {i} = {}"
    using I fin i by (metis card_0_eq card_Diff_singleton finite_Diff)
  have "jn_values w' = map (slot mv (log @ [(i, r)])) [0..<n]" using slots_snoc [OF new(1,2)] I F(4) by (simp split: sum.split)
  moreover have "jn_winner w' = (if race \<and> log @ [(i, r)] \<noteq> [] then Some (fst (hd (log @ [(i, r)]))) else None)"
    using I F(5) by (cases log) auto
  moreover have "jn_error w' = (if race then if log @ [(i, r)] = [] then None else error_of (outcome mv (snd (hd (log @ [(i, r)]))))
       else case e0 of Some e \<Rightarrow> Some e | None \<Rightarrow> first_error mv (log @ [(i, r)]))"
    using I F(6) by (cases log) (auto simp: first_error_snoc split: option.splits)
  moreover have "race \<longrightarrow> stop_flag w' (jn_stop w')" using I F(2,8) by (cases log) auto
  moreover have "ev_set w' (jn_done w') \<longleftrightarrow> live - {i} = {} \<and> 0 < m" using I F(1,7) last i new(3) by auto
  moreover have "distinct (map fst (log @ [(i, r)]))" "set (map fst (log @ [(i, r)])) = {..<m} - (live - {i})" "live - {i} \<subseteq> {..<m}" "m \<le> n"
    using I new i by auto
  ultimately show ?thesis using pend unfolding join_inv_def prod.case by blast
qed

lemma join_inv_steps:
  assumes "(join_step mv t race)\<^sup>*\<^sup>* x y" "join_inv mv race m n e0 x"
  shows "join_inv mv race m n e0 y"
  using assms
proof (induction rule: rtranclp_induct)
  case (step y z)
  from step.hyps(2) step.IH [OF step.prems] show ?case
    by cases (auto intro: join_inv_finish join_inv_same)
qed

subsection \<open>Launching\<close>

definition launched :: "nat \<Rightarrow> ('v, 'z) joins_scheme \<Rightarrow> ('v, 'z) joins_scheme \<Rightarrow> bool" where
  "launched m w w' \<longleftrightarrow> jn_pending w' = jn_pending w + m \<and> jn_done w' = jn_done w \<and> jn_stop w' = jn_stop w \<and>
     jn_winner w' = jn_winner w \<and> jn_values w' = jn_values w \<and> ev_set w' (jn_done w) = ev_set w (jn_done w)"

lemma launched_Suc:
  assumes "join_same (w\<lparr>jn_pending := jn_pending w + 1\<rparr>) w1" "launched m w1 w'"
  shows "launched (Suc m) w w'"
  using join_sameD [OF assms(1)] assms(2) by (simp add: launched_def)

lemma all_launch_state:
  assumes keep: "\<And>i w r w'. start i w = Some (r, w') \<Longrightarrow> join_same w w'"
    and "all_launch start is w = Some w'" "jn_error w = None"
  shows "\<exists>m \<le> length is. launched m w w' \<and> (jn_error w' = None \<longrightarrow> m = length is)"
  using assms(2,3)
proof (induction "is" arbitrary: w)
  case Nil
  then show ?case by (simp add: launched_def)
next
  case (Cons i xs)
  let ?u = "w\<lparr>jn_pending := jn_pending w + 1\<rparr>"
  obtain r w1 where s: "start i ?u = Some (r, w1)" using Cons.prems(1) by (cases "start i ?u") auto
  note k = join_sameD [OF keep [OF s]]
  show ?case
  proof (cases r)
    case (Inl e)
    then have "w' = w1\<lparr>jn_pending := jn_pending w1 - 1, jn_error := Some e\<rparr>" using Cons.prems(1) s by simp
    then show ?thesis using k by (intro exI [of _ 0]) (simp add: launched_def)
  next
    case (Inr u)
    then have l: "all_launch start xs w1 = Some w'" using Cons.prems(1) s by simp
    have "jn_error w1 = None" using k(2) Cons.prems(2) by simp
    from Cons.IH [OF l this] obtain m where "m \<le> length xs" "launched m w1 w'" "jn_error w' = None \<longrightarrow> m = length xs" by (elim exE conjE)
    then show ?thesis using launched_Suc [OF keep [OF s]] by (intro exI [of _ "Suc m"]) simp
  qed
qed

text \<open>The pack expansion launches the same children as the loop with its early exit.\<close>

lemma pack_launch_stops: "jn_error w \<noteq> None \<Longrightarrow> pack_launch start is w = Some w"
  by (induction "is") auto

lemma pack_launch_loop:
  assumes keep: "\<And>i w r w'. start i w = Some (r, w') \<Longrightarrow> join_same w w'" and "jn_error w = None"
  shows "pack_launch start is w = all_launch start is w"
  using assms(2)
proof (induction "is" arbitrary: w)
  case (Cons i xs)
  let ?u = "w\<lparr>jn_pending := jn_pending w + 1\<rparr>"
  have "jn_error w1 = None" if "start i ?u = Some (r, w1)" for r w1
    using keep [OF that] Cons.prems by (simp add: join_same_def join_fields_def)
  then show ?case using Cons by (auto simp: pack_launch_stops split: option.split prod.split sum.split)
qed simp

lemma pack_any_launch_stops: "pack_any_launch start is index (Some e) w = Some (Some e, w)"
  by (induction "is") auto

text \<open>Each child of a pack gets the slot of its own position, and the launch is that of the vector version.\<close>

lemma pack_any_launch_loop: "pack_any_launch start [i..<i + n] i None w = any_launch (\<lambda>j. start j j) [i..<i + n] w"
proof (induction n arbitrary: i w)
  case (Suc n)
  have "[i..<i + Suc n] = i # [Suc i..<Suc i + n]" by (simp add: upt_conv_Cons)
  then show ?case using Suc.IH [of "Suc i"] by (auto simp: pack_any_launch_stops Let_def split: option.split prod.split sum.split)
qed simp

lemma any_launch_state:
  assumes keep: "\<And>i w r w'. start i w = Some (r, w') \<Longrightarrow> join_same w w'"
    and "any_launch start is w = Some (startup, w')"
  shows "\<exists>m \<le> length is. launched m w w' \<and> jn_error w' = jn_error w \<and>
    (case startup of None \<Rightarrow> m = length is | Some e \<Rightarrow> stop_flag w' (jn_stop w))"
  using assms(2)
proof (induction "is" arbitrary: w)
  case Nil
  then show ?case by (auto simp: launched_def)
next
  case (Cons i xs)
  let ?u = "w\<lparr>jn_pending := jn_pending w + 1\<rparr>"
  obtain r w1 where s: "start i ?u = Some (r, w1)" using Cons.prems by (cases "start i ?u") auto
  note k = join_sameD [OF keep [OF s]]
  show ?case
  proof (cases r)
    case (Inl e)
    let ?v = "w1\<lparr>jn_pending := jn_pending w1 - 1\<rparr>"
    have w': "startup = Some e" "w' = request_stop (jn_stop ?v) ?v" using Cons.prems s Inl by (auto simp: Let_def)
    have f: "join_fields w' = join_fields ?v" "ev_set w' = ev_set w1" "stop_flag w' = (stop_flag w1)(jn_stop w1 := True)"
      unfolding w'(2) by simp_all
    show ?thesis using f k w'(1) by (intro exI [of _ 0]) (simp add: launched_def join_fields_def)
  next
    case (Inr u)
    then have "any_launch start xs w1 = Some (startup, w')" using Cons.prems s by simp
    from Cons.IH [OF this] obtain m where "m \<le> length xs" "launched m w1 w'" "jn_error w' = jn_error w1"
      "case startup of None \<Rightarrow> m = length xs | Some e \<Rightarrow> stop_flag w' (jn_stop w1)" by (elim exE conjE)
    then show ?thesis using launched_Suc [OF keep [OF s]] k by (intro exI [of _ "Suc m"]) (simp split: option.splits)
  qed
qed

lemma join_init_fields [simp]:
  "jn_pending (join_init l e k n w) = 0" "jn_error (join_init l e k n w) = None" "jn_winner (join_init l e k n w) = None"
  "jn_done (join_init l e k n w) = e" "jn_stop (join_init l e k n w) = k" "jn_values (join_init l e k n w) = replicate n None"
  "\<not> ev_set (join_init l e k n w) e"
  by (simp_all add: join_init_def event_init_def)

lemma slots_empty: "map (slot mv []) [0..<n] = replicate n None"
  by (auto simp: slot_def intro: nth_equalityI)

lemma all_launch_inv:
  assumes "\<And>i w. join_same w (snd (mk i w))"
    and "all_launch (collect_start mk ad hs t) [0..<n] (join_init l e k n w) = Some w0"
  shows "join_inv mv False (jn_pending w0) n (jn_error w0) (w0, {..<jn_pending w0}, [])" "jn_error w0 = None \<longrightarrow> jn_pending w0 = n"
proof -
  have keep: "join_same w w'" if "collect_start mk ad hs t i w = Some (r, w')" for i w r w'
    using collect_start_keeps [OF assms(1) that] .
  have "\<exists>m \<le> length [0..<n]. launched m (join_init l e k n w) w0 \<and> (jn_error w0 = None \<longrightarrow> m = length [0..<n])"
    by (rule all_launch_state [OF _ assms(2)]) (auto intro: keep)
  then obtain m where m: "m \<le> n" "launched m (join_init l e k n w) w0" "jn_error w0 = None \<longrightarrow> m = n" by auto
  show "join_inv mv False (jn_pending w0) n (jn_error w0) (w0, {..<jn_pending w0}, [])" "jn_error w0 = None \<longrightarrow> jn_pending w0 = n"
    using m by (auto simp: join_inv_def launched_def slots_empty split: option.split)
qed

lemma any_launch_inv:
  assumes "\<And>i w. join_same w (snd (mk i w))"
    and "any_launch (collect_start mk ad hs t) [0..<n] (join_init l e k n w) = Some (startup, w0)"
  shows "join_inv mv True (jn_pending w0) n None (w0, {..<jn_pending w0}, [])" "startup = None \<longrightarrow> jn_pending w0 = n"
    "startup \<noteq> None \<longrightarrow> stop_flag w0 k" "jn_stop w0 = k"
proof -
  have keep: "join_same w w'" if "collect_start mk ad hs t i w = Some (r, w')" for i w r w'
    using collect_start_keeps [OF assms(1) that] .
  have "\<exists>m \<le> length [0..<n]. launched m (join_init l e k n w) w0 \<and> jn_error w0 = jn_error (join_init l e k n w) \<and>
      (case startup of None \<Rightarrow> m = length [0..<n] | Some x \<Rightarrow> stop_flag w0 (jn_stop (join_init l e k n w)))"
    by (rule any_launch_state [OF _ assms(2)]) (auto intro: keep)
  then obtain m where m: "m \<le> length [0..<n]" "launched m (join_init l e k n w) w0" "jn_error w0 = jn_error (join_init l e k n w)"
    "case startup of None \<Rightarrow> m = length [0..<n] | Some x \<Rightarrow> stop_flag w0 (jn_stop (join_init l e k n w))" by (elim exE conjE)
  show "join_inv mv True (jn_pending w0) n None (w0, {..<jn_pending w0}, [])" "startup = None \<longrightarrow> jn_pending w0 = n"
    "startup \<noteq> None \<longrightarrow> stop_flag w0 k" "jn_stop w0 = k"
    using m by (auto simp: join_inv_def launched_def slots_empty split: option.splits)
qed

subsection \<open>A child never terminates the program\<close>

text \<open>On the owner's thread the tail of \<^verbatim>\<open>collect\<close> cannot throw, and opening the barrier ends.\<close>

definition barrier_ok :: "thread_id \<Rightarrow> ('v, 'z) joins_scheme \<Rightarrow> bool" where
  "barrier_ok t w \<longleftrightarrow> loop_check t (ev_loop w (jn_done w)) w \<and> (\<exists>xs. chain (aw_next w) (ev_head w (jn_done w)) xs)"

lemma barrier_request_stop:
  fixes w :: "('v, 'z) joins_scheme"
  shows "barrier_ok t (request_stop k w) = barrier_ok t w"
proof -
  have "jn_done (fold cancel_fn xs u) = jn_done u \<and> ev_loop (fold cancel_fn xs u) = ev_loop u \<and> aw_next (fold cancel_fn xs u) = aw_next u \<and>
      ev_head (fold cancel_fn xs u) = ev_head u \<and> lp_thread (loops (fold cancel_fn xs u) l) = lp_thread (loops u l)" for xs l and u :: "('v, 'z) joins_scheme"
    by (induction xs arbitrary: u) (simp_all add: cancel_fn_def loop_wake_def upd_loop_def)
  then show ?thesis by (simp add: barrier_ok_def request_stop_def loop_check_def)
qed

lemma collect_finish_total:
  fixes w :: "('v, 'z) joins_scheme"
  assumes "barrier_ok t w"
  shows "\<exists>w'. collect_finish mv t i race r w = Some w' \<and> (jn_pending w' \<noteq> 0 \<longrightarrow> barrier_ok t w')"
proof -
  have fields: "barrier_ok t (w\<lparr>jn_values := x\<rparr>) = barrier_ok t w" "barrier_ok t (w\<lparr>jn_error := y\<rparr>) = barrier_ok t w"
    "barrier_ok t (w\<lparr>jn_winner := z\<rparr>) = barrier_ok t w" "barrier_ok t (w\<lparr>jn_pending := p\<rparr>) = barrier_ok t w"
    for x y z p and w :: "('v, 'z) joins_scheme"
    by (simp_all add: barrier_ok_def loop_check_def)
  have set: "\<exists>u'. event_set t (jn_done u) u = Some (Inr (), u')" if "barrier_ok t u" for u :: "('v, 'z) joins_scheme"
    using that notify_from_list [of "u\<lparr>ev_set := (ev_set u)(jn_done u := True)\<rparr>"] by (auto simp: barrier_ok_def event_set_def)
  define w1 where "w1 = (case outcome mv r of Inl e \<Rightarrow> w | Inr v \<Rightarrow> w\<lparr>jn_values := (jn_values w)[i := Some v]\<rparr>)"
  define w2 where "w2 = (if race
                then if jn_winner w1 = None then request_stop (jn_stop w1) (w1\<lparr>jn_winner := Some i, jn_error := error_of (outcome mv r)\<rparr>) else w1
                else if error_of (outcome mv r) \<noteq> None \<and> jn_error w1 = None then w1\<lparr>jn_error := error_of (outcome mv r)\<rparr> else w1)"
  define w3 where "w3 = w2\<lparr>jn_pending := jn_pending w2 - 1\<rparr>"
  have "barrier_ok t w1" using assms by (simp add: w1_def fields split: sum.split)
  then have "barrier_ok t w3" by (simp add: w3_def w2_def fields barrier_request_stop)
  from set [OF this] obtain w4 where w4: "event_set t (jn_done w3) w3 = Some (Inr (), w4)" ..
  then have "jn_pending w4 = jn_pending w3" using event_set_keeps [OF w4] by (simp add: join_fields_def)
  then have "\<exists>w'. (if jn_pending w3 \<noteq> 0 then Some w3
         else case event_set t (jn_done w3) w3 of Some (Inr _, w4) \<Rightarrow> Some w4 | _ \<Rightarrow> None) = Some w' \<and> (jn_pending w' \<noteq> 0 \<longrightarrow> barrier_ok t w')"
    using w4 \<open>barrier_ok t w3\<close> by simp
  then show ?thesis unfolding collect_finish_def Let_def w3_def w2_def w1_def by simp
qed

subsection \<open>Correctness\<close>

lemma those_map: "(\<And>x. x \<in> set xs \<Longrightarrow> f x \<noteq> None) \<Longrightarrow> those (map f xs) = Some (map (\<lambda>x. the (f x)) xs)"
  by (induction xs) (auto split: option.split)

text \<open>All slots are filled when no child failed.\<close>

lemma slots_filled:
  assumes "first_error mv log = None" "distinct (map fst log)" "set (map fst log) = {..<n}"
  shows "\<exists>vs. those (map (slot mv log) [0..<n]) = Some vs \<and> length vs = n \<and> (\<forall>(i, r) \<in> set log. outcome mv r = Inr (vs ! i))"
proof -
  have s: "slot mv log i = Some v" if "(i, r) \<in> set log" "outcome mv r = Inr v" for i r v
    using map_of_is_SomeI [OF assms(2) that(1)] that(2) by (simp add: slot_def)
  have ex: "\<exists>v. outcome mv r = Inr v" if "(i, r) \<in> set log" for i r
    using first_error_None [OF assms(1) that] by simp
  have "slot mv log i \<noteq> None" if "i < n" for i
  proof -
    have "i \<in> fst ` set log" using that assms(3) by simp
    then obtain r where "(i, r) \<in> set log" by auto
    then show ?thesis using s ex by fastforce
  qed
  then have "those (map (slot mv log) [0..<n]) = Some (map (\<lambda>i. the (slot mv log i)) [0..<n])" by (intro those_map) simp
  moreover have "outcome mv r = Inr (map (\<lambda>i. the (slot mv log i)) [0..<n] ! i)" if "(i, r) \<in> set log" for i r
  proof -
    have "i < n" using that assms(3) by force
    then show ?thesis using s [OF that] ex [OF that] by auto
  qed
  ultimately show ?thesis by (intro exI [of _ "map (\<lambda>i. the (slot mv log i)) [0..<n]"]) auto
qed

text \<open>C3: \<^verbatim>\<open>when_all\<close>, in whatever order its children finish.  Each started child completes at most once, the
  barrier is open exactly when none is left running, and then the parent throws the launch error, else
  the first error observed, else returns the children's values in input order; it never reads an empty slot.
\<close>

theorem when_all_results:
  assumes "\<And>i w. join_same w (snd (mk i w))"
    and "all_launch (collect_start mk ad hs t) [0..<n] (join_init l e k n w) = Some w0"
    and "(join_step mv t False)\<^sup>*\<^sup>* (w0, {..<jn_pending w0}, []) (w', live, log)"
  shows "distinct (map fst log) \<and> set (map fst log) = {..<jn_pending w0} - live \<and>
    (ev_set w' (jn_done w') \<longleftrightarrow> live = {} \<and> 0 < jn_pending w0) \<and>
    (live = {} \<longrightarrow>
      (case jn_error w0 of
         Some x \<Rightarrow> all_result w' = Some (Inl x)
       | None \<Rightarrow> jn_pending w0 = n \<and>
          (case first_error mv log of
             Some x \<Rightarrow> all_result w' = Some (Inl x)
           | None \<Rightarrow> \<exists>vs. all_result w' = Some (Inr vs) \<and> length vs = n \<and> (\<forall>(i, r) \<in> set log. outcome mv r = Inr (vs ! i)))))"
proof -
  note L = all_launch_inv [OF assms(1,2)]
  note I = join_inv_steps [OF assms(3) L(1), unfolded join_inv_def prod.case]
  have "case first_error mv log of Some x \<Rightarrow> all_result w' = Some (Inl x)
      | None \<Rightarrow> \<exists>vs. all_result w' = Some (Inr vs) \<and> length vs = n \<and> (\<forall>(i, r) \<in> set log. outcome mv r = Inr (vs ! i))"
    if "live = {}" "jn_error w0 = None"
  proof (cases "first_error mv log")
    case None
    then have "jn_error w' = None" "distinct (map fst log)" "set (map fst log) = {..<n}" "jn_values w' = map (slot mv log) [0..<n]"
      using I that L(2) by auto
    then show ?thesis using slots_filled [OF None, of n] None by (auto simp: all_result_def)
  next
    case (Some x)
    then show ?thesis using I that by (simp add: all_result_def)
  qed
  moreover have "all_result w' = Some (Inl x)" if "jn_error w0 = Some x" for x
    using I that by (simp add: all_result_def)
  ultimately show ?thesis using I L(2) by (auto split: option.split)
qed

text \<open>C4: \<^verbatim>\<open>when_any\<close>, in whatever order its children finish.  The first completion wins alone and at once
  requests stop of the others; when all have drained the parent throws a startup error (whose handler
  has requested stop too), else exactly the winner's error, else its index and value.
\<close>

theorem when_any_winner:
  assumes "\<And>i w. join_same w (snd (mk i w))"
    and "any_launch (collect_start mk ad hs t) [0..<n] (join_init l e k n w) = Some (startup, w0)" "0 < n"
    and "(join_step mv t True)\<^sup>*\<^sup>* (w0, {..<jn_pending w0}, []) (w', live, log)"
  shows "set (map fst log) = {..<jn_pending w0} - live \<and>
    (ev_set w' (jn_done w') \<longleftrightarrow> live = {} \<and> 0 < jn_pending w0) \<and>
    (log \<noteq> [] \<longrightarrow> stop_flag w' (jn_stop w')) \<and>
    (live = {} \<longrightarrow>
      (case startup of
         Some x \<Rightarrow> stop_flag w0 k \<and> any_result startup w' = Some (Inl x)
       | None \<Rightarrow> set (map fst log) = {..<n} \<and>
           any_result startup w' = Some (case outcome mv (snd (hd log)) of Inl x \<Rightarrow> Inl x | Inr v \<Rightarrow> Inr (fst (hd log), v))))"
proof -
  note L = any_launch_inv [OF assms(1,2)]
  note I = join_inv_steps [OF assms(4) L(1), unfolded join_inv_def prod.case]
  have "any_result startup w' = Some (case outcome mv (snd (hd log)) of Inl x \<Rightarrow> Inl x | Inr v \<Rightarrow> Inr (fst (hd log), v))"
    if "live = {}" "startup = None"
  proof -
    have all: "set (map fst log) = {..<n}" "distinct (map fst log)" using I that L(2) by auto
    then have ne: "log \<noteq> []" using assms(3) by auto
    then have i: "(fst (hd log), snd (hd log)) \<in> set log" "fst (hd log) < n" using all(1) hd_in_set [OF ne] by auto
    have "slot mv log (fst (hd log)) = (case outcome mv (snd (hd log)) of Inl e \<Rightarrow> None | Inr v \<Rightarrow> Some v)"
      using map_of_is_SomeI [OF all(2) i(1)] by (simp add: slot_def)
    then show ?thesis using I ne i(2) that(2) by (auto simp: any_result_def error_of_def split: sum.splits)
  qed
  then show ?thesis using I L by (auto simp: any_result_def split: option.split)
qed

text \<open>The pack versions of the race return what the vector version does.\<close>

lemma fold_select:
  "distinct xs \<Longrightarrow> fold (\<lambda>j out. if i = j then g j else out) xs z = (if i \<in> set xs then g i else z)"
  by (induction xs arbitrary: z) auto

lemma variant_result_same: "variant_result startup w = any_result startup w"
  by (auto simp: variant_result_def any_result_def fold_select split: option.split)

text \<open>A race against a deadline only ever returns the value of the caller's task: the timer's child always fails.\<close>

lemma timeout_value:
  assumes "any_result startup w = Some (Inr (i, v))" "jn_values w = map (slot Inr log) [0..<2]" "map_of log 1 = Some (timeout_child x)"
  shows "i = 0 \<and> timeout_result (any_result startup w) = Some (Inr v)"
proof -
  have "i < 2" "jn_values w ! i = Some v"
    using assms(1,2) by (auto simp: any_result_def split: option.splits if_splits)
  then have "i < 2" "slot Inr log i = Some v" using assms(2) by simp_all
  moreover have "slot Inr log 1 = None" using assms(3) by (simp add: slot_def outcome_def timeout_child_def split: sum.split)
  ultimately have "i = 0" by (cases "i = 1") auto
  then show ?thesis using assms(1) by (simp add: timeout_result_def)
qed

text \<open>Loop 0 and event 0 are fresh; making a child changes nothing; children 0 and 1 yield at 0 and 1.\<close>

definition join_world :: "nat joins" where
  "join_world = events.extend event_world
     \<lparr>jn_owner = 0, jn_done = 0, jn_error = None, jn_stop = 0, jn_pending = 0, jn_winner = None, jn_values = []\<rparr>"

definition make_idle :: "nat \<Rightarrow> nat joins \<Rightarrow> (unit, nat joins) result" where
  "make_idle i w = (Inr (), w)"

definition two_started :: "nat joins" where
  "two_started = (join_init 0 0 7 2 join_world)\<lparr>jn_pending := 2,
     loops := loops (ready_push 0 1 (ready_push 0 0 (join_init 0 0 7 2 join_world))),
     r_next := r_next (ready_push 0 1 (ready_push 0 0 (join_init 0 0 7 2 join_world))),
     op_owner := (op_owner join_world)(0 := 0, 1 := 0), op_handle := (op_handle join_world)(0 := 0, 1 := 1)\<rparr>"

lemmas join_world_simps = join_world_def event_world_def events.defs world.defs world_init_def loop_init_def join_init_def event_init_def
  rq_init_def

lemma two_launch:
  "all_launch (collect_start make_idle (\<lambda>i. i) (\<lambda>i. i) 0) [0..<2] (join_init 0 0 7 2 join_world) = Some two_started"
  "any_launch (collect_start make_idle (\<lambda>i. i) (\<lambda>i. i) 0) [0..<2] (join_init 0 0 7 2 join_world) = Some (None, two_started)"
  by (simp_all add: two_started_def upt_conv_Cons collect_start_def make_idle_def yield_suspend_def loop_check_def join_world_simps
      ready_push_def rq_push_def upd_loop_def)

lemma make_idle_keeps: "join_same w (snd (make_idle i w))"
  by (simp add: make_idle_def join_same_refl)

lemma two_finish:
  "\<exists>w'. (join_step Inr 0 race)\<^sup>*\<^sup>* (two_started, {..<jn_pending two_started}, []) (w', {}, [(1, Inr 11), (0, Inr 10)])"
proof -
  have ok: "barrier_ok 0 two_started" "jn_pending two_started = 2"
    by (auto simp: barrier_ok_def loop_check_def two_started_def ready_push_def rq_push_def upd_loop_def join_world_simps intro: exI [of _ "[]"])
  then obtain w1 where w1: "collect_finish Inr 0 1 race (Inr 11) two_started = Some w1" "jn_pending w1 \<noteq> 0 \<longrightarrow> barrier_ok 0 w1"
    using collect_finish_total by blast
  then have "barrier_ok 0 w1" using collect_finish_fields(3) [OF w1(1)] ok(2) by simp
  then obtain w2 where w2: "collect_finish Inr 0 0 race (Inr 10) w1 = Some w2" using collect_finish_total by blast
  have none: "{..<2} - {1} - {0 :: nat} = {}" by auto
  have "join_step Inr 0 race (two_started, {..<2}, []) (w1, {..<2} - {1}, [] @ [(1, Inr 11)])" using w1 by (intro join_step.finish) simp_all
  moreover have "join_step Inr 0 race (w1, {..<2} - {1}, [] @ [(1, Inr 11)]) (w2, {..<2} - {1} - {0}, ([] @ [(1, Inr 11)]) @ [(0, Inr 10)])"
    using w2 by (intro join_step.finish) simp_all
  ultimately have "(join_step Inr 0 race)\<^sup>*\<^sup>* (two_started, {..<2}, []) (w2, {}, ([] @ [(1, Inr 11)]) @ [(0, Inr 10)])"
    unfolding none by (rule rtranclp.rtrancl_into_rtrancl [OF r_into_rtranclp])
  then show ?thesis using ok(2) by auto
qed

theorem when_all_results_witness:
  "\<exists>w'. (join_step Inr 0 False)\<^sup>*\<^sup>* (two_started, {..<2}, []) (w', {}, [(1, Inr 11), (0, Inr 10)]) \<and> all_result w' = Some (Inr [10, 11])"
proof -
  have p: "jn_pending two_started = 2" "jn_error two_started = None" by (simp_all add: two_started_def)
  obtain w' where w': "(join_step Inr 0 False)\<^sup>*\<^sup>* (two_started, {..<jn_pending two_started}, []) (w', {}, [(1, Inr 11), (0, Inr 10)])"
    using two_finish by blast
  obtain vs where "all_result w' = Some (Inr vs)" "length vs = 2" "vs ! 1 = 11" "vs ! 0 = 10"
    using when_all_results [OF make_idle_keeps two_launch(1) w'] p by (auto simp: outcome_def error_of_def)
  moreover have "vs = [vs ! 0, vs ! 1]" using \<open>length vs = 2\<close> by (intro nth_equalityI) (auto simp: less_Suc_eq numeral_2_eq_2)
  ultimately show ?thesis using w' p by auto
qed

theorem when_any_winner_witness:
  "\<exists>w'. (join_step Inr 0 True)\<^sup>*\<^sup>* (two_started, {..<2}, []) (w', {}, [(1, Inr 11), (0, Inr 10)]) \<and>
     stop_flag w' (jn_stop w') \<and> any_result None w' = Some (Inr (1, 11))"
proof -
  have p: "jn_pending two_started = 2" by (simp add: two_started_def)
  obtain w' where w': "(join_step Inr 0 True)\<^sup>*\<^sup>* (two_started, {..<jn_pending two_started}, []) (w', {}, [(1, Inr 11), (0, Inr 10)])"
    using two_finish by blast
  have "any_result None w' = Some (Inr (1, 11))" "stop_flag w' (jn_stop w')"
    using when_any_winner [OF make_idle_keeps two_launch(2) _ w'] by (simp_all add: outcome_def)
  then show ?thesis using w' p by auto
qed

end
