(* ===== verification/Spawn.thy ===== *)
theory Spawn
  imports Futex
begin

text \<open>
  \<^verbatim>\<open>spawn.hpp\<close>, \<^verbatim>\<open>sync_wait.hpp\<close> and the root tasks and migrations of \<^verbatim>\<open>loop.hpp\<close>: how a task that nobody
  awaits directly is started, where its result goes, and who is released when it ends.
\<close>

subsection \<open>Migration and root tasks\<close>

text \<open>\<^verbatim>\<open>loop::hop\<close>: ready on the destination, otherwise a message to it; its body resumes the handle.\<close>

definition hop_ready :: "loop_id \<Rightarrow> 'z world_scheme \<Rightarrow> thread_id \<Rightarrow> bool" where
  "hop_ready l w t \<longleftrightarrow> current_loop w t = Some l"

definition hop_suspend :: "loop_id \<Rightarrow> addr \<Rightarrow> handle_id \<Rightarrow> 'z world_scheme \<Rightarrow> 'z world_scheme" where
  "hop_suspend l a h w = message_send l a (w\<lparr>op_handle := (op_handle w)(a := h)\<rparr>)"

text \<open>\<^verbatim>\<open>loop::start\<close> up to its yield with awaiter \<open>a\<close>; an error there becomes the root's error.\<close>

definition root_begin :: "thread_id \<Rightarrow> loop_id \<Rightarrow> addr \<Rightarrow> handle_id \<Rightarrow> 'z world_scheme \<Rightarrow> exn option \<times> 'z world_scheme" where
  "root_begin t l a h w =
     (let w1 = upd_loop l (\<lambda>L. L\<lparr>lp_roots := lp_roots L + 1\<rparr>) w in
      case yield_suspend t a h (w1\<lparr>op_owner := (op_owner w1)(a := l)\<rparr>) of
        (Inl e, w2) \<Rightarrow> (Some e, w2)
      | (Inr _, w2) \<Rightarrow> (None, w2))"

text \<open>Its end, back on the loop: keep the first error, stop, and release the root.\<close>

definition root_end :: "loop_id \<Rightarrow> exn option \<Rightarrow> 'z world_scheme \<Rightarrow> 'z world_scheme" where
  "root_end l error w =
     (let w1 = (case error of
                  None \<Rightarrow> w
                | Some e \<Rightarrow>
                    loop_stop l (if lp_error (loops w l) = None then upd_loop l (\<lambda>L. L\<lparr>lp_error := Some e\<rparr>) w else w))
      in upd_loop l (\<lambda>L. L\<lparr>lp_roots := lp_roots L - 1\<rparr>) w1)"

text \<open>\<^verbatim>\<open>loop::spawn\<close>; \<open>task\<close> tells whether the task is not empty.\<close>

definition loop_spawn :: "thread_id \<Rightarrow> loop_id \<Rightarrow> bool \<Rightarrow> addr \<Rightarrow> handle_id \<Rightarrow> 'z world_scheme \<Rightarrow> (exn option, 'z world_scheme) result" where
  "loop_spawn t l task a h w =
     (if \<not> loop_check t l w then (Inl wrong_thread, w)
      else if \<not> task then (Inl (Invalid_Argument ''empty task''), w)
      else (case root_begin t l a h w of (e, w1) \<Rightarrow> (Inr e, w1)))"

subsection \<open>Blocking results\<close>

text \<open>\<^verbatim>\<open>wait_state\<close>: a result and whether it is complete.\<close>

record 'v wait_state =
  ws_done :: bool
  ws_value :: "'v option"
  ws_error :: "exn option"

definition wait_init :: "'v wait_state" where
  "wait_init = \<lparr>ws_done = False, ws_value = None, ws_error = None\<rparr>"

definition wait_store :: "exn + 'v \<Rightarrow> 'v wait_state \<Rightarrow> 'v wait_state" where
  "wait_store r s = (case r of Inl e \<Rightarrow> s\<lparr>ws_error := Some e\<rparr> | Inr v \<Rightarrow> s\<lparr>ws_value := Some v\<rparr>)"

text \<open>\<^verbatim>\<open>wait_task\<close> once the task has ended with \<open>r\<close>.\<close>

definition wait_task :: "exn + 'v \<Rightarrow> 'v wait_state \<Rightarrow> 'v wait_state" where
  "wait_task r s = (wait_store r s)\<lparr>ws_done := True\<rparr>"

text \<open>Consuming a result: the inner \<^const>\<open>None\<close> is an empty optional being moved from.\<close>

definition wait_take :: "'v wait_state \<Rightarrow> (exn + 'v) option" where
  "wait_take s =
     (case ws_error s of Some e \<Rightarrow> Some (Inl e) | None \<Rightarrow> (case ws_value s of None \<Rightarrow> None | Some v \<Rightarrow> Some (Inr v)))"

text \<open>The end of \<^verbatim>\<open>sync_wait\<close>: the outer \<^const>\<open>None\<close> is a thread still blocked on the condition variable.\<close>

definition sync_wait :: "'v wait_state \<Rightarrow> (exn + 'v) option option" where
  "sync_wait s = (if ws_done s then Some (wait_take s) else None)"

subsection \<open>Spawned results\<close>

text \<open>\<^verbatim>\<open>spawn_state\<close>: the atomic \<^verbatim>\<open>complete\<close> (0 or 1) is the word of the futex the joiners wait on.\<close>

record 'v spawned = fut +
  sp_state :: "'v wait_state"

definition spawn_init :: "('v, 'z) spawned_scheme \<Rightarrow> ('v, 'z) spawned_scheme" where
  "spawn_init w = w\<lparr>sp_state := wait_init, fx_value := 0\<rparr>"

text \<open>\<^verbatim>\<open>publish\<close> once the child has ended with \<open>r\<close>.\<close>

definition publish_end :: "exn + 'v \<Rightarrow> ('v, 'z) spawned_scheme \<Rightarrow> ('v, 'z) spawned_scheme option" where
  "publish_end r w =
     (let w1 = w\<lparr>sp_state := wait_store r (sp_state w)\<rparr>;
          w2 = w1\<lparr>sp_state := (sp_state w1)\<lparr>ws_done := True\<rparr>, fx_value := 1\<rparr>
      in futex_notify_all w2)"

text \<open>A \<^verbatim>\<open>join_handle\<close> either refers to the state or is empty.\<close>

definition handle_release :: "bool \<Rightarrow> (unit, bool) result" where
  "handle_release held = (if \<not> held then (Inl (Logic_Error ''empty join handle''), held) else (Inr (), False))"

definition handle_ready :: "bool \<Rightarrow> ('v, 'z) spawned_scheme \<Rightarrow> bool" where
  "handle_ready held w \<longleftrightarrow> held \<and> fx_value w = 1"

definition handle_detach :: "bool \<Rightarrow> bool" where
  "handle_detach held = False"

text \<open>\<^verbatim>\<open>join(owner)\<close> makes a noncancelable awaiter that waits while \<^verbatim>\<open>complete\<close> is false.\<close>

definition handle_join :: "loop_id \<Rightarrow> addr \<Rightarrow> bool \<times> ('v, 'z) spawned_scheme \<Rightarrow> (unit, bool \<times> ('v, 'z) spawned_scheme) result" where
  "handle_join l a = (\<lambda>(held, w).
     case handle_release held of
       (Inl e, held1) \<Rightarrow> (Inl e, (held1, w))
     | (Inr _, held1) \<Rightarrow> (Inr (), (held1, futex_awaiter l a 0 None False w)))"

definition handle_await :: "thread_id \<Rightarrow> addr \<Rightarrow> bool \<times> ('v, 'z) spawned_scheme \<Rightarrow> (unit, bool \<times> ('v, 'z) spawned_scheme) result" where
  "handle_await t a = (\<lambda>(held, w).
     case current_loop w t of
       None \<Rightarrow> (Inl (Logic_Error ''join requires a running loop''), (held, w))
     | Some l \<Rightarrow> handle_join l a (held, w))"

definition join_resume :: "addr \<Rightarrow> ('v, 'z) spawned_scheme \<Rightarrow> (exn + 'v) option" where
  "join_resume a w =
     (case op_error w a of Some e \<Rightarrow> Some (Inl (System_Error e)) | None \<Rightarrow> wait_take (sp_state w))"

text \<open>\<^verbatim>\<open>get\<close>: an error, or what the blocking wait gives.\<close>

definition handle_get :: "thread_id \<Rightarrow> bool \<times> ('v, 'z) spawned_scheme \<Rightarrow> (exn + (exn + 'v) option option) \<times> bool" where
  "handle_get t = (\<lambda>(held, w).
     if current_loop w t \<noteq> None then (Inl (Logic_Error ''blocking join on a loop''), held)
     else case handle_release held of
       (Inl e, held1) \<Rightarrow> (Inl e, held1)
     | (Inr _, held1) \<Rightarrow> (Inr (sync_wait (sp_state w)), held1))"

text \<open>\<^verbatim>\<open>snowy::spawn\<close>: fresh state, then a root that runs the child and publishes.\<close>

definition spawn :: "thread_id \<Rightarrow> loop_id \<Rightarrow> bool \<Rightarrow> addr \<Rightarrow> handle_id \<Rightarrow> ('v, 'z) spawned_scheme \<Rightarrow> (bool, ('v, 'z) spawned_scheme) result" where
  "spawn t l task a h w =
     (if \<not> loop_check t l w then (Inl wrong_thread, w)
      else if \<not> task then (Inl (Invalid_Argument ''empty task''), w)
      else case loop_spawn t l True a h (spawn_init w) of
        (Inl e, w1) \<Rightarrow> (Inl e, w1)
      | (Inr _, w1) \<Rightarrow> (Inr True, w1))"

subsection \<open>Roots\<close>

lemma root_end_fields:
  "lp_error (loops (root_end l x w) l) = (if lp_error (loops w l) = None then x else lp_error (loops w l))"
  "lp_roots (loops (root_end l x w) l) = lp_roots (loops w l) - 1"
  "lp_stopping (loops (root_end l x w) l) = (lp_stopping (loops w l) \<or> x \<noteq> None)"
  by (simp_all add: root_end_def loop_stop_def loop_wake_def upd_loop_def Let_def split: option.split)

text \<open>The loop keeps the error of the first root that failed, stops once one did, and counts the rest.\<close>

lemma root_ends:
  "lp_error (loops (fold (root_end l) xs w) l) =
     (case lp_error (loops w l) of Some e \<Rightarrow> Some e | None \<Rightarrow> hd_opt (List.map_filter id xs))"
  "lp_roots (loops (fold (root_end l) xs w) l) = lp_roots (loops w l) - length xs"
  "lp_stopping (loops (fold (root_end l) xs w) l) = (lp_stopping (loops w l) \<or> (\<exists>x \<in> set xs. x \<noteq> None))"
  by (induction xs arbitrary: w) (auto simp: root_end_fields List.map_filter_def split: option.split)

subsection \<open>Every joiner gets the result\<close>

lemma sp_fields_deliver [simp]: "sp_state (remote_deliver e a (w :: ('v, 'z) spawned_scheme)) = sp_state w"
  by (simp add: remote_deliver_def message_send_def loop_wake_def upd_loop_def set_error_def remote_unlink_def Let_def
      split: prod.split)

lemma sp_fields_deliver_list [simp]: "sp_state (deliver_list e xs (w :: ('v, 'z) spawned_scheme)) = sp_state w"
  unfolding deliver_list_def by (induction xs arbitrary: w) auto

text \<open>When no queued waiter is canceled, \<^verbatim>\<open>notify_all\<close> delivers to all of them in order.\<close>

lemma notify_all_live:
  assumes "waiting_rep w xs ms" "\<And>a. a \<in> set xs \<Longrightarrow> \<not> remote_dead w a"
  shows "futex_notify_all w = Some (deliver_list None xs w)"
  using assms
proof (induction xs arbitrary: w ms)
  case Nil
  then show ?case using remote_front_total [OF Nil(1)] by (subst futex_notify_all.simps) (simp add: deliver_list_def)
next
  case (Cons a xs)
  have "waiting_rep (remote_deliver None a w) xs (ms(op_owner w a := ms (op_owner w a) @ [a]))"
    using waiting_rep_deliver [OF Cons.prems(1), of a None] by simp
  from Cons.IH [OF this] have "futex_notify_all (remote_deliver None a w) = Some (deliver_list None xs (remote_deliver None a w))"
    using Cons.prems(2) by simp
  moreover have "remote_front w = Some (Some a, w)"
    using remote_front_total [OF Cons.prems(1)] Cons.prems(2) by (simp add: deliver_list_def)
  ultimately show ?case by (subst futex_notify_all.simps) (simp add: deliver_list_def)
qed

lemma wait_store_take: "ws_value s = None \<Longrightarrow> ws_error s = None \<Longrightarrow> wait_take ((wait_store r s)\<lparr>ws_done := b\<rparr>) = Some r"
  by (simp add: wait_take_def wait_store_def split: sum.split)

lemma sync_wait_result: "sync_wait (wait_task r wait_init) = Some (Some r)"
  by (simp add: sync_wait_def wait_task_def wait_store_take) (simp add: wait_init_def wait_take_def wait_store_def split: sum.split)


text \<open>A spawned child nobody waits for yet, with an otherwise idle loop.\<close>

definition spawn_world :: "nat spawned" where
  "spawn_world = fut.extend fut_zero \<lparr>sp_state = wait_init\<rparr>"


end
