(* ===== verification/Pool.thy ===== *)
theory Pool
  imports Event
begin

text \<open>
  \<^verbatim>\<open>pool.hpp\<close> and \<^verbatim>\<open>pool.cpp\<close>: worker threads that run jobs off the loop.  Critical sections are
  functions on the pool's state, and a step relation interleaves the workers, producers and \<^verbatim>\<open>close\<close>.
\<close>

subsection \<open>The queue\<close>

text \<open>Jobs are numbered by the caller.\<close>

type_synonym job = nat

record pool =
  pl_jobs :: "job list"
  pl_stopping :: bool

definition pool_init :: pool where
  "pool_init = \<lparr>pl_jobs = [], pl_stopping = False\<rparr>"

definition pool_enqueue :: "job \<Rightarrow> pool \<Rightarrow> (unit, pool) result" where
  "pool_enqueue j p =
     (if pl_stopping p then (Inl (Logic_Error ''closed pool''), p) else (Inr (), p\<lparr>pl_jobs := pl_jobs p @ [j]\<rparr>))"

definition pool_stop :: "pool \<Rightarrow> pool" where
  "pool_stop p = p\<lparr>pl_stopping := True\<rparr>"

text \<open>The critical section of \<^verbatim>\<open>work\<close>: blocked, or a job, or nothing left so the thread returns.\<close>

datatype next_job = Blocked | Return | Job job

definition work_next :: "pool \<Rightarrow> next_job \<times> pool" where
  "work_next p =
     (if \<not> (pl_stopping p \<or> pl_jobs p \<noteq> []) then (Blocked, p)
      else case pl_jobs p of [] \<Rightarrow> (Return, p) | j # js \<Rightarrow> (Job j, p\<lparr>pl_jobs := js\<rparr>))"

subsection \<open>Threads\<close>

text \<open>A worker waits for a job, runs one, or has returned.\<close>

datatype worker = Waiting | Busy job | Exited

text \<open>
  The constructor: starting thread \<open>i\<close> may fail (\<open>create\<close>); then \<^verbatim>\<open>close\<close> stops those that started
  before the error is rethrown.
\<close>

fun pool_threads :: "(nat \<Rightarrow> exn option) \<Rightarrow> nat list \<Rightarrow> worker list \<Rightarrow> pool \<Rightarrow> (unit, pool \<times> worker list) result" where
  "pool_threads create [] ts p = (Inr (), (p, ts))"
| "pool_threads create (i # is) ts p =
     (case create i of
        Some e \<Rightarrow> (Inl e, (pool_stop p, ts))
      | None \<Rightarrow> pool_threads create is (ts @ [Waiting]) p)"

definition pool_new :: "(nat \<Rightarrow> exn option) \<Rightarrow> nat \<Rightarrow> (unit, pool \<times> worker list) result" where
  "pool_new create n =
     (if n = 0 then (Inl (Invalid_Argument ''zero pool threads''), (pool_init, []))
      else pool_threads create [0..<n] [] pool_init)"

text \<open>
  A state is the pool, its workers, the jobs accepted and the jobs started, oldest first.
  \<^verbatim>\<open>close\<close> returns when every thread has exited.
\<close>

type_synonym pool_state = "pool \<times> worker list \<times> job list \<times> job list"

inductive worker_step :: "pool_state \<Rightarrow> pool_state \<Rightarrow> bool" where
  take: "i < length ts \<Longrightarrow> ts ! i = Waiting \<Longrightarrow> work_next p = (Job j, p') \<Longrightarrow>
    worker_step (p, ts, acc, started) (p', ts[i := Busy j], acc, started @ [j])"
| leave: "i < length ts \<Longrightarrow> ts ! i = Waiting \<Longrightarrow> work_next p = (Return, p') \<Longrightarrow>
    worker_step (p, ts, acc, started) (p', ts[i := Exited], acc, started)"
| complete: "i < length ts \<Longrightarrow> ts ! i = Busy j \<Longrightarrow> worker_step (p, ts, acc, started) (p, ts[i := Waiting], acc, started)"

inductive queue_step :: "pool_state \<Rightarrow> pool_state \<Rightarrow> bool" where
  worker: "worker_step s s' \<Longrightarrow> queue_step s s'"
| enqueue: "pool_enqueue j p = (Inr (), p') \<Longrightarrow> queue_step (p, ts, acc, started) (p', ts, acc @ [j], started)"
| rejected: "pool_enqueue j p = (Inl e, p') \<Longrightarrow> queue_step (p, ts, acc, started) (p', ts, acc, started)"
| close: "queue_step (p, ts, acc, started) (pool_stop p, ts, acc, started)"

subsection \<open>Running a function\<close>

text \<open>The frame of one \<^verbatim>\<open>pool::run\<close>: its event, the result it waits for and how it reports.\<close>

record 'v pool_runs = events +
  pr_done :: event_id
  pr_value :: "'v option"
  pr_error :: "exn option"

definition run_refused :: "loop_id \<Rightarrow> token_id option \<Rightarrow> ('v, 'z) pool_runs_scheme \<Rightarrow> bool" where
  "run_refused l k w \<longleftrightarrow> stop_requested k w \<or> loop_stopped l w"

text \<open>Up to \<^verbatim>\<open>co_await done.join()\<close>, with awaiter \<open>a\<close>; the queue is handled next to the world.\<close>

definition run_begin :: "thread_id \<Rightarrow> loop_id \<Rightarrow> token_id option \<Rightarrow> event_id \<Rightarrow> addr \<Rightarrow> handle_id \<Rightarrow> job \<Rightarrow>
    ('v, 'z) pool_runs_scheme \<times> pool \<Rightarrow> (bool, ('v, 'z) pool_runs_scheme \<times> pool) result" where
  "run_begin t l k e a h j = (\<lambda>(w, p).
     if \<not> loop_check t l w then (Inl wrong_thread, (w, p))
     else if run_refused l k w then (Inl (System_Error Operation_Canceled), (w, p))
     else (let w1 = (event_init l e w)\<lparr>pr_done := e, pr_value := None, pr_error := None\<rparr> in
           case pool_enqueue j p of
             (Inl x, p1) \<Rightarrow> (Inl x, (w1, p1))
           | (Inr _, p1) \<Rightarrow>
               (case awaiter_suspend t a h (awaiter_init e a None False w1) of (r, w2) \<Rightarrow> (r, (w2, p1)))))"

text \<open>The job: skip the function when canceled, keep its value or exception, then post the wake-up \<open>cb\<close>.\<close>

definition run_job :: "(('v, 'z) pool_runs_scheme \<Rightarrow> ('v, ('v, 'z) pool_runs_scheme) result) \<Rightarrow> loop_id \<Rightarrow> token_id option \<Rightarrow> nat \<Rightarrow>
    ('v, 'z) pool_runs_scheme \<Rightarrow> ('v, 'z) pool_runs_scheme" where
  "run_job fn l k cb w =
     (let w1 = (if run_refused l k w then w
                else case fn w of
                  (Inl x, u) \<Rightarrow> u\<lparr>pr_error := Some x\<rparr>
                | (Inr v, u) \<Rightarrow> u\<lparr>pr_value := Some v\<rparr>)
      in snd (loop_post l (Some cb) w1))"

text \<open>After the await; \<^const>\<open>None\<close> if the empty optional were dereferenced.\<close>

definition run_end :: "loop_id \<Rightarrow> token_id option \<Rightarrow> ('v, 'z) pool_runs_scheme \<Rightarrow> (exn + 'v) option" where
  "run_end l k w =
     (if run_refused l k w then Some (Inl (System_Error Operation_Canceled))
      else case pr_error w of
        Some x \<Rightarrow> Some (Inl x)
      | None \<Rightarrow> (case pr_value w of None \<Rightarrow> None | Some v \<Rightarrow> Some (Inr v)))"

subsection \<open>Draining\<close>

text \<open>A worker that has returned left an empty, stopping pool behind, and it stays so.\<close>

definition queue_inv :: "pool_state \<Rightarrow> bool" where
  "queue_inv = (\<lambda>(p, ts, acc, started).
     acc = started @ pl_jobs p \<and> (\<forall>j. Busy j \<in> set ts \<longrightarrow> j \<in> set started) \<and>
     (Exited \<in> set ts \<longrightarrow> pl_stopping p \<and> pl_jobs p = []))"

inductive_cases worker_stepE: "worker_step (p, ts, acc, started) s'"
inductive_cases queue_stepE: "queue_step (p, ts, acc, started) s'"

lemma set_update: "x \<in> set (ts[i := y]) \<Longrightarrow> x = y \<or> x \<in> set ts"
  using set_update_subset_insert [of ts i y] by auto

lemma worker_step_inv: "worker_step s s' \<Longrightarrow> queue_inv s \<Longrightarrow> queue_inv s'"
  by (induction rule: worker_step.induct)
    (auto simp: queue_inv_def work_next_def split: if_splits list.splits dest!: set_update dest: nth_mem)

lemma queue_step_inv: "queue_step s s' \<Longrightarrow> queue_inv s \<Longrightarrow> queue_inv s'"
proof (induction rule: queue_step.induct)
  case (worker s s')
  then show ?case by (rule worker_step_inv)
qed (auto simp: queue_inv_def pool_enqueue_def pool_stop_def split: if_splits)

lemma queue_steps_inv: "queue_step\<^sup>*\<^sup>* s s' \<Longrightarrow> queue_inv s \<Longrightarrow> queue_inv s'"
  by (induction rule: rtranclp_induct) (auto intro: queue_step_inv)

lemma worker_step_length: "worker_step (p, ts, acc, started) (p', ts', acc', started') \<Longrightarrow> length ts' = length ts"
  by (erule worker_stepE) auto

lemma queue_step_length:
  assumes "queue_step s s'"
  shows "length (fst (snd s')) = length (fst (snd s))"
  using assms by (induction rule: queue_step.induct) (auto elim: worker_step.cases)

lemma queue_steps_length: "queue_step\<^sup>*\<^sup>* s s' \<Longrightarrow> length (fst (snd s')) = length (fst (snd s))"
  by (induction rule: rtranclp_induct) (auto dest: queue_step_length)

text \<open>What is left to do before every worker has returned.\<close>

definition worker_rank :: "worker \<Rightarrow> nat" where
  "worker_rank t = (case t of Waiting \<Rightarrow> 1 | Busy j \<Rightarrow> 2 | Exited \<Rightarrow> 0)"

definition close_rank :: "pool_state \<Rightarrow> nat" where
  "close_rank = (\<lambda>(p, ts, acc, started). 2 * length (pl_jobs p) + sum_list (map worker_rank ts))"

lemma rank_update:
  "i < length ts \<Longrightarrow> sum_list (map worker_rank (ts[i := y])) + worker_rank (ts ! i) = sum_list (map worker_rank ts) + worker_rank y"
  by (induction ts arbitrary: i) (auto simp: nth_Cons split: nat.split)

lemma worker_step_rank:
  assumes "worker_step s s'"
  shows "close_rank s' < close_rank s"
  using assms
proof cases
  case (take i ts p j p' acc started)
  then have "pl_jobs p = j # pl_jobs p'" by (auto simp: work_next_def split: if_splits list.splits)
  then show ?thesis using take rank_update [of i ts "Busy j"] by (simp add: close_rank_def worker_rank_def)
next
  case (leave i ts p p' acc started)
  then have "p' = p" by (auto simp: work_next_def split: if_splits list.splits)
  then show ?thesis using leave rank_update [of i ts Exited] by (simp add: close_rank_def worker_rank_def)
next
  case (complete i ts j p acc started)
  then show ?thesis using rank_update [of i ts Waiting] by (simp add: close_rank_def worker_rank_def)
qed

text \<open>Once stopping, a worker that has not returned can move: no wake-up is missing.\<close>

lemma worker_moves:
  assumes "pl_stopping p" "t \<in> set ts" "t \<noteq> Exited"
  shows "\<exists>s'. worker_step (p, ts, acc, started) s'"
proof -
  obtain i where i: "i < length ts" "ts ! i = t" using assms(2) by (auto simp: in_set_conv_nth)
  show ?thesis
  proof (cases t)
    case Waiting
    obtain x p' where w: "work_next p = (x, p')" by force
    have "x \<noteq> Blocked" using w assms(1) by (auto simp: work_next_def split: list.splits)
    then show ?thesis using i Waiting w worker_step.take worker_step.leave by (cases x) blast+
  next
    case (Busy j)
    then show ?thesis using i worker_step.complete by blast
  qed (use assms(3) in simp)
qed

lemma new_inv: "pool_new create n = (Inr (), (p, ts)) \<Longrightarrow> queue_inv (p, ts, [], []) \<and> length ts = n \<and> 0 < n"
proof -
  have "pool_threads create xs us pool_init = (Inr (), (p, ts)) \<Longrightarrow> set us \<subseteq> {Waiting} \<Longrightarrow>
      p = pool_init \<and> set ts \<subseteq> {Waiting} \<and> length ts = length us + length xs" for xs us
    by (induction xs arbitrary: us) (auto split: option.splits)
  from this [of "[0..<n]" "[]"] show "pool_new create n = (Inr (), (p, ts)) \<Longrightarrow> ?thesis"
    by (auto simp: pool_new_def queue_inv_def pool_init_def split: if_splits)
qed



subsection \<open>The result of a run\<close>

text \<open>What happens between the end of the job and the resumption of the coroutine cannot touch its frame.\<close>

definition run_later :: "('v, 'z) pool_runs_scheme \<Rightarrow> ('v, 'z) pool_runs_scheme \<Rightarrow> bool" where
  "run_later w w' \<longleftrightarrow> pr_value w' = pr_value w \<and> pr_error w' = pr_error w"

text \<open>C24: \<^verbatim>\<open>pool::run\<close> reports its function faithfully and never moves from an empty result: with the job run on
  a fresh frame and anything happening before the coroutine resumes, the run throws
  \<^verbatim>\<open>operation_canceled\<close> if stop was requested by then, and otherwise the function did run and its
  value or exception is the outcome.
\<close>

theorem pool_run_value:
  assumes "pr_value w = None" "pr_error w = None"
    and "\<And>u. pr_value (snd (fn u)) = pr_value u \<and> pr_error (snd (fn u)) = pr_error u"
    and "run_refused l k w \<longrightarrow> run_refused l k w'" "run_later (run_job fn l k cb w) w'"
  shows "run_end l k w' = Some (if run_refused l k w' then Inl (System_Error Operation_Canceled) else fst (fn w))"
proof -
  have post: "pr_value (snd (loop_post l (Some cb) u)) = pr_value u" "pr_error (snd (loop_post l (Some cb) u)) = pr_error u" for u
    by (simp_all add: loop_post_def loop_wake_def upd_loop_def Let_def)
  show ?thesis
  proof (cases "run_refused l k w'")
    case False
    then have "\<not> run_refused l k w" using assms(4) by blast
    moreover obtain x u where fn: "fn w = (x, u)" by force
    moreover have "pr_value u = None" "pr_error u = None" using assms(1,2) assms(3) [of w] fn by auto
    ultimately show ?thesis
      using assms(5) False
      by (auto simp: run_later_def run_job_def run_end_def post Let_def split: prod.splits sum.splits)
  qed (simp add: run_end_def)
qed

definition run_world :: "nat pool_runs" where
  "run_world = events.extend event_world \<lparr>pr_done = 0, pr_value = None, pr_error = None\<rparr>"

theorem pool_run_value_witness:
  "run_end 0 None (run_job (\<lambda>u. (Inr 5, u)) 0 None 3 run_world) = Some (Inr 5)"
proof -
  have w: "pr_value run_world = None" "pr_error run_world = None" "\<not> run_refused 0 None run_world"
    by (simp_all add: run_world_def run_refused_def stop_requested_def loop_stopped_def event_world_simps events.defs)
  have "\<not> run_refused 0 None (run_job (\<lambda>u. (Inr 5, u)) 0 None 3 run_world)"
    using w by (simp add: run_job_def run_refused_def stop_requested_def loop_stopped_def loop_post_def loop_wake_def upd_loop_def Let_def)
  then show ?thesis
    using pool_run_value [OF w(1,2), of "\<lambda>u. (Inr 5, u)" 0 None "run_job (\<lambda>u. (Inr 5, u)) 0 None 3 run_world" 3] w(3)
    by (simp add: run_later_def)
qed

end
