(* ===== verification/Kqueue.thy ===== *)
theory Kqueue
  imports Ports_Props
begin

text \<open>
  \<^verbatim>\<open>kqueue.cpp\<close>: the backend that turns socket readiness into single-shot completions.  The system
  calls are the functions of a record over an unknown kernel state; a negative result is the
  negated \<^verbatim>\<open>errno\<close>.  Loops that retry interrupted calls are partial functions.
\<close>

subsection \<open>Events and system calls\<close>

datatype kfilter = Filt_Read | Filt_Write | Filt_User

text \<open>The changes handed to \<^verbatim>\<open>kevent\<close>: descriptor, filter and the request as user data.\<close>

datatype kchange = Add_User | Trigger_User | Add_Oneshot int kfilter addr | Delete int kfilter

record kevent =
  ke_ident :: int
  ke_filter :: kfilter
  ke_udata :: addr
  ke_error :: bool
  ke_data :: nat

record 'k kq =
  kq_queue :: "'k \<Rightarrow> int \<times> 'k"
  kq_change :: "int \<Rightarrow> kchange \<Rightarrow> 'k \<Rightarrow> int \<times> 'k"
  kq_wait :: "int \<Rightarrow> (int \<times> int) option \<Rightarrow> 'k \<Rightarrow> (int + kevent list) \<times> 'k"
  kq_close :: "int \<Rightarrow> 'k \<Rightarrow> 'k"
  kq_recv :: "int \<Rightarrow> nat \<Rightarrow> nat \<Rightarrow> 'k \<Rightarrow> int \<times> 'k"
  kq_send :: "int \<Rightarrow> nat \<Rightarrow> nat \<Rightarrow> 'k \<Rightarrow> int \<times> 'k"
  kq_accept :: "int \<Rightarrow> 'k \<Rightarrow> int \<times> 'k"
  kq_recvmsg :: "int \<Rightarrow> nat \<Rightarrow> nat \<Rightarrow> nat \<Rightarrow> 'k \<Rightarrow> int \<times> (endpoint option \<times> nat \<times> bool) \<times> 'k"
  kq_sendmsg :: "int \<Rightarrow> nat \<Rightarrow> nat \<Rightarrow> endpoint option \<Rightarrow> nat \<Rightarrow> 'k \<Rightarrow> int \<times> 'k"
  kq_connect :: "int \<Rightarrow> endpoint option \<Rightarrow> nat \<Rightarrow> 'k \<Rightarrow> int \<times> 'k"
  kq_sockerr :: "int \<Rightarrow> 'k \<Rightarrow> int \<times> int \<times> 'k"

text \<open>The error numbers of the BSDs and macOS.\<close>

definition BSD_ENOENT :: int where "BSD_ENOENT = 2"
definition BSD_EINTR :: int where "BSD_EINTR = 4"
definition BSD_EAGAIN :: int where "BSD_EAGAIN = 35"
definition BSD_EINPROGRESS :: int where "BSD_EINPROGRESS = 36"

text \<open>The kernel, the queue of each loop and \<^verbatim>\<open>io::started\<close>.\<close>

record ('o, 'k) kworld = "'o ports" +
  kn :: 'k
  kq_fd :: "loop_id \<Rightarrow> int"
  io_started :: "addr \<Rightarrow> bool"

text \<open>\<^verbatim>\<open>do ... while (r < 0 && errno == EINTR)\<close> around one call.\<close>

partial_function (option) retry :: "('k \<Rightarrow> int \<times> 'x \<times> 'k) \<Rightarrow> 'k \<Rightarrow> (int \<times> 'x \<times> 'k) option" where
  "retry f k = (case f k of (r, x, k1) \<Rightarrow> if r = - BSD_EINTR then retry f k1 else Some (r, x, k1))"

definition plain :: "('k \<Rightarrow> int \<times> 'k) \<Rightarrow> 'k \<Rightarrow> int \<times> unit \<times> 'k" where
  "plain f k = (case f k of (r, k1) \<Rightarrow> (r, (), k1))"

definition kq_apply :: "'k kq \<Rightarrow> loop_id \<Rightarrow> kchange \<Rightarrow> ('o, 'k, 'z) kworld_scheme \<Rightarrow> (int \<times> ('o, 'k, 'z) kworld_scheme) option" where
  "kq_apply K l c w =
     (case retry (plain (kq_change K (kq_fd w l) c)) (kn w) of
        None \<Rightarrow> None
      | Some (r, _, k1) \<Rightarrow> Some (r, w\<lparr>kn := k1\<rparr>))"

subsection \<open>The driver\<close>

definition kq_open :: "'k kq \<Rightarrow> loop_id \<Rightarrow> ('o, 'k, 'z) kworld_scheme \<Rightarrow> (unit, ('o, 'k, 'z) kworld_scheme) result" where
  "kq_open K l w =
     (case kq_queue K (kn w) of (q, k1) \<Rightarrow>
        if q < 0 then (Inl (sys_exn q), w\<lparr>kn := k1\<rparr>)
        else (case kq_change K q Add_User k1 of (r, k2) \<Rightarrow>
                if r < 0 then (Inl (sys_exn r), w\<lparr>kn := kq_close K q k2\<rparr>)
                else (Inr (), w\<lparr>kn := k2, kq_fd := (kq_fd w)(l := q)\<rparr>)))"

definition kq_destroy :: "'k kq \<Rightarrow> loop_id \<Rightarrow> ('o, 'k, 'z) kworld_scheme \<Rightarrow> ('o, 'k, 'z) kworld_scheme option" where
  "kq_destroy K l w =
     (let L = loops w l in
      if lp_running L \<or> lp_roots L \<noteq> 0 \<or> lp_io L \<noteq> None \<or> lp_waits L \<noteq> None \<or> lp_holds L \<noteq> 0 \<or> \<not> rq_empty (lp_messages L) \<or>
         lp_timers L \<noteq> [] \<or> \<not> rq_empty (lp_ready L) then None
      else Some (w\<lparr>kn := kq_close K (kq_fd w l) (kn w)\<rparr>))"

text \<open>\<^verbatim>\<open>wake\<close>; the inner \<^const>\<open>None\<close> is \<^verbatim>\<open>std::terminate\<close>.\<close>

definition kq_wake :: "'k kq \<Rightarrow> loop_id \<Rightarrow> ('o, 'k, 'z) kworld_scheme \<Rightarrow> ('o, 'k, 'z) kworld_scheme option option" where
  "kq_wake K l w =
     (case kq_apply K l Trigger_User w of None \<Rightarrow> None | Some (r, w1) \<Rightarrow> Some (if r < 0 then None else Some w1))"

definition kq_filter :: "opcode \<Rightarrow> kfilter" where
  "kq_filter c = (if c = Op_Read \<or> c = Op_Accept \<or> c = Op_Recv_From then Filt_Read else Filt_Write)"

text \<open>\<^verbatim>\<open>loop::complete\<close> without the hook that only Linux has.\<close>

definition kq_complete :: "loop_id \<Rightarrow> addr \<Rightarrow> 'z world_scheme \<Rightarrow> 'z world_scheme" where
  "kq_complete l a w = loop_finish l a (io_unlink l a w)"

text \<open>The \<^verbatim>\<open>switch\<close> of \<^verbatim>\<open>submit\<close>: the result of the call, and the request with the state it leaves.\<close>

definition kq_attempt :: "'k kq \<Rightarrow> addr \<Rightarrow> ('o, 'k, 'z) kworld_scheme \<Rightarrow> (int \<times> ('o, 'k, 'z) kworld_scheme) option" where
  "kq_attempt K a w =
     (let fd = io_fd w a; buf = io_buf w a; n = io_size w a;
          simple = (\<lambda>f. case retry (plain f) (kn w) of None \<Rightarrow> None | Some (r, _, k1) \<Rightarrow> Some (r, w\<lparr>kn := k1\<rparr>)) in
      case io_code w a of
        Op_Read \<Rightarrow> simple (kq_recv K fd buf n)
      | Op_Write \<Rightarrow> simple (kq_send K fd buf n)
      | Op_Accept \<Rightarrow> simple (kq_accept K fd)
      | Op_Send_To \<Rightarrow> simple (kq_sendmsg K fd buf n (io_peer w a) (io_addr_size w a))
      | Op_Recv_From \<Rightarrow>
          (case retry (kq_recvmsg K fd buf n (io_addr_size w a)) (kn w) of
             None \<Rightarrow> None
           | Some (r, (from, len, trunc), k1) \<Rightarrow>
               (let w1 = w\<lparr>kn := k1, io_peer := (io_peer w)(a := from)\<rparr> in
                if r < 0 then Some (r, w1)
                else Some (r, set_error a (if trunc then Some Message_Size else op_error w1 a)
                       (w1\<lparr>io_addr_size := (io_addr_size w1)(a := len)\<rparr>))))
      | Op_Connect \<Rightarrow>
          (if \<not> io_started w a
           then (case kq_connect K fd (io_peer w a) (io_addr_size w a) (kn w) of
                   (r, k1) \<Rightarrow> Some (r, w\<lparr>kn := k1, io_started := (io_started w)(a := True)\<rparr>))
           else (case kq_sockerr K fd (kn w) of
                   (r, err, k1) \<Rightarrow> Some (if r = 0 \<and> err \<noteq> 0 then - err else r, w\<lparr>kn := k1\<rparr>)))
      | _ \<Rightarrow> Some (0, w))"

text \<open>\<^verbatim>\<open>submit\<close>, also called again when a filter fires.\<close>

definition kq_submit :: "'k kq \<Rightarrow> loop_id \<Rightarrow> addr \<Rightarrow> ('o, 'k, 'z) kworld_scheme \<Rightarrow> ('o, 'k, 'z) kworld_scheme option" where
  "kq_submit K l a w =
     (if io_code w a = Op_File_Read \<or> io_code w a = Op_File_Write \<or> io_code w a = Op_File_Sync
      then Some (kq_complete l a (set_error a (Some Operation_Not_Supported) w))
      else case kq_attempt K a w of
        None \<Rightarrow> None
      | Some (r, w1) \<Rightarrow>
          if r \<ge> 0
          then Some (kq_complete l a
                 (if io_code w1 a = Op_Accept then w1\<lparr>io_accepted := (io_accepted w1)(a := r)\<rparr>
                  else w1\<lparr>io_bytes := (io_bytes w1)(a := nat r)\<rparr>))
          else if r = - BSD_EAGAIN \<or> r = - BSD_EINPROGRESS \<or> r = - BSD_EINTR \<and> io_code w1 a = Op_Connect
          then (case kq_apply K l (Add_Oneshot (io_fd w1 a) (kq_filter (io_code w1 a)) a) w1 of
                  None \<Rightarrow> None
                | Some (q, w2) \<Rightarrow>
                    Some (if q < 0 then kq_complete l a (set_error a (Some (Errno (nat (- q)))) w2) else w2))
          else Some (kq_complete l a (set_error a (Some (Errno (nat (- r)))) w1)))"

definition kq_cancel :: "'k kq \<Rightarrow> loop_id \<Rightarrow> addr \<Rightarrow> ('o, 'k, 'z) kworld_scheme \<Rightarrow> (unit, ('o, 'k, 'z) kworld_scheme) result option" where
  "kq_cancel K l a w =
     (case kq_apply K l (Delete (io_fd w a) (kq_filter (io_code w a))) w of
        None \<Rightarrow> None
      | Some (r, w1) \<Rightarrow>
          Some (if r < 0 \<and> r \<noteq> - BSD_ENOENT then (Inl (sys_exn r), w1)
                else (Inr (), kq_complete l a (set_error a (Some Operation_Canceled)
                       (w1\<lparr>io_cancel_sent := (io_cancel_sent w1)(a := True)\<rparr>)))))"

text \<open>The timeout of a poll as seconds and nanoseconds.\<close>

definition kq_timeout :: "int \<Rightarrow> (int \<times> int) option" where
  "kq_timeout delay = (if delay \<ge> 0 then Some (delay div 1000000000, delay mod 1000000000) else None)"

fun kq_events :: "'k kq \<Rightarrow> loop_id \<Rightarrow> kevent list \<Rightarrow> ('o, 'k, 'z) kworld_scheme \<Rightarrow> ('o, 'k, 'z) kworld_scheme option" where
  "kq_events K l [] w = Some w"
| "kq_events K l (e # es) w =
     (if ke_filter e = Filt_User then kq_events K l es w
      else if ke_error e
        then kq_events K l es (kq_complete l (ke_udata e) (set_error (ke_udata e) (Some (Errno (ke_data e))) w))
      else case kq_submit K l (ke_udata e) w of None \<Rightarrow> None | Some w1 \<Rightarrow> kq_events K l es w1)"

definition kq_poll :: "'k kq \<Rightarrow> loop_id \<Rightarrow> int \<Rightarrow> ('o, 'k, 'z) kworld_scheme \<Rightarrow> (unit, ('o, 'k, 'z) kworld_scheme) result option" where
  "kq_poll K l delay w =
     (case kq_wait K (kq_fd w l) (kq_timeout delay) (kn w) of
        (Inl r, k1) \<Rightarrow> Some (if r = - BSD_EINTR then (Inr (), w\<lparr>kn := k1\<rparr>) else (Inl (sys_exn r), w\<lparr>kn := k1\<rparr>))
      | (Inr es, k1) \<Rightarrow> (case kq_events K l es (w\<lparr>kn := k1\<rparr>) of None \<Rightarrow> None | Some w1 \<Rightarrow> Some (Inr (), w1)))"

subsection \<open>What the kernel promises\<close>

text \<open>
  The filters a kernel state has armed, by queue, descriptor and filter, with their user data.  A
  successful change has the documented effect and a failed one none; socket calls do not touch
  filters; a wait reports armed one-shot filters, each once, and disarms exactly those.
\<close>

type_synonym armed_map = "int \<times> int \<times> kfilter \<Rightarrow> addr option"

fun change_effect :: "int \<Rightarrow> kchange \<Rightarrow> armed_map \<Rightarrow> armed_map" where
  "change_effect q (Add_Oneshot fd f a) m = m((q, fd, f) := Some a)"
| "change_effect q (Delete fd f) m = m((q, fd, f) := None)"
| "change_effect q Add_User m = m"
| "change_effect q Trigger_User m = m"

definition socket_events :: "kevent list \<Rightarrow> kevent list" where
  "socket_events es = filter (\<lambda>e. ke_filter e \<noteq> Filt_User) es"

definition event_key :: "int \<Rightarrow> kevent \<Rightarrow> int \<times> int \<times> kfilter" where
  "event_key q e = (q, ke_ident e, ke_filter e)"

definition change_spec :: "'k kq \<Rightarrow> ('k \<Rightarrow> armed_map) \<Rightarrow> bool" where
  "change_spec K arm \<longleftrightarrow>
     (\<forall>q c k r k'. kq_change K q c k = (r, k') \<longrightarrow> arm k' = (if r < 0 then arm k else change_effect q c (arm k)) \<and>
        (\<forall>fd f. c = Delete fd f \<and> r = - BSD_ENOENT \<longrightarrow> arm k (q, fd, f) = None))"

definition call_spec :: "'k kq \<Rightarrow> ('k \<Rightarrow> armed_map) \<Rightarrow> bool" where
  "call_spec K arm \<longleftrightarrow>
     (\<forall>fd buf n x len k. arm (snd (kq_recv K fd buf n k)) = arm k \<and> arm (snd (kq_send K fd buf n k)) = arm k \<and>
        arm (snd (kq_accept K fd k)) = arm k \<and> arm (snd (snd (kq_recvmsg K fd buf n len k))) = arm k \<and>
        arm (snd (kq_sendmsg K fd buf n x len k)) = arm k \<and> arm (snd (kq_connect K fd x len k)) = arm k \<and>
        arm (snd (snd (kq_sockerr K fd k))) = arm k)"

definition wait_spec :: "'k kq \<Rightarrow> ('k \<Rightarrow> armed_map) \<Rightarrow> bool" where
  "wait_spec K arm \<longleftrightarrow>
     (\<forall>q t k x k'. kq_wait K q t k = (x, k') \<longrightarrow>
        (case x of
           Inl r \<Rightarrow> arm k' = arm k
         | Inr es \<Rightarrow>
             distinct (map (event_key q) (socket_events es)) \<and>
             (\<forall>e \<in> set (socket_events es). arm k (event_key q e) = Some (ke_udata e)) \<and>
             arm k' = (\<lambda>x. if x \<in> event_key q ` set (socket_events es) then None else arm k x)))"

text \<open>Signals interrupt a call finitely often: each interruption uses up some of a supply \<open>sig\<close>.\<close>

definition calms :: "('k \<Rightarrow> nat) \<Rightarrow> ('k \<Rightarrow> int \<times> 'x \<times> 'k) \<Rightarrow> bool" where
  "calms sig f \<longleftrightarrow> (\<forall>k. fst (f k) = - BSD_EINTR \<longrightarrow> sig (snd (snd (f k))) < sig k)"

definition kq_calms :: "'k kq \<Rightarrow> ('k \<Rightarrow> nat) \<Rightarrow> bool" where
  "kq_calms K sig \<longleftrightarrow>
     (\<forall>q c fd buf n x len. calms sig (plain (kq_change K q c)) \<and> calms sig (plain (kq_recv K fd buf n)) \<and> calms sig (plain (kq_send K fd buf n)) \<and>
        calms sig (plain (kq_accept K fd)) \<and> calms sig (kq_recvmsg K fd buf n len) \<and> calms sig (plain (kq_sendmsg K fd buf n x len)))"

definition kq_spec :: "'k kq \<Rightarrow> ('k \<Rightarrow> armed_map) \<Rightarrow> ('k \<Rightarrow> nat) \<Rightarrow> bool" where
  "kq_spec K arm sig \<longleftrightarrow> change_spec K arm \<and> call_spec K arm \<and> wait_spec K arm \<and> kq_calms K sig"

subsection \<open>Retried calls\<close>

lemma retry_total:
  assumes "calms sig f"
  shows "\<exists>r x k'. retry f k = Some (r, x, k') \<and> r \<noteq> - BSD_EINTR"
proof (induction "sig k" arbitrary: k rule: less_induct)
  case less
  obtain r x k1 where f: "f k = (r, x, k1)" by (metis prod_cases3)
  show ?case
  proof (cases "r = - BSD_EINTR")
    case True
    then have "sig k1 < sig k" using assms f unfolding calms_def by (metis fst_conv snd_conv)
    from less [OF this] show ?thesis using f True by (subst retry.simps) simp
  next
    case False
    then show ?thesis using f by (subst retry.simps) simp
  qed
qed

text \<open>The last attempt starts in a state with whatever interrupted attempts keep.\<close>

lemma retry_last:
  assumes "retry f k = Some y" and "\<And>k. P k \<Longrightarrow> fst (f k) = - BSD_EINTR \<Longrightarrow> P (snd (snd (f k)))" and "P k"
  shows "\<exists>k0. P k0 \<and> f k0 = y"
  using assms
proof (induction rule: retry.raw_induct [rotated, consumes 1, case_names step])
  case (step g f k y)
  obtain r x k1 where f: "f k = (r, x, k1)" by (metis prod_cases3)
  show ?case
  proof (cases "r = - BSD_EINTR")
    case True
    then have "P k1" using step(3) [OF step(4)] f by simp
    with step(1) [OF _ step(3) this] step(2) f True show ?thesis by simp
  next
    case False
    then show ?thesis using step f by auto
  qed
qed

text \<open>A change that is retried has the effect of one change: interrupted attempts fail and so have none.\<close>

lemma apply_effect:
  assumes "change_spec K arm" "kq_apply K l c w = Some (r, w1)"
  shows "w1 = w\<lparr>kn := kn w1\<rparr>" "arm (kn w1) = (if r < 0 then arm (kn w) else change_effect (kq_fd w l) c (arm (kn w)))"
    "c = Delete fd f \<Longrightarrow> r = - BSD_ENOENT \<Longrightarrow> arm (kn w) (kq_fd w l, fd, f) = None"
proof -
  let ?f = "plain (kq_change K (kq_fd w l) c)"
  obtain u k1 where r: "retry ?f (kn w) = Some (r, u, k1)" "w1 = w\<lparr>kn := k1\<rparr>"
    using assms(2) by (auto simp: kq_apply_def split: option.splits)
  have one: "arm (snd (snd (?f k))) = (if fst (?f k) < 0 then arm k else change_effect (kq_fd w l) c (arm k)) \<and>
      (\<forall>fd f. c = Delete fd f \<and> fst (?f k) = - BSD_ENOENT \<longrightarrow> arm k (kq_fd w l, fd, f) = None)" for k
    using assms(1) unfolding change_spec_def by (auto simp: plain_def split: prod.split)
  have "\<exists>k0. arm k0 = arm (kn w) \<and> ?f k0 = (r, u, k1)"
    by (rule retry_last [OF r(1)]) (use one in \<open>auto simp: BSD_EINTR_def\<close>)
  then obtain k0 where k0: "arm k0 = arm (kn w)" "?f k0 = (r, u, k1)" by blast
  show "w1 = w\<lparr>kn := kn w1\<rparr>" using r(2) by simp
  show "arm (kn w1) = (if r < 0 then arm (kn w) else change_effect (kq_fd w l) c (arm (kn w)))"
    using one [of k0] k0 r(2) by simp
  show "c = Delete fd f \<Longrightarrow> r = - BSD_ENOENT \<Longrightarrow> arm (kn w) (kq_fd w l, fd, f) = None"
    using one [of k0] k0 by simp
qed

lemma apply_total:
  assumes "kq_calms K sig"
  shows "\<exists>r w1. kq_apply K l c w = Some (r, w1)"
  using retry_total [of sig "plain (kq_change K (kq_fd w l) c)" "kn w"] assms by (auto simp: kq_apply_def kq_calms_def)

subsection \<open>Armed filters are the pending requests\<close>

text \<open>
  The filters armed on the loop's queue are exactly those of the requests in \<open>A\<close>: no pending request
  is forgotten by the kernel, and no filter points to a request whose frame may be gone.
\<close>

definition request_key :: "('o, 'k, 'z) kworld_scheme \<Rightarrow> addr \<Rightarrow> int \<times> kfilter" where
  "request_key w a = (io_fd w a, kq_filter (io_code w a))"

definition kq_exact :: "('k \<Rightarrow> armed_map) \<Rightarrow> ('o, 'k, 'z) kworld_scheme \<Rightarrow> loop_id \<Rightarrow> addr set \<Rightarrow> bool" where
  "kq_exact arm w l A \<longleftrightarrow>
     (\<forall>fd f a. f \<noteq> Filt_User \<longrightarrow> (arm (kn w) (kq_fd w l, fd, f) = Some a \<longleftrightarrow> a \<in> A \<and> request_key w a = (fd, f)))"

text \<open>What the backend's operations leave of the requests and of the loop.\<close>

definition kq_same :: "('o, 'k, 'z) kworld_scheme \<Rightarrow> ('o, 'k, 'z) kworld_scheme \<Rightarrow> bool" where
  "kq_same w w' \<longleftrightarrow> kq_fd w' = kq_fd w \<and> io_fd w' = io_fd w \<and> io_code w' = io_code w"

lemma kq_same_refl: "kq_same w w"
  by (simp add: kq_same_def)

lemma kq_same_trans: "kq_same u v \<Longrightarrow> kq_same v w \<Longrightarrow> kq_same u w"
  by (simp add: kq_same_def)

lemma request_key_same: "kq_same w w' \<Longrightarrow> request_key w' = request_key w"
  by (simp add: kq_same_def request_key_def fun_eq_iff)

lemma kq_exact_same: "kq_same w w' \<Longrightarrow> arm (kn w') = arm (kn w) \<Longrightarrow> kq_exact arm w' l A = kq_exact arm w l A"
  by (simp add: kq_exact_def request_key_same) (simp add: kq_same_def)

lemma kq_filter_socket [simp]: "kq_filter c \<noteq> Filt_User"
  by (simp add: kq_filter_def)

lemma complete_same: "kq_same w (kq_complete l a w)" "kn (kq_complete l a (w :: ('o, 'k, 'z) kworld_scheme)) = kn w"
  by (simp_all add: kq_same_def kq_complete_def loop_finish_def io_unlink_def callback_reset_def ready_push_def upd_loop_def Let_def
      split: prod.split option.split)

lemma set_error_same: "kq_same w (set_error a e w)" "kn (set_error a e (w :: ('o, 'k, 'z) kworld_scheme)) = kn w"
  by (simp_all add: kq_same_def set_error_def)

lemma complete_rep:
  assumes "loop_rep w l {} rs ts ws ns" "a \<in> set ns"
  shows "loop_rep (kq_complete l a w) l {} (rs @ [a]) ts ws (remove1 a ns)"
  using rep_finish [OF rep_io_unlink [OF assms]] by (simp add: kq_complete_def)

text \<open>An attempt only touches the request's own result fields and the kernel.\<close>

definition kq_quiet :: "('k \<Rightarrow> armed_map) \<Rightarrow> ('o, 'k, 'z) kworld_scheme \<Rightarrow> ('o, 'k, 'z) kworld_scheme \<Rightarrow> bool" where
  "kq_quiet arm w w' \<longleftrightarrow> kq_same w w' \<and> arm (kn w') = arm (kn w) \<and>
     (\<forall>l rs ts ws ns. loop_rep w l {} rs ts ws ns \<longrightarrow> loop_rep w' l {} rs ts ws ns)"

lemma quiet_fields:
  assumes "arm k' = arm (kn w)"
  shows "kq_quiet arm w (w\<lparr>kn := k'\<rparr>)" "kq_quiet arm w (w\<lparr>kn := k', io_peer := x\<rparr>)"
    "kq_quiet arm w (set_error a e (w\<lparr>kn := k', io_peer := x, io_addr_size := y\<rparr>))"
    "kq_quiet arm w (w\<lparr>kn := k', io_started := z\<rparr>)"
  using assms by (auto simp: kq_quiet_def kq_same_def set_error_def elim!: loop_rep_cong)

lemma quiet_results:
  "kq_quiet arm w (w\<lparr>io_accepted := x\<rparr>)" "kq_quiet arm w (w\<lparr>io_bytes := y\<rparr>)" "kq_quiet arm w (set_error a e w)"
  "kq_quiet arm w (w\<lparr>io_cancel_sent := z\<rparr>)"
  by (auto simp: kq_quiet_def kq_same_def set_error_def elim!: loop_rep_cong)

lemma quiet_trans: "kq_quiet arm u v \<Longrightarrow> kq_quiet arm v w \<Longrightarrow> kq_quiet arm u w"
  by (auto simp: kq_quiet_def intro: kq_same_trans)

lemma retry_call:
  assumes "calms sig f" "\<And>k. arm (snd (snd (f k))) = arm k"
  shows "\<exists>r x k'. retry f k = Some (r, x, k') \<and> arm k' = arm k"
proof -
  obtain r x k' where r: "retry f k = Some (r, x, k')" using retry_total [OF assms(1)] by blast
  obtain k0 where "arm k0 = arm k" "f k0 = (r, x, k')"
    using retry_last [OF r, of "\<lambda>j. arm j = arm k"] assms(2) by auto
  then show ?thesis using r assms(2) [of k0] by auto
qed

lemma retry_plain:
  assumes "calms sig (plain f)" "\<And>k. arm (snd (f k)) = arm k"
  shows "\<exists>r k'. retry (plain f) k = Some (r, (), k') \<and> arm k' = arm k"
proof -
  have "arm (snd (snd (plain f j))) = arm j" for j using assms(2) [of j] by (cases "f j") (simp add: plain_def)
  then show ?thesis using retry_call [OF assms(1), where arm = arm and k = k] by auto
qed

lemma attempt_total:
  assumes "call_spec K arm" "kq_calms K sig"
  shows "\<exists>r w1. kq_attempt K a w = Some (r, w1) \<and> kq_quiet arm w w1"
proof -
  have s: "\<exists>r k'. retry (plain (kq_recv K x y n)) (kn w) = Some (r, (), k') \<and> arm k' = arm (kn w)"
    "\<exists>r k'. retry (plain (kq_send K x y n)) (kn w) = Some (r, (), k') \<and> arm k' = arm (kn w)"
    "\<exists>r k'. retry (plain (kq_accept K x)) (kn w) = Some (r, (), k') \<and> arm k' = arm (kn w)"
    "\<exists>r k'. retry (plain (kq_sendmsg K x y n p len)) (kn w) = Some (r, (), k') \<and> arm k' = arm (kn w)" for x y n p len
    using assms by (intro retry_plain [where sig = sig]; auto simp: call_spec_def kq_calms_def)+
  have m: "\<exists>r z k'. retry (kq_recvmsg K x y n len) (kn w) = Some (r, z, k') \<and> arm k' = arm (kn w)" for x y n len
    using assms by (intro retry_call [where sig = sig]) (auto simp: call_spec_def kq_calms_def)
  have c: "arm (snd (kq_connect K x p n (kn w))) = arm (kn w)" "arm (snd (snd (kq_sockerr K x (kn w)))) = arm (kn w)" for x p n
    using assms(1) by (auto simp: call_spec_def)
  show ?thesis
  proof (cases "io_code w a")
    case Op_Recv_From
    obtain r peer len trunc k' where "retry (kq_recvmsg K (io_fd w a) (io_buf w a) (io_size w a) (io_addr_size w a)) (kn w) = Some (r, (peer, len, trunc), k')"
      "arm k' = arm (kn w)" using m by (metis prod_cases3)
    then show ?thesis using Op_Recv_From by (auto simp: kq_attempt_def Let_def intro: quiet_fields)
  next
    case Op_Connect
    obtain r k' where "kq_connect K (io_fd w a) (io_peer w a) (io_addr_size w a) (kn w) = (r, k')" by force
    moreover obtain q err j where "kq_sockerr K (io_fd w a) (kn w) = (q, err, j)" by (metis prod_cases3)
    ultimately show ?thesis using Op_Connect c [of "io_fd w a"]
      by (auto simp: kq_attempt_def Let_def intro!: quiet_fields) (metis snd_conv)+
  next
    case Op_Read
    then show ?thesis using s(1) [of "io_fd w a" "io_buf w a" "io_size w a"] by (auto simp: kq_attempt_def Let_def intro: quiet_fields)
  next
    case Op_Write
    then show ?thesis using s(2) [of "io_fd w a" "io_buf w a" "io_size w a"] by (auto simp: kq_attempt_def Let_def intro: quiet_fields)
  next
    case Op_Accept
    then show ?thesis using s(3) [of "io_fd w a"] by (auto simp: kq_attempt_def Let_def intro: quiet_fields)
  next
    case Op_Send_To
    then show ?thesis using s(4) [of "io_fd w a" "io_buf w a" "io_size w a" "io_peer w a" "io_addr_size w a"]
      by (auto simp: kq_attempt_def Let_def intro: quiet_fields)
  qed (use quiet_fields(1) [of arm "kn w" w] in \<open>auto simp: kq_attempt_def\<close>)
qed

lemma complete_done:
  assumes "kq_quiet arm w w1" "loop_rep w l {} rs ts ws ns" "a \<in> set ns" "kq_exact arm w l A"
  shows "kq_same w (kq_complete l a w1)" "loop_rep (kq_complete l a w1) l {} (rs @ [a]) ts ws (remove1 a ns)"
    "kq_exact arm (kq_complete l a w1) l A"
proof -
  have q: "kq_same w w1" "arm (kn w1) = arm (kn w)" "loop_rep w1 l {} rs ts ws ns"
    using assms(1,2) by (auto simp: kq_quiet_def)
  show "kq_same w (kq_complete l a w1)" using kq_same_trans [OF q(1) complete_same(1)] .
  then show "kq_exact arm (kq_complete l a w1) l A" using kq_exact_same [of w _ arm l A] q(2) assms(4) by (simp add: complete_same(2))
  show "loop_rep (kq_complete l a w1) l {} (rs @ [a]) ts ws (remove1 a ns)" by (rule complete_rep [OF q(3) assms(3)])
qed

lemma exact_key:
  assumes "kq_exact arm w l A" "a \<in> A"
  shows "arm (kn w) (kq_fd w l, io_fd w a, kq_filter (io_code w a)) = Some a"
  using assms(1) [unfolded kq_exact_def, rule_format, OF kq_filter_socket, of "io_fd w a" "io_code w a" a] assms(2)
  by (simp add: request_key_def)

lemma exact_add:
  assumes "kq_exact arm w l A" "a \<notin> A" "\<forall>b \<in> A. request_key w b \<noteq> request_key w a"
    and "arm k = change_effect (kq_fd w l) (Add_Oneshot (io_fd w a) (kq_filter (io_code w a)) a) (arm (kn w))"
  shows "kq_exact arm (w\<lparr>kn := k\<rparr>) l (insert a A)"
  using assms by (auto simp: kq_exact_def request_key_def)

lemma exact_delete:
  assumes "kq_exact arm w l A" "a \<in> A"
    and "arm k = change_effect (kq_fd w l) (Delete (io_fd w a) (kq_filter (io_code w a))) (arm (kn w))"
  shows "kq_exact arm (w\<lparr>kn := k\<rparr>) l (A - {a})"
proof -
  have "arm (kn w) (kq_fd w l, io_fd w a, kq_filter (io_code w a)) = Some b \<longleftrightarrow> b = a" for b
    using exact_key [OF assms(1,2)] by auto
  then show ?thesis using assms unfolding kq_exact_def request_key_def by auto
qed

lemma submit_exact:
  assumes spec: "kq_spec K arm sig" and rep: "loop_rep w l {} rs ts ws ns" and a: "a \<in> set ns" "a \<notin> A"
    and ex: "kq_exact arm w l A" and inj: "\<forall>b \<in> A. request_key w b \<noteq> request_key w a"
  shows "\<exists>w'. kq_submit K l a w = Some w' \<and> kq_same w w' \<and>
    (loop_rep w' l {} (rs @ [a]) ts ws (remove1 a ns) \<and> kq_exact arm w' l A \<or>
     loop_rep w' l {} rs ts ws ns \<and> kq_exact arm w' l (insert a A))"
proof -
  have K: "change_spec K arm" "call_spec K arm" "kq_calms K sig" using spec by (simp_all add: kq_spec_def)
  obtain r w1 where w1: "kq_attempt K a w = Some (r, w1)" "kq_quiet arm w w1" using attempt_total [OF K(2,3)] by blast
  have q: "kq_same w w1" "arm (kn w1) = arm (kn w)" "loop_rep w1 l {} rs ts ws ns" "kq_exact arm w1 l A"
    using w1(2) rep ex kq_exact_same [of w w1 arm l A] by (auto simp: kq_quiet_def)
  note fin = complete_done [OF _ rep a(1) ex]
  have err: "kq_quiet arm w (set_error a e w1)" for e using quiet_trans [OF w1(2) quiet_results(3)] .
  show ?thesis
  proof (cases "io_code w a \<in> {Op_File_Read, Op_File_Write, Op_File_Sync} \<or> 0 \<le> r \<or>
      \<not> (r = - BSD_EAGAIN \<or> r = - BSD_EINPROGRESS \<or> r = - BSD_EINTR \<and> io_code w1 a = Op_Connect)")
    case True
    have "\<exists>w2. kq_submit K l a w = Some (kq_complete l a w2) \<and> kq_quiet arm w w2"
      using True w1 err quiet_results(3) [of arm w a] quiet_trans [OF w1(2) quiet_results(1)] quiet_trans [OF w1(2) quiet_results(2)]
      by (auto simp: kq_submit_def)
    then show ?thesis using fin by blast
  next
    case False
    obtain x w2 where w2: "kq_apply K l (Add_Oneshot (io_fd w1 a) (kq_filter (io_code w1 a)) a) w1 = Some (x, w2)"
      using apply_total [OF K(3)] by blast
    note e = apply_effect(1,2) [OF K(1) w2]
    have sub: "kq_submit K l a w = Some (if x < 0 then kq_complete l a (set_error a (Some (Errno (nat (- x)))) w2) else w2)"
      using False w1 w2 by (auto simp: kq_submit_def)
    show ?thesis
    proof (cases "x < 0")
      case True
      then have "kq_quiet arm w1 w2" using e quiet_fields(1) [of arm "kn w2" w1] by simp
      then have "kq_quiet arm w (set_error a (Some (Errno (nat (- x)))) w2)"
        using quiet_trans [OF w1(2)] quiet_trans [OF _ quiet_results(3)] by blast
      then show ?thesis using fin sub True by auto
    next
      case ok: False
      have "kq_exact arm (w1\<lparr>kn := kn w2\<rparr>) l (insert a A)"
        using e(2) ok inj by (intro exact_add [OF q(4) a(2)]) (simp_all add: request_key_same [OF q(1)])
      moreover have "loop_rep (w1\<lparr>kn := kn w2\<rparr>) l {} rs ts ws ns" by (rule loop_rep_cong [OF q(3)]) simp_all
      moreover have "kq_same w (w1\<lparr>kn := kn w2\<rparr>)" using q(1) by (simp add: kq_same_def)
      ultimately show ?thesis using e(1) sub ok by auto
    qed
  qed
qed

text \<open>A cancellation disarms the filter before the request completes.\<close>

lemma cancel_exact:
  assumes spec: "kq_spec K arm sig" and rep: "loop_rep w l {} rs ts ws ns" and a: "a \<in> set ns" and ex: "kq_exact arm w l (set ns)"
  shows "\<exists>r w'. kq_cancel K l a w = Some (r, w') \<and>
    (r = Inr () \<and> loop_rep w' l {} (rs @ [a]) ts ws (remove1 a ns) \<and> kq_exact arm w' l (set ns - {a}) \<or>
     r \<noteq> Inr () \<and> loop_rep w' l {} rs ts ws ns \<and> kq_exact arm w' l (set ns))"
proof -
  have K: "change_spec K arm" "kq_calms K sig" using spec by (simp_all add: kq_spec_def)
  let ?c = "Delete (io_fd w a) (kq_filter (io_code w a))"
  obtain x w1 where w1: "kq_apply K l ?c w = Some (x, w1)" using apply_total [OF K(2)] by blast
  note e = apply_effect [OF K(1) w1]
  have "x \<noteq> - BSD_ENOENT" using e(3) [OF refl] exact_key [OF ex a] by auto
  have rep1: "loop_rep w1 l {} rs ts ws ns" by (subst e(1)) (rule loop_rep_cong [OF rep], simp_all)
  show ?thesis
  proof (cases "x < 0")
    case True
    have "kq_exact arm w1 l (set ns)"
      by (subst e(1), subst kq_exact_same [of w]) (use e(2) True ex in \<open>simp_all add: kq_same_def\<close>)
    then show ?thesis using w1 True \<open>x \<noteq> - BSD_ENOENT\<close> rep1 by (simp add: kq_cancel_def)
  next
    case False
    have "kq_exact arm (w\<lparr>kn := kn w1\<rparr>) l (set ns - {a})" using e(2) False by (intro exact_delete [OF ex a]) simp
    then have ex1: "kq_exact arm w1 l (set ns - {a})" using e(1) by simp
    have "kq_quiet arm w1 (set_error a (Some Operation_Canceled) (w1\<lparr>io_cancel_sent := (io_cancel_sent w1)(a := True)\<rparr>))"
      using quiet_trans [OF quiet_results(4) quiet_results(3)] .
    from complete_done(2,3) [OF this rep1 a ex1] show ?thesis using w1 False by (simp add: kq_cancel_def)
  qed
qed

text \<open>So a cancellation is what the scheduler asks of a backend.\<close>

lemma kq_cancel_ok:
  assumes "kq_calms K sig"
  shows "cancel_ok l (\<lambda>a (w :: ('o, 'k, 'z) kworld_scheme). the (kq_cancel K l a w))"
  unfolding cancel_ok_def
proof (intro allI impI)
  fix w :: "('o, 'k, 'z) kworld_scheme" and rs ts ws ns a
  assume rep: "loop_rep w l {} rs ts ws ns \<and> a \<in> set ns"
  obtain x w1 where w1: "kq_apply K l (Delete (io_fd w a) (kq_filter (io_code w a))) w = Some (x, w1)" using apply_total [OF assms] by blast
  then have "\<exists>k. w1 = w\<lparr>kn := k\<rparr>" by (auto simp: kq_apply_def split: option.splits)
  then have rep1: "loop_rep w1 l {} rs ts ws ns" using rep by (auto elim!: loop_rep_cong)
  let ?u = "set_error a (Some Operation_Canceled) (w1\<lparr>io_cancel_sent := (io_cancel_sent w1)(a := True)\<rparr>)"
  have "loop_rep ?u l {} rs ts ws ns" by (rule loop_rep_cong [OF rep1]) (simp_all add: set_error_def)
  from complete_rep [OF this] rep have "loop_rep (kq_complete l a ?u) l {} (rs @ [a]) ts ws (remove1 a ns)" by blast
  then show "\<exists>rs'. loop_rep (snd (the (kq_cancel K l a w))) l {} rs' ts ws ns \<or> loop_rep (snd (the (kq_cancel K l a w))) l {} rs' ts ws (remove1 a ns)"
    using rep1 w1 by (auto simp: kq_cancel_def)
qed

lemma kq_expire:
  assumes "kq_calms K sig" "hook_ok l (env_hook env)" "env_cancel env = (\<lambda>a (w :: ('o, 'k, 'z) kworld_scheme). the (kq_cancel K l a w))" "loop_inv w l"
  shows "\<exists>r w'. loop_expire env l w = Some (r, w') \<and> loop_inv w' l"
  using backend.expire_returns [OF backend.intro [OF kq_cancel_ok [OF assms(1)]] assms(2-4)] by blast

subsection \<open>A poll\<close>

definition event_requests :: "kevent list \<Rightarrow> addr list" where
  "event_requests es = map ke_udata (socket_events es)"

lemma event_requests_simps [simp]:
  "event_requests [] = []"
  "event_requests (e # es) = (if ke_filter e = Filt_User then event_requests es else ke_udata e # event_requests es)"
  by (simp_all add: event_requests_def socket_events_def)

text \<open>The state while events are processed: filters of the fired requests that are left are not armed.\<close>

definition firing :: "('k \<Rightarrow> armed_map) \<Rightarrow> loop_id \<Rightarrow> addr list \<Rightarrow> addr list \<Rightarrow> addr list \<Rightarrow> addr list \<Rightarrow> addr list \<Rightarrow> ('o, 'k, 'z) kworld_scheme \<Rightarrow> bool" where
  "firing arm l rs ts ws ns fs w \<longleftrightarrow>
     loop_rep w l {} rs ts ws ns \<and> distinct fs \<and> set fs \<subseteq> set ns \<and> inj_on (request_key w) (set ns) \<and> kq_exact arm w l (set ns - set fs)"

lemma firing_distinct: "firing arm l rs ts ws ns fs w \<Longrightarrow> distinct ns"
  using loop_repD(6) [of w l "{}" rs ts ws ns] by (simp add: firing_def)

lemma firing_completed:
  assumes "firing arm l rs ts ws ns (a # fs) w" "kq_same w w'"
    and "loop_rep w' l {} (rs @ [a]) ts ws (remove1 a ns)" "kq_exact arm w' l (set ns - set (a # fs))"
  shows "firing arm l (rs @ [a]) ts ws (remove1 a ns) fs w'"
proof -
  have n: "set (remove1 a ns) = set ns - {a}" using firing_distinct [OF assms(1)] by simp
  then have "set (remove1 a ns) - set fs = set ns - set (a # fs)" by auto
  moreover have "inj_on (request_key w) (set (remove1 a ns))"
    using assms(1) n by (auto simp: firing_def intro: inj_on_subset)
  ultimately show ?thesis
    using assms n by (auto simp: firing_def request_key_same [OF assms(2)])
qed

lemma firing_armed:
  assumes "firing arm l rs ts ws ns (a # fs) w" "kq_same w w'"
    and "loop_rep w' l {} rs ts ws ns" "kq_exact arm w' l (insert a (set ns - set (a # fs)))"
  shows "firing arm l rs ts ws ns fs w'"
proof -
  have "insert a (set ns - set (a # fs)) = set ns - set fs" using assms(1) by (auto simp: firing_def)
  then show ?thesis using assms by (auto simp: firing_def request_key_same [OF assms(2)])
qed

text \<open>Processing the first event completes its request or arms its filter again.\<close>

lemma event_first:
  assumes spec: "kq_spec K arm sig" and fire: "firing arm l rs ts ws ns (event_requests (e # es)) w" and e: "ke_filter e \<noteq> Filt_User"
  shows "\<exists>w'. kq_events K l (e # es) w = kq_events K l es w' \<and>
    (firing arm l (rs @ [ke_udata e]) ts ws (remove1 (ke_udata e) ns) (event_requests es) w' \<and> ke_udata e \<in> set ns \<or>
     firing arm l rs ts ws ns (event_requests es) w')"
proof -
  let ?a = "ke_udata e"
  have f: "firing arm l rs ts ws ns (?a # event_requests es) w" using fire e by simp
  have F: "loop_rep w l {} rs ts ws ns" "?a \<in> set ns" "?a \<notin> set ns - set (?a # event_requests es)"
    "kq_exact arm w l (set ns - set (?a # event_requests es))" "inj_on (request_key w) (set ns)"
    using f by (auto simp: firing_def)
  show ?thesis
  proof (cases "ke_error e")
    case True
    note c = complete_done [OF quiet_results(3) F(1,2,4), of ?a "Some (Errno (ke_data e))"]
    show ?thesis using firing_completed [OF f c(1,2,3)] True e F(2) by (intro exI) auto
  next
    case False
    have "\<forall>b \<in> set ns - set (?a # event_requests es). request_key w b \<noteq> request_key w ?a"
      using F(2,5) by (auto dest: inj_onD)
    from submit_exact [OF spec F(1-4) this] obtain w' where w': "kq_submit K l ?a w = Some w'" "kq_same w w'"
      "loop_rep w' l {} (rs @ [?a]) ts ws (remove1 ?a ns) \<and> kq_exact arm w' l (set ns - set (?a # event_requests es)) \<or>
       loop_rep w' l {} rs ts ws ns \<and> kq_exact arm w' l (insert ?a (set ns - set (?a # event_requests es)))" by blast
    then have "firing arm l (rs @ [?a]) ts ws (remove1 ?a ns) (event_requests es) w' \<or> firing arm l rs ts ws ns (event_requests es) w'"
      using firing_completed [OF f w'(2)] firing_armed [OF f w'(2)] by blast
    then show ?thesis using w'(1) False e F(2) by (intro exI [of _ w']) auto
  qed
qed

lemma events_exact:
  assumes spec: "kq_spec K arm sig" and "firing arm l rs ts ws ns (event_requests es) w"
  shows "\<exists>w' ns'. kq_events K l es w = Some w' \<and> set ns - set (event_requests es) \<subseteq> set ns' \<and> set ns' \<subseteq> set ns \<and>
    loop_rep w' l {} (rs @ filter (\<lambda>a. a \<notin> set ns') (event_requests es)) ts ws ns' \<and> kq_exact arm w' l (set ns')"
  using assms(2)
proof (induction es arbitrary: w rs ns)
  case Nil
  then show ?case by (auto simp: firing_def)
next
  case (Cons e es)
  show ?case
  proof (cases "ke_filter e = Filt_User")
    case True
    then show ?thesis using Cons by simp
  next
    case False
    let ?a = "ke_udata e"
    obtain w1 where w1: "kq_events K l (e # es) w = kq_events K l es w1"
      "firing arm l (rs @ [?a]) ts ws (remove1 ?a ns) (event_requests es) w1 \<and> ?a \<in> set ns \<or> firing arm l rs ts ws ns (event_requests es) w1"
      using event_first [OF spec Cons.prems False] by blast
    have d: "distinct ns" "?a \<in> set ns" "?a \<notin> set (event_requests es)"
      using firing_distinct [OF Cons.prems] Cons.prems False by (auto simp: firing_def)
    from w1(2) show ?thesis
    proof
      assume "firing arm l (rs @ [?a]) ts ws (remove1 ?a ns) (event_requests es) w1 \<and> ?a \<in> set ns"
      from Cons.IH [OF this [THEN conjunct1]] obtain w' ns' where
        "kq_events K l es w1 = Some w'" "set (remove1 ?a ns) - set (event_requests es) \<subseteq> set ns'" "set ns' \<subseteq> set (remove1 ?a ns)"
        "loop_rep w' l {} ((rs @ [?a]) @ filter (\<lambda>a. a \<notin> set ns') (event_requests es)) ts ws ns'" "kq_exact arm w' l (set ns')" by blast
      then show ?thesis using w1(1) d False by (intro exI [of _ w'] exI [of _ ns']) auto
    next
      assume "firing arm l rs ts ws ns (event_requests es) w1"
      from Cons.IH [OF this] obtain w' ns' where
        "kq_events K l es w1 = Some w'" "set ns - set (event_requests es) \<subseteq> set ns'" "set ns' \<subseteq> set ns"
        "loop_rep w' l {} (rs @ filter (\<lambda>a. a \<notin> set ns') (event_requests es)) ts ws ns'" "kq_exact arm w' l (set ns')" by blast
      then show ?thesis using w1(1) d False by (intro exI [of _ w'] exI [of _ ns']) auto
    qed
  qed
qed

text \<open>The events a wait reports are those of distinct pending requests.\<close>

lemma wait_fires:
  assumes "wait_spec K arm" "loop_rep w l {} rs ts ws ns" "kq_exact arm w l (set ns)"
    and "kq_wait K (kq_fd w l) t (kn w) = (Inr es, k)"
  shows "firing arm l rs ts ws ns (event_requests es) (w\<lparr>kn := k\<rparr>)"
proof -
  let ?q = "kq_fd w l" and ?s = "socket_events es"
  have W: "distinct (map (event_key ?q) ?s)" "\<forall>e \<in> set ?s. arm (kn w) (event_key ?q e) = Some (ke_udata e)"
    "arm k = (\<lambda>x. if x \<in> event_key ?q ` set ?s then None else arm (kn w) x)"
    using assms(1,4) unfolding wait_spec_def by (fastforce split: sum.splits)+
  have key: "ke_udata e \<in> set ns" "event_key ?q e = (?q, request_key w (ke_udata e))" if "e \<in> set ?s" for e
    using W(2) that assms(3) by (auto simp: kq_exact_def event_key_def socket_events_def)
  have "distinct (map ke_udata ?s)"
    using W(1) key(2) unfolding distinct_map by (metis (no_types, lifting) inj_on_def)
  moreover have "inj_on (request_key w) (set ns)"
    using exact_key [OF assms(3)] by (intro inj_onI) (metis option.inject prod.inject request_key_def)
  moreover have "kq_exact arm (w\<lparr>kn := k\<rparr>) l (set ns - set (event_requests es))"
    unfolding kq_exact_def
  proof (intro allI impI)
    fix fd f a
    assume f: "f \<noteq> Filt_User"
    have old: "arm (kn w) (?q, fd, f) = Some a \<longleftrightarrow> a \<in> set ns \<and> request_key w a = (fd, f)"
      using assms(3) f by (auto simp: kq_exact_def)
    have fired: "(?q, fd, f) \<in> event_key ?q ` set ?s \<longleftrightarrow> a \<in> set (event_requests es)" if "a \<in> set ns" "request_key w a = (fd, f)"
    proof
      assume "(?q, fd, f) \<in> event_key ?q ` set ?s"
      then obtain e where e: "e \<in> set ?s" "event_key ?q e = (?q, fd, f)" by auto
      then show "a \<in> set (event_requests es)" using W(2) old that by (auto simp: event_requests_def)
    next
      assume "a \<in> set (event_requests es)"
      then obtain e where e: "e \<in> set ?s" "ke_udata e = a" by (auto simp: event_requests_def)
      then show "(?q, fd, f) \<in> event_key ?q ` set ?s" using key(2) [OF e(1)] that by (metis image_eqI)
    qed
    show "arm (kn (w\<lparr>kn := k\<rparr>)) (kq_fd (w\<lparr>kn := k\<rparr>) l, fd, f) = Some a \<longleftrightarrow>
        a \<in> set ns - set (event_requests es) \<and> request_key (w\<lparr>kn := k\<rparr>) a = (fd, f)"
      using old fired W(3) by (auto simp: request_key_def)
  qed
  moreover have "loop_rep (w\<lparr>kn := k\<rparr>) l {} rs ts ws ns" by (rule loop_rep_cong [OF assms(2)]) simp_all
  ultimately show ?thesis using key(1) by (auto simp: firing_def event_requests_def request_key_def inj_on_def)
qed

text \<open>C6: a poll of the kqueue backend keeps the kernel and the loop in step.  As long as the kernel behaves as
  documented, a poll returns; each request whose filter fired is either completed, once and in event
  order, or armed again, all others are left alone, and afterwards the armed filters are again
  exactly those of the pending requests, so nobody is forgotten and no filter dangles.
\<close>

theorem kq_poll_exact:
  assumes "kq_spec K arm sig" "loop_rep w l {} rs ts ws ns" "kq_exact arm w l (set ns)"
    and "kq_wait K (kq_fd w l) (kq_timeout delay) (kn w) = (Inr es, k)"
  shows "\<exists>w' ns'. kq_poll K l delay w = Some (Inr (), w') \<and> set ns - set (event_requests es) \<subseteq> set ns' \<and> set ns' \<subseteq> set ns \<and>
    loop_rep w' l {} (rs @ filter (\<lambda>a. a \<notin> set ns') (event_requests es)) ts ws ns' \<and> kq_exact arm w' l (set ns')"
proof -
  have "wait_spec K arm" using assms(1) by (simp add: kq_spec_def)
  from events_exact [OF assms(1) wait_fires [OF this assms(2-4)]] obtain w' ns' where
    e: "kq_events K l es (w\<lparr>kn := k\<rparr>) = Some w'" "set ns - set (event_requests es) \<subseteq> set ns'" "set ns' \<subseteq> set ns"
      "loop_rep w' l {} (rs @ filter (\<lambda>a. a \<notin> set ns') (event_requests es)) ts ws ns'" "kq_exact arm w' l (set ns')" by blast
  have "kq_poll K l delay w = Some (Inr (), w')" using e(1) assms(4) by (simp add: kq_poll_def)
  then show ?thesis using e(2-5) by blast
qed

text \<open>A kernel that reports one chosen filter as ready when it is armed and then delivers five bytes.\<close>

type_synonym small_kernel = "armed_map \<times> (int \<times> kfilter) option"

definition ready_event :: "int \<Rightarrow> small_kernel \<Rightarrow> (int + kevent list) \<times> small_kernel" where
  "ready_event q = (\<lambda>(m, p).
     case p of
       None \<Rightarrow> (Inr [], (m, None))
     | Some (fd, f) \<Rightarrow>
         (case m (q, fd, f) of
            None \<Rightarrow> (Inr [], (m, None))
          | Some a \<Rightarrow>
              if f = Filt_User then (Inr [], (m, None))
              else (Inr [\<lparr>ke_ident = fd, ke_filter = f, ke_udata = a, ke_error = False, ke_data = 0\<rparr>], (m((q, fd, f) := None), None))))"

definition small_kq :: "small_kernel kq" where
  "small_kq =
     \<lparr>kq_queue = (\<lambda>k. (3, k)), kq_change = (\<lambda>q c (m, p). (0, (change_effect q c m, p))), kq_wait = (\<lambda>q t. ready_event q),
      kq_close = (\<lambda>q k. k), kq_recv = (\<lambda>fd buf n k. (5, k)), kq_send = (\<lambda>fd buf n k. (- BSD_EAGAIN, k)),
      kq_accept = (\<lambda>fd k. (- BSD_EAGAIN, k)), kq_recvmsg = (\<lambda>fd buf n len k. (- BSD_EAGAIN, (None, 0, False), k)),
      kq_sendmsg = (\<lambda>fd buf n x len k. (- BSD_EAGAIN, k)), kq_connect = (\<lambda>fd x len k. (- BSD_EINPROGRESS, k)),
      kq_sockerr = (\<lambda>fd k. (0, 0, k))\<rparr>"

lemma small_kq_spec: "kq_spec small_kq fst (\<lambda>k. 0)"
proof -
  have "change_spec small_kq fst" by (auto simp: change_spec_def small_kq_def BSD_ENOENT_def)
  moreover have "call_spec small_kq fst" by (simp add: call_spec_def small_kq_def)
  moreover have "wait_spec small_kq fst"
    by (auto simp: wait_spec_def small_kq_def ready_event_def socket_events_def event_key_def fun_eq_iff split: option.splits if_splits prod.splits)
  moreover have "kq_calms small_kq (\<lambda>k. 0)"
    by (auto simp: kq_calms_def calms_def plain_def small_kq_def BSD_EINTR_def BSD_EAGAIN_def split: prod.splits)
  ultimately show ?thesis by (simp add: kq_spec_def)
qed

text \<open>Loop 0 with a read on descriptor 9 pending at 2, armed on queue 3 and about to become ready.\<close>

definition kq_world :: "(unit, small_kernel) kworld" where
  "kq_world = ports.extend
     (events.extend (event_world\<lparr>loops := (loops event_world)(0 := (loop_init 0)\<lparr>lp_io := Some 2\<rparr>), op_active := (\<lambda>a. False)(2 := True),
        io_code := (\<lambda>a. Op_Read)\<rparr>)
       \<lparr>os = (), io_fd = (\<lambda>a. 9), io_buf = (\<lambda>a. 0), io_offset = (\<lambda>a. 0), io_peer = (\<lambda>a. None), io_addr_size = (\<lambda>a. 0),
        io_accepted = (\<lambda>a. -1), io_bytes = (\<lambda>a. 0), sk_loop = (\<lambda>s. 0), sk_fd = (\<lambda>s. 9), fl_loop = (\<lambda>f. 0), fl_fd = (\<lambda>f. -1), fl_active = (\<lambda>f. 0)\<rparr>)
     \<lparr>kn = ((\<lambda>x. None)((3, 9, Filt_Read) := Some 2), Some (9, Filt_Read)), kq_fd = (\<lambda>l. 3), io_started = (\<lambda>a. False)\<rparr>"

lemmas kq_world_simps = kq_world_def ports.defs events.defs event_world_simps

theorem kq_poll_exact_witness:
  "\<exists>w' ns'. kq_poll small_kq 0 (-1) kq_world = Some (Inr (), w') \<and> set ns' \<subseteq> {2} \<and>
     loop_rep w' 0 {} (filter (\<lambda>a. a \<notin> set ns') [2]) [] [] ns' \<and> kq_exact fst w' 0 (set ns')"
proof -
  have rep: "loop_rep kq_world 0 {} [] [] [] [2]"
    by (auto simp: kq_world_simps loop_rep_def rq_rep_def dll_def is_heap_def)
  have ex: "kq_exact fst kq_world 0 (set [2])"
    by (auto simp: kq_exact_def request_key_def kq_filter_def kq_world_simps)
  have "kq_wait small_kq (kq_fd kq_world 0) (kq_timeout (-1)) (kn kq_world) =
      (Inr [\<lparr>ke_ident = 9, ke_filter = Filt_Read, ke_udata = 2, ke_error = False, ke_data = 0\<rparr>], (\<lambda>x. None, None))"
    by (simp add: small_kq_def ready_event_def kq_world_simps fun_eq_iff)
  from kq_poll_exact [OF small_kq_spec rep ex this] show ?thesis by simp
qed

end
