(* ===== verification/Iocp.thy ===== *)
theory Iocp
  imports Ports_Props
begin

text \<open>
  \<^verbatim>\<open>iocp.cpp\<close>: the Windows backend on completion ports.  System calls are the functions of a record over
  the unknown state of a loop's port; a result of 0 is success and anything else the error code.
\<close>

subsection \<open>Calls\<close>

definition WSA_OPERATION_ABORTED :: nat where "WSA_OPERATION_ABORTED = 995"
definition ERROR_IO_PENDING :: nat where "ERROR_IO_PENDING = 997"
definition WSAEMSGSIZE :: nat where "WSAEMSGSIZE = 10040"
definition ERROR_HANDLE_EOF :: nat where "ERROR_HANDLE_EOF = 38"
definition ERROR_NOT_FOUND :: nat where "ERROR_NOT_FOUND = 1168"
definition WAIT_TIMEOUT :: nat where "WAIT_TIMEOUT = 258"
definition INFINITE :: "32 word" where "INFINITE = - 1"

text \<open>The calls that take an \<^verbatim>\<open>OVERLAPPED\<close>, with their arguments.\<close>

datatype win_call =
    Read_File int nat nat "32 word" "32 word"
  | Write_File int nat nat "32 word" "32 word"
  | Wsa_Recv int nat nat
  | Wsa_Send int nat nat
  | Wsa_Recv_From int nat nat
  | Wsa_Send_To int nat nat "endpoint option" nat
  | Accept_Ex int int
  | Connect_Ex int "endpoint option" nat

datatype extension = Ext_Accept | Ext_Connect

text \<open>A dequeued packet: its request, if it has one, the bytes and whether its status is an error.\<close>

record entry =
  en_request :: "addr option"
  en_bytes :: nat
  en_internal :: bool

record 'k iocp =
  ic_startup :: "'k \<Rightarrow> nat \<times> 'k"
  ic_create :: "'k \<Rightarrow> nat \<times> 'k"
  ic_cleanup :: "'k \<Rightarrow> 'k"
  ic_close :: "'k \<Rightarrow> 'k"
  ic_attach :: "int \<Rightarrow> 'k \<Rightarrow> nat \<times> 'k"
  ic_post :: "addr option \<Rightarrow> 'k \<Rightarrow> nat \<times> 'k"
  ic_overlapped :: "win_call \<Rightarrow> addr \<Rightarrow> 'k \<Rightarrow> nat \<times> 'k"
  ic_sockname :: "int \<Rightarrow> 'k \<Rightarrow> nat \<times> nat"
  ic_extension :: "int \<Rightarrow> extension \<Rightarrow> 'k \<Rightarrow> nat"
  ic_socket :: "nat \<Rightarrow> 'k \<Rightarrow> (nat + int) \<times> 'k"
  ic_bind :: "int \<Rightarrow> nat \<Rightarrow> nat \<Rightarrow> 'k \<Rightarrow> nat \<times> 'k"
  ic_cancel :: "int \<Rightarrow> addr \<Rightarrow> 'k \<Rightarrow> nat \<times> 'k"
  ic_wait :: "nat \<Rightarrow> 32 word \<Rightarrow> 'k \<Rightarrow> (nat + entry list) \<times> 'k"
  ic_file_result :: "int \<Rightarrow> addr \<Rightarrow> 'k \<Rightarrow> nat"
  ic_wsa_result :: "int \<Rightarrow> addr \<Rightarrow> 'k \<Rightarrow> nat"
  ic_update_accept :: "int \<Rightarrow> int \<Rightarrow> 'k \<Rightarrow> nat \<times> 'k"
  ic_update_connect :: "int \<Rightarrow> 'k \<Rightarrow> nat \<times> 'k"

text \<open>The port of each loop.\<close>

record ('o, 'k) iworld = "'o ports" +
  port :: "loop_id \<Rightarrow> 'k"

definition set_port :: "loop_id \<Rightarrow> 'k \<Rightarrow> ('o, 'k, 'z) iworld_scheme \<Rightarrow> ('o, 'k, 'z) iworld_scheme" where
  "set_port l k w = w\<lparr>port := (port w)(l := k)\<rparr>"

definition win_exn :: "nat \<Rightarrow> exn" where
  "win_exn e = System_Error (Errno e)"

subsection \<open>The driver\<close>

definition iocp_open :: "'k iocp \<Rightarrow> 'k \<Rightarrow> (unit, 'k) result" where
  "iocp_open I k =
     (case ic_startup I k of (r, k1) \<Rightarrow>
        if r \<noteq> 0 then (Inl (win_exn r), k1)
        else (case ic_create I k1 of (e, k2) \<Rightarrow>
                if e \<noteq> 0 then (Inl (win_exn e), ic_cleanup I k2) else (Inr (), k2)))"

definition iocp_destroy :: "'k iocp \<Rightarrow> loop_id \<Rightarrow> ('o, 'k, 'z) iworld_scheme \<Rightarrow> ('o, 'k, 'z) iworld_scheme option" where
  "iocp_destroy I l w =
     (let L = loops w l in
      if lp_running L \<or> lp_roots L \<noteq> 0 \<or> lp_io L \<noteq> None \<or> lp_waits L \<noteq> None \<or> lp_holds L \<noteq> 0 \<or> \<not> rq_empty (lp_messages L) \<or>
         lp_timers L \<noteq> [] \<or> \<not> rq_empty (lp_ready L) then None
      else Some (set_port l (ic_cleanup I (ic_close I (port w l))) w))"

text \<open>\<^verbatim>\<open>wake\<close>; \<^const>\<open>None\<close> is \<^verbatim>\<open>std::terminate\<close>.\<close>

definition iocp_wake :: "'k iocp \<Rightarrow> loop_id \<Rightarrow> ('o, 'k, 'z) iworld_scheme \<Rightarrow> ('o, 'k, 'z) iworld_scheme option" where
  "iocp_wake I l w = (case ic_post I None (port w l) of (e, k) \<Rightarrow> if e \<noteq> 0 then None else Some (set_port l k w))"

definition iocp_attach :: "'k iocp \<Rightarrow> loop_id \<Rightarrow> int \<Rightarrow> ('o, 'k, 'z) iworld_scheme \<Rightarrow> (unit, ('o, 'k, 'z) iworld_scheme) result" where
  "iocp_attach I l fd w =
     (case ic_attach I fd (port w l) of (e, k) \<Rightarrow> (if e \<noteq> 0 then Inl (win_exn e) else Inr (), set_port l k w))"

definition io_error :: "nat \<Rightarrow> errc" where
  "io_error code =
     (if code = WSA_OPERATION_ABORTED then Operation_Canceled else if code = WSAEMSGSIZE then Message_Size else Errno code)"

text \<open>\<^verbatim>\<open>extension<T>\<close>: the provider has the function, or the query's error is thrown.\<close>

definition ext_query :: "'k iocp \<Rightarrow> int \<Rightarrow> extension \<Rightarrow> 'k \<Rightarrow> exn + unit" where
  "ext_query I fd x k = (if ic_extension I fd x k \<noteq> 0 then Inl (win_exn (ic_extension I fd x k)) else Inr ())"

text \<open>\<^verbatim>\<open>loop::complete\<close> without the hook that only Linux has.\<close>

definition iocp_complete :: "loop_id \<Rightarrow> addr \<Rightarrow> 'z world_scheme \<Rightarrow> 'z world_scheme" where
  "iocp_complete l a w = loop_finish l a (io_unlink l a w)"

text \<open>The two halves of a file offset.\<close>

definition offset_low :: "64 word \<Rightarrow> 32 word" where
  "offset_low x = ucast x"

definition offset_high :: "64 word \<Rightarrow> 32 word" where
  "offset_high x = ucast (drop_bit 32 x)"

definition submit_file :: "'k iocp \<Rightarrow> loop_id \<Rightarrow> addr \<Rightarrow> ('o, 'k, 'z) iworld_scheme \<Rightarrow> ('o, 'k, 'z) iworld_scheme" where
  "submit_file I l a w =
     (let lo = offset_low (io_offset w a); hi = offset_high (io_offset w a);
          c = (if io_code w a = Op_File_Read then Read_File (io_fd w a) (io_buf w a) (io_size w a) lo hi
               else Write_File (io_fd w a) (io_buf w a) (io_size w a) lo hi) in
      case ic_overlapped I c a (port w l) of (e, k) \<Rightarrow>
        let w1 = set_port l k w in
        if e \<noteq> 0 \<and> e \<noteq> ERROR_IO_PENDING
        then iocp_complete l a
               (if e \<noteq> ERROR_HANDLE_EOF \<or> io_code w1 a \<noteq> Op_File_Read then set_error a (Some (io_error e)) w1 else w1)
        else w1)"

text \<open>The end of \<^verbatim>\<open>submit\<close>: only a call that failed at once completes here.\<close>

definition submit_call :: "'k iocp \<Rightarrow> loop_id \<Rightarrow> addr \<Rightarrow> win_call \<Rightarrow> ('o, 'k, 'z) iworld_scheme \<Rightarrow> (unit, ('o, 'k, 'z) iworld_scheme) result" where
  "submit_call I l a c w =
     (case ic_overlapped I c a (port w l) of (e, k) \<Rightarrow>
        let w1 = set_port l k w in
        (Inr (), if e \<noteq> 0 \<and> e \<noteq> ERROR_IO_PENDING then iocp_complete l a (set_error a (Some (io_error e)) w1) else w1))"

definition submit_accept :: "'k iocp \<Rightarrow> loop_id \<Rightarrow> addr \<Rightarrow> ('o, 'k, 'z) iworld_scheme \<Rightarrow> (unit, ('o, 'k, 'z) iworld_scheme) result" where
  "submit_accept I l a w =
     (case ic_sockname I (io_fd w a) (port w l) of (e, family) \<Rightarrow>
        if e \<noteq> 0 then (Inl (win_exn e), w)
        else case ext_query I (io_fd w a) Ext_Accept (port w l) of
          Inl x \<Rightarrow> (Inl x, w)
        | Inr _ \<Rightarrow>
            (case ic_socket I family (port w l) of
               (Inl x, k) \<Rightarrow> (Inl (win_exn x), (set_port l k w)\<lparr>io_accepted := (io_accepted w)(a := -1)\<rparr>)
             | (Inr s, k) \<Rightarrow>
                 submit_call I l a (Accept_Ex (io_fd w a) s) ((set_port l k w)\<lparr>io_accepted := (io_accepted w)(a := s)\<rparr>)))"

text \<open>Binding to the wildcard address of the peer's family comes first.\<close>

definition submit_connect :: "'k iocp \<Rightarrow> loop_id \<Rightarrow> addr \<Rightarrow> ('o, 'k, 'z) iworld_scheme \<Rightarrow> (unit, ('o, 'k, 'z) iworld_scheme) result" where
  "submit_connect I l a w =
     (case ext_query I (io_fd w a) Ext_Connect (port w l) of
        Inl x \<Rightarrow> (Inl x, w)
      | Inr _ \<Rightarrow>
          (case ic_bind I (io_fd w a) (case io_peer w a of None \<Rightarrow> 0 | Some p \<Rightarrow> ep_family p) (io_addr_size w a) (port w l) of (e, k) \<Rightarrow>
             if e \<noteq> 0 then (Inl (win_exn e), set_port l k w)
             else submit_call I l a (Connect_Ex (io_fd w a) (io_peer w a) (io_addr_size w a)) (set_port l k w)))"

definition iocp_submit :: "'k iocp \<Rightarrow> loop_id \<Rightarrow> addr \<Rightarrow> ('o, 'k, 'z) iworld_scheme \<Rightarrow> (unit, ('o, 'k, 'z) iworld_scheme) result" where
  "iocp_submit I l a w =
     (let fd = io_fd w a; buf = io_buf w a; n = io_size w a in
      case io_code w a of
        Op_File_Read \<Rightarrow> (Inr (), submit_file I l a w)
      | Op_File_Write \<Rightarrow> (Inr (), submit_file I l a w)
      | Op_Nop \<Rightarrow>
          (case ic_post I (Some a) (port w l) of (e, k) \<Rightarrow> (if e \<noteq> 0 then Inl (win_exn e) else Inr (), set_port l k w))
      | Op_Read \<Rightarrow> submit_call I l a (Wsa_Recv fd buf n) w
      | Op_Write \<Rightarrow> submit_call I l a (Wsa_Send fd buf n) w
      | Op_Recv_From \<Rightarrow> submit_call I l a (Wsa_Recv_From fd buf n) w
      | Op_Send_To \<Rightarrow> submit_call I l a (Wsa_Send_To fd buf n (io_peer w a) (io_addr_size w a)) w
      | Op_Accept \<Rightarrow> submit_accept I l a w
      | Op_Connect \<Rightarrow> submit_connect I l a w
      | _ \<Rightarrow> (Inl (Logic_Error ''invalid file submission''), w))"

definition iocp_cancel :: "'k iocp \<Rightarrow> loop_id \<Rightarrow> addr \<Rightarrow> ('o, 'k, 'z) iworld_scheme \<Rightarrow> (unit, ('o, 'k, 'z) iworld_scheme) result" where
  "iocp_cancel I l a w =
     (let w1 = w\<lparr>io_cancel_sent := (io_cancel_sent w)(a := True)\<rparr> in
      if io_code w1 a = Op_Nop then (Inr (), w1)
      else (case ic_cancel I (io_fd w1 a) a (port w1 l) of (e, k) \<Rightarrow>
              (if e \<noteq> 0 \<and> e \<noteq> ERROR_NOT_FOUND then Inl (win_exn e) else Inr (), set_port l k w1)))"

text \<open>The timeout of a poll: whole milliseconds, rounded up, or \<^verbatim>\<open>INFINITE\<close>.\<close>

definition iocp_timeout :: "int \<Rightarrow> 32 word" where
  "iocp_timeout delay =
     (if delay \<ge> 0 then word_of_int (min ((delay + 999999) div 1000000) (uint INFINITE - 1)) else INFINITE)"

text \<open>One packet.\<close>

definition packet_file :: "'k iocp \<Rightarrow> loop_id \<Rightarrow> addr \<Rightarrow> bool \<Rightarrow> ('o, 'k, 'z) iworld_scheme \<Rightarrow> ('o, 'k, 'z) iworld_scheme" where
  "packet_file I l a internal w =
     (let e = ic_file_result I (io_fd w a) a (port w l) in
      if internal \<and> e \<noteq> 0
      then if e = ERROR_HANDLE_EOF \<and> io_code w a = Op_File_Read then w\<lparr>io_bytes := (io_bytes w)(a := 0)\<rparr>
           else set_error a (Some (io_error e)) w
      else w)"

definition packet_socket :: "'k iocp \<Rightarrow> loop_id \<Rightarrow> addr \<Rightarrow> bool \<Rightarrow> ('o, 'k, 'z) iworld_scheme \<Rightarrow> ('o, 'k, 'z) iworld_scheme" where
  "packet_socket I l a internal w =
     (let e = ic_wsa_result I (io_fd w a) a (port w l);
          w1 = (if internal \<and> e \<noteq> 0 then set_error a (Some (io_error e)) w else w);
          w2 = (if op_error w1 a = None \<and> io_code w1 a = Op_Accept
                then (case ic_update_accept I (io_accepted w1 a) (io_fd w1 a) (port w1 l) of (x, k) \<Rightarrow>
                        let u = set_port l k w1 in if x \<noteq> 0 then set_error a (Some (Errno x)) u else u)
                else w1)
      in if op_error w2 a = None \<and> io_code w2 a = Op_Connect
         then (case ic_update_connect I (io_fd w2 a) (port w2 l) of (x, k) \<Rightarrow>
                 let u = set_port l k w2 in if x \<noteq> 0 then set_error a (Some (Errno x)) u else u)
         else w2)"

definition iocp_packet :: "'k iocp \<Rightarrow> loop_id \<Rightarrow> entry \<Rightarrow> ('o, 'k, 'z) iworld_scheme \<Rightarrow> ('o, 'k, 'z) iworld_scheme" where
  "iocp_packet I l e w =
     (case en_request e of
        None \<Rightarrow> w
      | Some a \<Rightarrow>
          (let w1 = w\<lparr>io_bytes := (io_bytes w)(a := en_bytes e)\<rparr> in
           iocp_complete l a
             (if io_code w1 a = Op_File_Read \<or> io_code w1 a = Op_File_Write then packet_file I l a (en_internal e) w1
              else if io_code w1 a \<noteq> Op_Nop then packet_socket I l a (en_internal e) w1
              else w1)))"

definition iocp_poll :: "'k iocp \<Rightarrow> loop_id \<Rightarrow> int \<Rightarrow> ('o, 'k, 'z) iworld_scheme \<Rightarrow> (unit, ('o, 'k, 'z) iworld_scheme) result" where
  "iocp_poll I l delay w =
     (case ic_wait I 128 (iocp_timeout delay) (port w l) of
        (Inl e, k) \<Rightarrow> (if e = WAIT_TIMEOUT then Inr () else Inl (win_exn e), set_port l k w)
      | (Inr es, k) \<Rightarrow> (Inr (), fold (iocp_packet I l) es (set_port l k w)))"

subsection \<open>Arithmetic\<close>

text \<open>The halves of an offset make up the offset.\<close>

lemma offset_halves: "push_bit 32 (ucast (offset_high x)) OR ucast (offset_low x) = (x :: 64 word)"
  by (rule bit_word_eqI) (auto simp: offset_high_def offset_low_def bit_simps)

text \<open>A finite delay never becomes \<^verbatim>\<open>INFINITE\<close>, does not end early unless capped, and is late by less than a millisecond.\<close>

lemma timeout_bounds:
  assumes "0 \<le> delay"
  shows "iocp_timeout delay \<noteq> INFINITE" "uint (iocp_timeout delay) = min ((delay + 999999) div 1000000) 4294967294"
    "uint (iocp_timeout delay) < 4294967294 \<Longrightarrow> delay \<le> uint (iocp_timeout delay) * 1000000 \<and> uint (iocp_timeout delay) * 1000000 < delay + 1000000"
proof -
  let ?m = "min ((delay + 999999) div 1000000) 4294967294"
  have i: "uint INFINITE = 4294967295" by (simp add: INFINITE_def unsigned_minus_1_eq_mask mask_eq_exp_minus_1)
  have "0 \<le> ?m" "?m < 2 ^ 32" using assms by auto
  then have "uint (word_of_int ?m :: 32 word) = ?m" by (simp add: uint_word_of_int)
  then show u: "uint (iocp_timeout delay) = ?m" using assms i by (simp add: iocp_timeout_def)
  then show "iocp_timeout delay \<noteq> INFINITE" using i by auto
  show "delay \<le> uint (iocp_timeout delay) * 1000000 \<and> uint (iocp_timeout delay) * 1000000 < delay + 1000000"
    if "uint (iocp_timeout delay) < 4294967294"
    using that u by (auto simp: min_def split: if_splits)
qed

subsection \<open>Packets are the pending requests\<close>

text \<open>
  What the code relies on: the requests the system holds a packet for.  A started or pending call and a
  posted packet are held, a call that failed is not, a wait hands out held requests, each
  once, and nothing else changes what is held.
\<close>

definition iocp_spec :: "'k iocp \<Rightarrow> ('k \<Rightarrow> addr set) \<Rightarrow> bool" where
  "iocp_spec I held \<longleftrightarrow>
     (\<forall>x k. held (snd (ic_post I x k)) = (if fst (ic_post I x k) = 0 then set_option x \<union> held k else held k)) \<and>
     (\<forall>c a k. held (snd (ic_overlapped I c a k)) = (if fst (ic_overlapped I c a k) \<in> {0, ERROR_IO_PENDING} then insert a (held k) else held k)) \<and>
     (\<forall>f k. held (snd (ic_socket I f k)) = held k) \<and> (\<forall>fd f n k. held (snd (ic_bind I fd f n k)) = held k) \<and>
     (\<forall>fd a k. held (snd (ic_cancel I fd a k)) = held k) \<and> (\<forall>x fd k. held (snd (ic_update_accept I x fd k)) = held k) \<and>
     (\<forall>fd k. held (snd (ic_update_connect I fd k)) = held k)"

definition entry_requests :: "entry list \<Rightarrow> addr list" where
  "entry_requests es = List.map_filter en_request es"

definition dequeue_spec :: "'k iocp \<Rightarrow> ('k \<Rightarrow> addr set) \<Rightarrow> bool" where
  "dequeue_spec I held \<longleftrightarrow>
     (\<forall>n t k x k'. ic_wait I n t k = (x, k') \<longrightarrow>
        (case x of
           Inl e \<Rightarrow> held k' = held k
         | Inr es \<Rightarrow> distinct (entry_requests es) \<and> set (entry_requests es) \<subseteq> held k \<and> held k' = held k - set (entry_requests es)))"

lemma complete_frame [simp]:
  "port (iocp_complete l a w) = port w" "port (set_error a e (w :: ('o, 'k, 'z) iworld_scheme)) = port w"
  by (simp_all add: iocp_complete_def loop_finish_def io_unlink_def callback_reset_def ready_push_def upd_loop_def set_error_def Let_def
      split: prod.split option.split)

lemma set_port_frame [simp]: "port (set_port l k w) l = k" "op_error (set_port l k w) = op_error w" "io_code (set_port l k w) = io_code w"
  by (simp_all add: set_port_def)

lemma set_port_rep: "loop_rep w l {} rs ts ws ns \<Longrightarrow> loop_rep (set_port j k w) l {} rs ts ws ns"
  by (erule loop_rep_cong) (simp_all add: set_port_def)

lemma set_error_rep: "loop_rep w l {} rs ts ws ns \<Longrightarrow> loop_rep (set_error a e (w :: ('o, 'k, 'z) iworld_scheme)) l {} rs ts ws ns"
  by (erule loop_rep_cong) (simp_all add: set_error_def)

lemma field_rep:
  assumes "loop_rep (w :: ('o, 'k, 'z) iworld_scheme) l {} rs ts ws ns"
  shows "loop_rep (w\<lparr>io_accepted := x\<rparr>) l {} rs ts ws ns" "loop_rep (w\<lparr>io_bytes := y\<rparr>) l {} rs ts ws ns"
    "loop_rep (w\<lparr>io_cancel_sent := z\<rparr>) l {} rs ts ws ns"
  by (rule loop_rep_cong [OF assms]; simp)+

lemma iocp_complete_rep:
  assumes "loop_rep w l {} rs ts ws ns" "a \<in> set ns"
  shows "loop_rep (iocp_complete l a w) l {} (rs @ [a]) ts ws (remove1 a ns)"
  using rep_finish [OF rep_io_unlink [OF assms]] by (simp add: iocp_complete_def)

lemmas iocp_reps = set_port_rep set_error_rep field_rep iocp_complete_rep

text \<open>
  Submission: the request is completed and not held, or held and still pending, or, when an
  exception leaves, neither.
\<close>

definition submitted :: "('k \<Rightarrow> addr set) \<Rightarrow> loop_id \<Rightarrow> addr \<Rightarrow> addr list \<Rightarrow> addr list \<Rightarrow> addr list \<Rightarrow> addr list \<Rightarrow> addr set \<Rightarrow>
    (unit, ('o, 'k, 'z) iworld_scheme) result \<Rightarrow> bool" where
  "submitted held l a rs ts ws ns A = (\<lambda>(r, w).
     (r = Inr () \<and> loop_rep w l {} (rs @ [a]) ts ws (remove1 a ns) \<and> held (port w l) = A) \<or>
     (r = Inr () \<and> loop_rep w l {} rs ts ws ns \<and> held (port w l) = insert a A) \<or>
     (r \<noteq> Inr () \<and> loop_rep w l {} rs ts ws ns \<and> held (port w l) = A))"

lemma submitted_throw:
  "loop_rep w l {} rs ts ws ns \<Longrightarrow> held (port w l) = A \<Longrightarrow> submitted held l a rs ts ws ns A (Inl x, w)"
  by (simp add: submitted_def)

lemma submit_call_held:
  assumes "iocp_spec I held" "loop_rep w l {} rs ts ws ns" "a \<in> set ns"
  shows "submitted held l a rs ts ws ns (held (port w l)) (submit_call I l a c w)"
proof -
  obtain e k where e: "ic_overlapped I c a (port w l) = (e, k)" by force
  have "held k = (if e \<in> {0, ERROR_IO_PENDING} then insert a (held (port w l)) else held (port w l))"
    using assms(1) e unfolding iocp_spec_def by (metis fst_conv snd_conv)
  then show ?thesis using assms(2,3) e by (auto simp: submit_call_def submitted_def Let_def intro: iocp_reps)
qed

lemma submit_file_held:
  assumes "iocp_spec I held" "loop_rep w l {} rs ts ws ns" "a \<in> set ns"
  shows "submitted held l a rs ts ws ns (held (port w l)) (Inr (), submit_file I l a w)"
proof -
  define c where "c = (if io_code w a = Op_File_Read then Read_File (io_fd w a) (io_buf w a) (io_size w a) (offset_low (io_offset w a)) (offset_high (io_offset w a))
      else Write_File (io_fd w a) (io_buf w a) (io_size w a) (offset_low (io_offset w a)) (offset_high (io_offset w a)))"
  obtain e k where e: "ic_overlapped I c a (port w l) = (e, k)" by force
  have "held k = (if e \<in> {0, ERROR_IO_PENDING} then insert a (held (port w l)) else held (port w l))"
    using assms(1) e unfolding iocp_spec_def by (metis fst_conv snd_conv)
  then show ?thesis using assms(2,3) e by (auto simp: submit_file_def c_def [symmetric] submitted_def Let_def intro: iocp_reps)
qed

lemma submit_accept_held:
  assumes "iocp_spec I held" "loop_rep w l {} rs ts ws ns" "a \<in> set ns"
  shows "submitted held l a rs ts ws ns (held (port w l)) (submit_accept I l a w)"
proof -
  obtain s k where s: "ic_socket I (snd (ic_sockname I (io_fd w a) (port w l))) (port w l) = (s, k)" by force
  have k: "held k = held (port w l)" using assms(1) s unfolding iocp_spec_def by (metis snd_conv)
  let ?w = "\<lambda>x. (set_port l k w)\<lparr>io_accepted := (io_accepted w)(a := x)\<rparr>"
  have rep: "loop_rep (?w x) l {} rs ts ws ns" for x using assms(2) by (intro iocp_reps)
  have p: "port (?w x) l = k" for x by (simp add: set_port_def)
  have call: "submitted held l a rs ts ws ns (held k) (submit_call I l a c (?w x))" for c x
    using submit_call_held [OF assms(1) rep assms(3), of x c] by (simp add: p)
  obtain e family where f: "ic_sockname I (io_fd w a) (port w l) = (e, family)" by force
  show ?thesis
    using s call k f assms(2) rep
    by (cases s) (auto simp: submit_accept_def ext_query_def p intro!: submitted_throw)
qed

lemma submit_connect_held:
  assumes "iocp_spec I held" "loop_rep w l {} rs ts ws ns" "a \<in> set ns"
  shows "submitted held l a rs ts ws ns (held (port w l)) (submit_connect I l a w)"
proof -
  obtain e k where b: "ic_bind I (io_fd w a) (case io_peer w a of None \<Rightarrow> 0 | Some p \<Rightarrow> ep_family p) (io_addr_size w a) (port w l) = (e, k)" by force
  have k: "held k = held (port w l)" using assms(1) b unfolding iocp_spec_def by (metis snd_conv)
  have rep: "loop_rep (set_port l k w) l {} rs ts ws ns" using assms(2) by (rule set_port_rep)
  have call: "submitted held l a rs ts ws ns (held k) (submit_call I l a c (set_port l k w))" for c
    using submit_call_held [OF assms(1) rep assms(3), of c] by simp
  show ?thesis
    using b call assms(2) rep k by (auto simp: submit_connect_def ext_query_def intro!: submitted_throw)
qed

lemma iocp_submit_held:
  assumes "iocp_spec I held" "loop_rep w l {} rs ts ws ns" "a \<in> set ns"
  shows "submitted held l a rs ts ws ns (held (port w l)) (iocp_submit I l a w)"
proof (cases "io_code w a")
  case Op_Nop
  obtain e k where e: "ic_post I (Some a) (port w l) = (e, k)" by force
  have "held k = (if e = 0 then insert a (held (port w l)) else held (port w l))"
    using assms(1) [unfolded iocp_spec_def, THEN conjunct1, rule_format, of "Some a" "port w l"] e by simp
  then show ?thesis using Op_Nop assms(2) e by (auto simp: iocp_submit_def submitted_def intro: iocp_reps)
qed (use assms submit_call_held [OF assms] submit_file_held [OF assms] submit_accept_held [OF assms] submit_connect_held [OF assms]
    submitted_throw [OF assms(2)] in \<open>auto simp: iocp_submit_def Let_def\<close>)

lemma iocp_cancel_held:
  assumes "iocp_spec I held"
  shows "held (port (snd (iocp_cancel I l a w)) l) = held (port w l)"
proof -
  obtain e k where e: "ic_cancel I (io_fd w a) a (port w l) = (e, k)" by force
  have "held k = held (port w l)" using assms(1) e unfolding iocp_spec_def by (metis snd_conv)
  then show "held (port (snd (iocp_cancel I l a w)) l) = held (port w l)"
    using e by (simp add: iocp_cancel_def Let_def)
qed

text \<open>So the backend is what the scheduler asks for, whatever the system calls do.\<close>

lemma iocp_cancel_rep: "loop_rep w l {} rs ts ws ns \<Longrightarrow> loop_rep (snd (iocp_cancel I l a w)) l {} rs ts ws ns"
  by (auto simp: iocp_cancel_def Let_def intro: iocp_reps split: prod.split)

interpretation ic: backend l "iocp_cancel I l" for l and I :: "'k iocp"
  by unfold_locales (auto simp: cancel_ok_def intro: iocp_cancel_rep)

subsection \<open>A poll\<close>

lemma packet_fields:
  fixes w :: "('a, 'b, 'c) iworld_scheme"
  assumes "iocp_spec I held" "loop_rep w l {} rs ts ws ns"
  shows "loop_rep (packet_file I l a b w) l {} rs ts ws ns" "held (port (packet_file I l a b w) l) = held (port w l)"
    "loop_rep (packet_socket I l a b w) l {} rs ts ws ns" "held (port (packet_socket I l a b w) l) = held (port w l)"
proof -
  show "loop_rep (packet_file I l a b w) l {} rs ts ws ns" "held (port (packet_file I l a b w) l) = held (port w l)"
    using assms(2) by (auto simp: packet_file_def Let_def intro: iocp_reps)
  have k: "held (snd (ic_update_accept I x fd k)) = held k" "held (snd (ic_update_connect I fd k)) = held k" for x fd k
    using assms(1) by (simp_all add: iocp_spec_def)
  define w1 where "w1 = (if b \<and> ic_wsa_result I (io_fd w a) a (port w l) \<noteq> 0 then set_error a (Some (io_error (ic_wsa_result I (io_fd w a) a (port w l)))) w else w)"
  define mark :: "nat \<times> 'b \<Rightarrow> ('a, 'b, 'c) iworld_scheme \<Rightarrow> ('a, 'b, 'c) iworld_scheme" where "mark = (\<lambda>(x, k) u. if x \<noteq> 0 then set_error a (Some (Errno x)) (set_port l k u) else set_port l k u)"
  have m: "loop_rep (mark r u) l {} rs ts ws ns" "held (port (mark r u) l) = held (snd r)"
    if "loop_rep u l {} rs ts ws ns" for r and u :: "('a, 'b, 'c) iworld_scheme"
    using set_port_rep [OF that, of l "snd r"] set_error_rep by (auto simp: mark_def split: prod.split)
  define w2 where "w2 = (if op_error w1 a = None \<and> io_code w1 a = Op_Accept
      then mark (ic_update_accept I (io_accepted w1 a) (io_fd w1 a) (port w1 l)) w1 else w1)"
  have eq: "packet_socket I l a b w = (if op_error w2 a = None \<and> io_code w2 a = Op_Connect
      then mark (ic_update_connect I (io_fd w2 a) (port w2 l)) w2 else w2)"
    unfolding packet_socket_def Let_def w2_def w1_def mark_def by (simp only: case_prod_beta)
  have 1: "loop_rep w1 l {} rs ts ws ns" "held (port w1 l) = held (port w l)"
    using assms(2) set_error_rep by (auto simp: w1_def)
  have 2: "loop_rep w2 l {} rs ts ws ns" "held (port w2 l) = held (port w1 l)"
    using m [OF 1(1)] 1(1) k(1) by (simp_all add: w2_def)
  show "loop_rep (packet_socket I l a b w) l {} rs ts ws ns" "held (port (packet_socket I l a b w) l) = held (port w l)"
    unfolding eq using m [OF 2(1)] 1(2) 2 k(2) by simp_all
qed

lemma packet_held:
  assumes "iocp_spec I held" "loop_rep w l {} rs ts ws ns" "en_request e = Some a" "a \<in> set ns"
  shows "loop_rep (iocp_packet I l e w) l {} (rs @ [a]) ts ws (remove1 a ns)" "held (port (iocp_packet I l e w) l) = held (port w l)"
proof -
  let ?w = "w\<lparr>io_bytes := (io_bytes w)(a := en_bytes e)\<rparr>"
  have rep: "loop_rep ?w l {} rs ts ws ns" using assms(2) by (rule iocp_reps)
  note f = packet_fields [OF assms(1) rep, of a "en_internal e"]
  show "loop_rep (iocp_packet I l e w) l {} (rs @ [a]) ts ws (remove1 a ns)"
    using f(1,3) rep assms(3,4) by (auto simp: iocp_packet_def Let_def intro!: iocp_complete_rep)
  show "held (port (iocp_packet I l e w) l) = held (port w l)"
    using f(2,4) assms(3) by (simp add: iocp_packet_def Let_def)
qed

lemma packets_held:
  assumes "iocp_spec I held" "loop_rep w l {} rs ts ws ns" "distinct (entry_requests es)" "set (entry_requests es) \<subseteq> set ns"
  shows "loop_rep (fold (iocp_packet I l) es w) l {} (rs @ entry_requests es) ts ws (filter (\<lambda>a. a \<notin> set (entry_requests es)) ns) \<and>
    held (port (fold (iocp_packet I l) es w) l) = held (port w l)"
  using assms(2-)
proof (induction es arbitrary: w rs ns)
  case Nil
  then show ?case by (simp add: entry_requests_def List.map_filter_def)
next
  case (Cons e es)
  show ?case
  proof (cases "en_request e")
    case None
    then have "entry_requests (e # es) = entry_requests es" "iocp_packet I l e w = w"
      by (simp_all add: entry_requests_def List.map_filter_def iocp_packet_def)
    then show ?thesis using Cons by simp
  next
    case (Some a)
    then have r: "entry_requests (e # es) = a # entry_requests es" by (simp add: entry_requests_def List.map_filter_def)
    note p = packet_held [OF assms(1) Cons.prems(1) Some]
    have d: "distinct ns" using loop_repD(6) [OF Cons.prems(1)] by simp
    have "set (entry_requests es) \<subseteq> set (remove1 a ns)" using Cons.prems(2,3) r d by auto
    moreover have "a \<in> set ns" using Cons.prems(3) r by simp
    moreover have "filter (\<lambda>x. x \<notin> set (entry_requests es)) (remove1 a ns) = filter (\<lambda>x. x \<notin> set (entry_requests (e # es))) ns"
      using d by (simp add: r distinct_remove1_removeAll removeAll_filter_not_eq filter_filter) (auto intro: filter_cong)
    ultimately show ?thesis using Cons.IH [OF p(1)] p(2) Cons.prems(2) r by auto
  qed
qed

text \<open>C23: a poll of the completion-port backend resumes every request exactly once.  When the packets the
  system holds are those of the pending requests, a poll that dequeues packets completes exactly their
  requests, in packet order, whatever their results and follow-up calls; wake-up packets are
  skipped, and afterwards the held packets are again exactly those of the requests still pending.
\<close>

theorem iocp_poll_once:
  assumes "iocp_spec I held" "dequeue_spec I held" "loop_rep w l {} rs ts ws ns" "held (port w l) = set ns"
    and "ic_wait I 128 (iocp_timeout delay) (port w l) = (Inr es, k)"
  shows "\<exists>w' ns'. iocp_poll I l delay w = (Inr (), w') \<and> loop_rep w' l {} (rs @ entry_requests es) ts ws ns' \<and>
    ns' = filter (\<lambda>a. a \<notin> set (entry_requests es)) ns \<and> held (port w' l) = set ns'"
proof -
  have d: "distinct (entry_requests es)" "set (entry_requests es) \<subseteq> set ns" "held k = set ns - set (entry_requests es)"
    using assms(2,4,5) unfolding dequeue_spec_def by (fastforce split: sum.splits)+
  have "loop_rep (set_port l k w) l {} rs ts ws ns" using assms(3) by (rule set_port_rep)
  from packets_held [OF assms(1) this d(1,2)] show ?thesis
    using assms(5) d(3) by (auto simp: iocp_poll_def)
qed

text \<open>A system in which every call is pending and one packet of a held request is dequeued at a time.\<close>

definition small_iocp :: "nat set iocp" where
  "small_iocp =
     \<lparr>ic_startup = (\<lambda>k. (0, k)), ic_create = (\<lambda>k. (0, k)), ic_cleanup = (\<lambda>k. k), ic_close = (\<lambda>k. k), ic_attach = (\<lambda>fd k. (0, k)),
      ic_post = (\<lambda>x k. (0, set_option x \<union> k)), ic_overlapped = (\<lambda>c a k. (ERROR_IO_PENDING, insert a k)), ic_sockname = (\<lambda>fd k. (0, 2)),
      ic_extension = (\<lambda>fd x k. 0), ic_socket = (\<lambda>f k. (Inr 5, k)), ic_bind = (\<lambda>fd f n k. (0, k)), ic_cancel = (\<lambda>fd a k. (0, k)),
      ic_wait = (\<lambda>n t k. if 2 \<in> k then (Inr [\<lparr>en_request = None, en_bytes = 0, en_internal = False\<rparr>,
          \<lparr>en_request = Some 2, en_bytes = 7, en_internal = True\<rparr>], k - {2}) else (Inl WAIT_TIMEOUT, k)),
      ic_file_result = (\<lambda>fd a k. 0), ic_wsa_result = (\<lambda>fd a k. WSAEMSGSIZE), ic_update_accept = (\<lambda>x fd k. (0, k)), ic_update_connect = (\<lambda>fd k. (0, k))\<rparr>"

definition iocp_world :: "(unit, nat set) iworld" where
  "iocp_world = ports.extend
     ((ports_zero ())\<lparr>loops := (loops world_init)(0 := (loop_init 0)\<lparr>lp_io := Some 2\<rparr>), op_active := (\<lambda>a. False)(2 := True), io_code := (\<lambda>a. Op_Recv_From)\<rparr>)
     \<lparr>port = (\<lambda>l. {2})\<rparr>"

theorem iocp_poll_once_witness:
  "\<exists>w' ns'. iocp_poll small_iocp 0 (-1) iocp_world = (Inr (), w') \<and> loop_rep w' 0 {} [2] [] [] ns' \<and> ns' = [] \<and> port w' 0 = {}"
proof -
  have spec: "iocp_spec small_iocp id" "dequeue_spec small_iocp id"
    by (auto simp: iocp_spec_def dequeue_spec_def small_iocp_def entry_requests_def List.map_filter_def split: sum.splits if_splits)
  have rep: "loop_rep iocp_world 0 {} [] [] [] [2]"
    by (auto simp: iocp_world_def ports_zero_def ports.defs events.defs world.defs world_init_def loop_init_def rq_init_def
        loop_rep_def rq_rep_def dll_def is_heap_def)
  have port: "port iocp_world 0 = {2}" by (simp add: iocp_world_def ports.defs)
  have wait: "ic_wait small_iocp 128 (iocp_timeout (-1)) (port iocp_world 0) =
      (Inr [\<lparr>en_request = None, en_bytes = 0, en_internal = False\<rparr>, \<lparr>en_request = Some 2, en_bytes = 7, en_internal = True\<rparr>], {})"
    by (simp add: small_iocp_def port)
  have "id (port iocp_world 0) = set [2]" using port by simp
  from iocp_poll_once [OF spec rep this wait] show ?thesis by (auto simp: entry_requests_def List.map_filter_def)
qed

end
