(* ===== verification/Platforms.thy ===== *)
theory Platforms
  imports Kqueue Iocp
begin

text \<open>
  The branches of \<^verbatim>\<open>socket.cpp\<close>, \<^verbatim>\<open>udp.cpp\<close> and \<^verbatim>\<open>file.cpp\<close> for macOS and Windows, next to the Linux ones of
  \<open>Ports\<close>.  What the systems do alike is one definition over the record \<open>plat\<close> of what they do
  differently; on Linux it is the definition of \<open>Ports\<close>.  A descriptor is never lost: an operation
  that throws has closed what it opened, and one that returns has handed it to its socket.
\<close>

subsection \<open>What differs\<close>

record 'w plat =
  pf_open :: "nat \<Rightarrow> nat \<Rightarrow> 'w \<Rightarrow> (int, 'w) result"
  pf_adopt :: "thread_id \<Rightarrow> loop_id \<Rightarrow> int \<Rightarrow> sock_id \<Rightarrow> 'w \<Rightarrow> (unit, 'w) result"
  pf_close :: "int \<Rightarrow> 'w \<Rightarrow> 'w"
  pf_reuse :: "int \<Rightarrow> 'w \<Rightarrow> (unit, 'w) result"
  pf_bind :: "int \<Rightarrow> endpoint \<Rightarrow> 'w \<Rightarrow> (unit, 'w) result"
  pf_listen :: "int \<Rightarrow> int \<Rightarrow> 'w \<Rightarrow> (unit, 'w) result"

text \<open>\<^verbatim>\<open>socket::listen\<close>, \<^verbatim>\<open>connect\<close>, \<^verbatim>\<open>accept\<close> and \<^verbatim>\<open>udp::udp\<close> on a platform.\<close>

definition plat_cleanup :: "('o, 'z) ports_scheme plat \<Rightarrow> addr \<Rightarrow> ('o, 'z) ports_scheme \<Rightarrow> ('o, 'z) ports_scheme" where
  "plat_cleanup P a w = pf_close P (io_accepted w a) (io_release a w)"

definition plat_listen :: "('o, 'z) ports_scheme plat \<Rightarrow> thread_id \<Rightarrow> loop_id \<Rightarrow> endpoint \<Rightarrow> int \<Rightarrow> sock_id \<Rightarrow> ('o, 'z) ports_scheme \<Rightarrow>
    (unit, ('o, 'z) ports_scheme) result" where
  "plat_listen P t l address backlog s w =
     (if \<not> loop_check t l w then (Inl wrong_thread, w)
      else if backlog \<le> 0 then (Inl (Invalid_Argument ''invalid backlog''), w)
      else case pf_open P (ep_family address) SOCK_STREAM w of
        (Inl e, w1) \<Rightarrow> (Inl e, w1)
      | (Inr fd, w1) \<Rightarrow>
          (case pf_adopt P t l fd s w1 of
             (Inl e, w2) \<Rightarrow> (Inl e, w2)
           | (Inr _, w2) \<Rightarrow>
               (case pf_reuse P fd w2 of
                  (Inl e, w3) \<Rightarrow> (Inl e, pf_close P fd w3)
                | (Inr _, w3) \<Rightarrow>
                    (case pf_bind P fd address w3 of
                       (Inl e, w4) \<Rightarrow> (Inl e, pf_close P fd w4)
                     | (Inr _, w4) \<Rightarrow>
                         (case pf_listen P fd backlog w4 of
                            (Inl e, w5) \<Rightarrow> (Inl e, pf_close P fd w5)
                          | (Inr _, w5) \<Rightarrow> (Inr (), w5))))))"

definition plat_connect :: "('o, 'z) ports_scheme plat \<Rightarrow> (addr \<Rightarrow> ('o, 'z) ports_scheme \<Rightarrow> (nat, ('o, 'z) ports_scheme) result) \<Rightarrow>
    thread_id \<Rightarrow> loop_id \<Rightarrow> endpoint \<Rightarrow> token_id option \<Rightarrow> addr \<Rightarrow> sock_id \<Rightarrow> ('o, 'z) ports_scheme \<Rightarrow> (unit, ('o, 'z) ports_scheme) result" where
  "plat_connect P await t l address k a s w =
     (if \<not> loop_check t l w then (Inl wrong_thread, w)
      else case pf_open P (ep_family address) SOCK_STREAM w of
        (Inl e, w1) \<Rightarrow> (Inl e, w1)
      | (Inr fd, w1) \<Rightarrow>
          (case pf_adopt P t l fd s w1 of
             (Inl e, w2) \<Rightarrow> (Inl e, w2)
           | (Inr _, w2) \<Rightarrow>
               (let w3 = io_init l Op_Connect fd 0 0 k None a w2;
                    w4 = w3\<lparr>io_peer := (io_peer w3)(a := Some address), io_addr_size := (io_addr_size w3)(a := ep_size address)\<rparr> in
                case await a w4 of
                  (Inl e, w5) \<Rightarrow> (Inl e, pf_close P fd (plat_cleanup P a w5))
                | (Inr _, w5) \<Rightarrow> (Inr (), plat_cleanup P a w5))))"

definition plat_accept :: "('o, 'z) ports_scheme plat \<Rightarrow> (addr \<Rightarrow> ('o, 'z) ports_scheme \<Rightarrow> (nat, ('o, 'z) ports_scheme) result) \<Rightarrow>
    thread_id \<Rightarrow> sock_id \<Rightarrow> token_id option \<Rightarrow> addr \<Rightarrow> sock_id \<Rightarrow> ('o, 'z) ports_scheme \<Rightarrow> (unit, ('o, 'z) ports_scheme) result" where
  "plat_accept P await t s k a peer w =
     (case socket_check t s w of
        Inl e \<Rightarrow> (Inl e, w)
      | Inr _ \<Rightarrow>
          (case await a (io_init (sk_loop w s) Op_Accept (sk_fd w s) 0 0 k (Some (reading s)) a w) of
             (Inl e, w1) \<Rightarrow> (Inl e, plat_cleanup P a w1)
           | (Inr _, w1) \<Rightarrow>
               (case pf_adopt P t (sk_loop w1 s) (io_accepted w1 a) peer (w1\<lparr>io_accepted := (io_accepted w1)(a := -1)\<rparr>) of
                  (r, w2) \<Rightarrow> (r, plat_cleanup P a w2))))"

definition plat_udp :: "('o, 'z) ports_scheme plat \<Rightarrow> thread_id \<Rightarrow> loop_id \<Rightarrow> endpoint \<Rightarrow> sock_id \<Rightarrow> ('o, 'z) ports_scheme \<Rightarrow>
    (unit, ('o, 'z) ports_scheme) result" where
  "plat_udp P t l address s w =
     (case pf_open P (ep_family address) SOCK_DGRAM w of
        (Inl e, w1) \<Rightarrow> (Inl e, w1)
      | (Inr fd, w1) \<Rightarrow>
          (case pf_adopt P t l fd s w1 of
             (Inl e, w2) \<Rightarrow> (Inl e, w2)
           | (Inr _, w2) \<Rightarrow>
               (case pf_bind P fd address w2 of
                  (Inl e, w3) \<Rightarrow> (Inl e, pf_close P fd w3)
                | (Inr _, w3) \<Rightarrow> (Inr (), w3))))"

definition linux_plat :: "'o sys \<Rightarrow> ('o, 'z) ports_scheme plat" where
  "linux_plat S =
     \<lparr>pf_open = socket_open S, pf_adopt = socket_adopt S, pf_close = close_fd S,
      pf_reuse = (\<lambda>fd. sys_call (sys_setsockopt S fd SOL_SOCKET SO_REUSEADDR 1)),
      pf_bind = (\<lambda>fd e. sys_call (sys_bind S fd e)), pf_listen = (\<lambda>fd n. sys_call (sys_listen S fd n))\<rparr>"

lemma linux_plat_simps [simp]:
  "pf_open (linux_plat S) = socket_open S" "pf_adopt (linux_plat S) = socket_adopt S" "pf_close (linux_plat S) = close_fd S"
  "pf_reuse (linux_plat S) fd = sys_call (sys_setsockopt S fd SOL_SOCKET SO_REUSEADDR 1)"
  "pf_bind (linux_plat S) fd e = sys_call (sys_bind S fd e)" "pf_listen (linux_plat S) fd n = sys_call (sys_listen S fd n)"
  by (simp_all add: linux_plat_def)

lemma linux_same:
  "socket_listen S = plat_listen (linux_plat S)" "socket_connect S = plat_connect (linux_plat S)"
  "socket_accept S = plat_accept (linux_plat S)" "udp_bind S = plat_udp (linux_plat S)"
  unfolding fun_eq_iff plat_cleanup_def io_cleanup_def socket_listen_def plat_listen_def socket_connect_def
    plat_connect_def socket_accept_def plat_accept_def udp_bind_def plat_udp_def linux_plat_simps by (intro allI refl)+

subsection \<open>macOS\<close>

record 'o mac =
  mac_sys :: "'o sys"
  mac_nonblock :: "int \<Rightarrow> 'o \<Rightarrow> int \<times> 'o"
  mac_pread :: "int \<Rightarrow> nat \<Rightarrow> nat \<Rightarrow> 64 word \<Rightarrow> 'o \<Rightarrow> int \<times> 'o"
  mac_pwrite :: "int \<Rightarrow> nat \<Rightarrow> nat \<Rightarrow> 64 word \<Rightarrow> 'o \<Rightarrow> int \<times> 'o"
  mac_fsync :: "int \<Rightarrow> 'o \<Rightarrow> int \<times> 'o"

definition MAC_SOL_SOCKET :: nat where "MAC_SOL_SOCKET = 65535"
definition MAC_SO_REUSEADDR :: nat where "MAC_SO_REUSEADDR = 4"
definition MAC_SO_NOSIGPIPE :: nat where "MAC_SO_NOSIGPIPE = 4130"
definition MAC_O_NONBLOCK :: nat where "MAC_O_NONBLOCK = 4"
definition MAC_O_CREAT :: nat where "MAC_O_CREAT = 512"
definition MAC_O_EXCL :: nat where "MAC_O_EXCL = 2048"
definition MAC_O_CLOEXEC :: nat where "MAC_O_CLOEXEC = 16777216"

definition mac_adopt :: "'o mac \<Rightarrow> thread_id \<Rightarrow> loop_id \<Rightarrow> int \<Rightarrow> sock_id \<Rightarrow> ('o, 'z) ports_scheme \<Rightarrow> (unit, ('o, 'z) ports_scheme) result" where
  "mac_adopt M t l fd s w =
     (let S = mac_sys M;
          w1 = w\<lparr>sk_loop := (sk_loop w)(s := l), sk_fd := (sk_fd w)(s := fd),
                 busy_slot := (busy_slot w)(reading s := False, writing s := False)\<rparr> in
      case socket_check t s w1 of
        Inl e \<Rightarrow> (Inl e, close_fd S fd w1)
      | Inr _ \<Rightarrow>
          (case sys_call (sys_cloexec S fd) w1 of
             (Inl e, w2) \<Rightarrow> (Inl e, close_fd S fd w2)
           | (Inr _, w2) \<Rightarrow>
               (case sys_call (mac_nonblock M fd) w2 of
                  (Inl e, w3) \<Rightarrow> (Inl e, close_fd S fd w3)
                | (Inr _, w3) \<Rightarrow>
                    (case sys_call (sys_setsockopt S fd MAC_SOL_SOCKET MAC_SO_NOSIGPIPE 1) w3 of
                       (Inl e, w4) \<Rightarrow> (Inl e, close_fd S fd w4)
                     | (Inr _, w4) \<Rightarrow> (Inr (), w4)))))"

definition mac_plat :: "'o mac \<Rightarrow> ('o, 'z) ports_scheme plat" where
  "mac_plat M =
     \<lparr>pf_open = socket_open (mac_sys M), pf_adopt = mac_adopt M, pf_close = close_fd (mac_sys M),
      pf_reuse = (\<lambda>fd. sys_call (sys_setsockopt (mac_sys M) fd MAC_SOL_SOCKET MAC_SO_REUSEADDR 1)),
      pf_bind = (\<lambda>fd e. sys_call (sys_bind (mac_sys M) fd e)), pf_listen = (\<lambda>fd n. sys_call (sys_listen (mac_sys M) fd n))\<rparr>"

definition mac_flags :: "file_mode \<Rightarrow> nat set" where
  "mac_flags access =
     {if access = Mode_Read then O_RDONLY else O_RDWR} \<union>
     (if access = Mode_Create then {MAC_O_CREAT, MAC_O_EXCL} else {}) \<union> {MAC_O_CLOEXEC, MAC_O_NONBLOCK}"

definition mac_file_open :: "'o mac \<Rightarrow> thread_id \<Rightarrow> loop_id \<Rightarrow> string \<Rightarrow> file_mode \<Rightarrow> bool \<Rightarrow> file_id \<Rightarrow> ('o, 'z) ports_scheme \<Rightarrow> (unit, ('o, 'z) ports_scheme) result" where
  "mac_file_open M t l path access direct f w =
     (let S = mac_sys M;
          w0 = w\<lparr>fl_loop := (fl_loop w)(f := l), fl_fd := (fl_fd w)(f := -1), fl_active := (fl_active w)(f := 0)\<rparr> in
      if \<not> loop_check t l w0 then (Inl wrong_thread, w0)
      else if path = [] \<or> CHR 0x00 \<in> set path then (Inl (Invalid_Argument ''invalid file path''), w0)
      else if direct then (Inl (System_Error Operation_Not_Supported), w0)
      else case sys_open S path (mac_flags access) (os w0) of (fd, o1) \<Rightarrow>
        let w1 = w0\<lparr>os := o1, fl_fd := (fl_fd w0)(f := fd)\<rparr> in
        if fd < 0 then (Inl (sys_exn fd), w1)
        else (case sys_fstat S fd (os w1) of (r, regular) \<Rightarrow>
                if r < 0 then (Inl (sys_exn r), file_close S f w1)
                else if \<not> regular then (Inl (Invalid_Argument ''not a regular file''), file_close S f w1)
                else (Inr (), w1)))"

text \<open>
  The function handed to the workers: the call is repeated while it is interrupted.  \<open>run\<close> is an awaited
  \<^verbatim>\<open>pool::run\<close> (theory \<open>Pool\<close>) on the shared workers.
\<close>

definition mac_job :: "('o \<Rightarrow> int \<times> 'o) \<Rightarrow> ('o, 'z) ports_scheme \<Rightarrow> (nat, ('o, 'z) ports_scheme) result option" where
  "mac_job f w =
     (case retry (plain f) (os w) of
        None \<Rightarrow> None
      | Some (r, _, k) \<Rightarrow> Some (if r < 0 then Inl (sys_exn r) else Inr (nat r), w\<lparr>os := k\<rparr>))"

type_synonym 'w worker_run = "('w \<Rightarrow> (nat, 'w) result option) \<Rightarrow> 'w \<Rightarrow> (nat, 'w) result option"

definition mac_transfer :: "'o mac \<Rightarrow> ('o, 'z) ports_scheme worker_run \<Rightarrow>
    thread_id \<Rightarrow> file_id \<Rightarrow> nat \<Rightarrow> nat \<Rightarrow> 64 word \<Rightarrow> bool \<Rightarrow> token_id option \<Rightarrow> ('o, 'z) ports_scheme \<Rightarrow> (nat, ('o, 'z) ports_scheme) result option" where
  "mac_transfer M run t f buf bytes off write k w =
     (case file_check t f w of
        Inl e \<Rightarrow> Some (Inl e, w)
      | Inr _ \<Rightarrow>
          (let w1 = file_use f w; len = clip bytes; fd = fl_fd w1 f in
           if file_canceled (fl_loop w1 f) k w1 then Some (Inl (System_Error Operation_Canceled), file_unuse f w1)
           else if \<not> file_range len off then Some (Inl (Invalid_Argument ''file offset overflow''), file_unuse f w1)
           else if len = 0 then Some (Inr 0, file_unuse f w1)
           else (case run (mac_job (if write then mac_pwrite M fd buf len off else mac_pread M fd buf len off)) w1 of
                   None \<Rightarrow> None
                 | Some (r, w2) \<Rightarrow> Some (r, file_unuse f w2))))"

definition mac_flush :: "'o mac \<Rightarrow> ('o, 'z) ports_scheme worker_run \<Rightarrow> thread_id \<Rightarrow> file_id \<Rightarrow> token_id option \<Rightarrow> ('o, 'z) ports_scheme \<Rightarrow>
    (unit, ('o, 'z) ports_scheme) result option" where
  "mac_flush M run t f k w =
     (case file_check t f w of
        Inl e \<Rightarrow> Some (Inl e, w)
      | Inr _ \<Rightarrow>
          (let w1 = file_use f w in
           if file_canceled (fl_loop w1 f) k w1 then Some (Inl (System_Error Operation_Canceled), file_unuse f w1)
           else (case run (mac_job (mac_fsync M (fl_fd w1 f))) w1 of
                   None \<Rightarrow> None
                 | Some (Inl e, w2) \<Rightarrow> Some (Inl e, file_unuse f w2)
                 | Some (Inr _, w2) \<Rightarrow> Some (Inr (), file_unuse f w2))))"

subsection \<open>Windows\<close>

text \<open>Calls outside the completion port: an error code, 0 for success, or a handle.  Wide characters are numbers.\<close>

record 'o win =
  wn_socket :: "nat \<Rightarrow> nat \<Rightarrow> 'o \<Rightarrow> (nat + int) \<times> 'o"
  wn_closesocket :: "int \<Rightarrow> 'o \<Rightarrow> 'o"
  wn_exclusive :: "int \<Rightarrow> 'o \<Rightarrow> nat \<times> 'o"
  wn_bind :: "int \<Rightarrow> endpoint \<Rightarrow> 'o \<Rightarrow> nat \<times> 'o"
  wn_listen :: "int \<Rightarrow> int \<Rightarrow> 'o \<Rightarrow> nat \<times> 'o"
  wn_shutdown :: "int \<Rightarrow> 'o \<Rightarrow> nat \<times> 'o"
  wn_create :: "nat list \<Rightarrow> bool \<Rightarrow> bool \<Rightarrow> bool \<Rightarrow> 'o \<Rightarrow> (nat + int) \<times> 'o"
  wn_disk :: "int \<Rightarrow> 'o \<Rightarrow> bool"
  wn_close :: "int \<Rightarrow> 'o \<Rightarrow> 'o"
  wn_flush :: "int \<Rightarrow> 'o \<Rightarrow> nat \<times> 'o"

definition win_call_os :: "('o \<Rightarrow> nat \<times> 'o) \<Rightarrow> ('o, 'z) ports_scheme \<Rightarrow> (unit, ('o, 'z) ports_scheme) result" where
  "win_call_os f w = (case f (os w) of (e, k) \<Rightarrow> (if e \<noteq> 0 then Inl (win_exn e) else Inr (), w\<lparr>os := k\<rparr>))"

definition win_socket_open :: "'o win \<Rightarrow> nat \<Rightarrow> nat \<Rightarrow> ('o, 'z) ports_scheme \<Rightarrow> (int, ('o, 'z) ports_scheme) result" where
  "win_socket_open W family kind w =
     (case wn_socket W family kind (os w) of (r, k) \<Rightarrow>
        (case r of Inl e \<Rightarrow> Inl (win_exn e) | Inr fd \<Rightarrow> Inr fd, w\<lparr>os := k\<rparr>))"

definition win_close_socket :: "'o win \<Rightarrow> int \<Rightarrow> ('o, 'z) ports_scheme \<Rightarrow> ('o, 'z) ports_scheme" where
  "win_close_socket W fd w = (if fd = -1 then w else w\<lparr>os := wn_closesocket W fd (os w)\<rparr>)"

text \<open>A socket is attached to the completion port of its loop.\<close>

definition win_adopt :: "'k iocp \<Rightarrow> 'o win \<Rightarrow> thread_id \<Rightarrow> loop_id \<Rightarrow> int \<Rightarrow> sock_id \<Rightarrow> ('o, 'k, 'z) iworld_scheme \<Rightarrow>
    (unit, ('o, 'k, 'z) iworld_scheme) result" where
  "win_adopt I W t l fd s w =
     (let w1 = w\<lparr>sk_loop := (sk_loop w)(s := l), sk_fd := (sk_fd w)(s := fd),
                 busy_slot := (busy_slot w)(reading s := False, writing s := False)\<rparr> in
      case socket_check t s w1 of
        Inl e \<Rightarrow> (Inl e, win_close_socket W fd w1)
      | Inr _ \<Rightarrow>
          (case iocp_attach I l fd w1 of
             (Inl e, w2) \<Rightarrow> (Inl e, win_close_socket W fd w2)
           | (Inr _, w2) \<Rightarrow> (Inr (), w2)))"

definition win_plat :: "'k iocp \<Rightarrow> 'o win \<Rightarrow> ('o, 'k, 'z) iworld_scheme plat" where
  "win_plat I W =
     \<lparr>pf_open = win_socket_open W, pf_adopt = win_adopt I W, pf_close = win_close_socket W,
      pf_reuse = (\<lambda>fd. win_call_os (wn_exclusive W fd)),
      pf_bind = (\<lambda>fd e. win_call_os (wn_bind W fd e)), pf_listen = (\<lambda>fd n. win_call_os (wn_listen W fd n))\<rparr>"

definition win_socket_shutdown :: "'o win \<Rightarrow> thread_id \<Rightarrow> sock_id \<Rightarrow> ('o, 'z) ports_scheme \<Rightarrow> (unit, ('o, 'z) ports_scheme) result" where
  "win_socket_shutdown W t s w =
     (case socket_check t s w of
        Inl e \<Rightarrow> (Inl e, w)
      | Inr _ \<Rightarrow>
          if busy_slot w (writing s) then (Inl (Logic_Error ''shutdown during write''), w)
          else win_call_os (wn_shutdown W (sk_fd w s)) w)"

text \<open>\<open>wn_create\<close> is \<^verbatim>\<open>CreateFileW\<close>: whether to write, to create exclusively and to bypass the cache.\<close>

definition win_file_close :: "'o win \<Rightarrow> file_id \<Rightarrow> ('o, 'z) ports_scheme \<Rightarrow> ('o, 'z) ports_scheme" where
  "win_file_close W f w =
     (if fl_fd w f = -1 then w
      else (let w1 = w\<lparr>os := wn_close W (fl_fd w f) (os w)\<rparr> in w1\<lparr>fl_fd := (fl_fd w1)(f := -1)\<rparr>))"

definition win_file_open :: "'k iocp \<Rightarrow> 'o win \<Rightarrow> thread_id \<Rightarrow> loop_id \<Rightarrow> nat list \<Rightarrow> file_mode \<Rightarrow> bool \<Rightarrow> file_id \<Rightarrow> ('o, 'k, 'z) iworld_scheme \<Rightarrow>
    (unit, ('o, 'k, 'z) iworld_scheme) result" where
  "win_file_open I W t l path access direct f w =
     (let w0 = w\<lparr>fl_loop := (fl_loop w)(f := l), fl_fd := (fl_fd w)(f := -1), fl_active := (fl_active w)(f := 0)\<rparr> in
      if \<not> loop_check t l w0 then (Inl wrong_thread, w0)
      else if path = [] \<or> 0 \<in> set path then (Inl (Invalid_Argument ''invalid file path''), w0)
      else case wn_create W path (access \<noteq> Mode_Read) (access = Mode_Create) direct (os w0) of
        (Inl e, k) \<Rightarrow> (Inl (win_exn e), w0\<lparr>os := k\<rparr>)
      | (Inr fd, k) \<Rightarrow>
          (let w1 = w0\<lparr>os := k, fl_fd := (fl_fd w0)(f := fd)\<rparr> in
           if \<not> wn_disk W fd (os w1) then (Inl (Invalid_Argument ''not a regular file''), win_file_close W f w1)
           else (case iocp_attach I l fd w1 of
                   (Inl e, w2) \<Rightarrow> (Inl e, win_file_close W f w2)
                 | (Inr _, w2) \<Rightarrow> (Inr (), w2))))"

definition win_flush :: "'o win \<Rightarrow> ('o, 'z) ports_scheme worker_run \<Rightarrow> thread_id \<Rightarrow> file_id \<Rightarrow> token_id option \<Rightarrow> ('o, 'z) ports_scheme \<Rightarrow>
    (unit, ('o, 'z) ports_scheme) result option" where
  "win_flush W run t f k w =
     (case file_check t f w of
        Inl e \<Rightarrow> Some (Inl e, w)
      | Inr _ \<Rightarrow>
          (let w1 = file_use f w in
           if file_canceled (fl_loop w1 f) k w1 then Some (Inl (System_Error Operation_Canceled), file_unuse f w1)
           else (case run (\<lambda>u. case win_call_os (wn_flush W (fl_fd w1 f)) u of
                               (Inl e, v) \<Rightarrow> Some (Inl e, v) | (Inr _, v) \<Rightarrow> Some (Inr 0, v)) w1 of
                   None \<Rightarrow> None
                 | Some (Inl e, w2) \<Rightarrow> Some (Inl e, file_unuse f w2)
                 | Some (Inr _, w2) \<Rightarrow> Some (Inr (), file_unuse f w2))))"

subsection \<open>Ownership of descriptors\<close>

text \<open>
  \<open>opened\<close> is the set of open sockets of the process.  What a platform's operations do to it; the
  socket object of an adopted descriptor refers to it.
\<close>

definition plat_keeps :: "('o \<Rightarrow> int set) \<Rightarrow> (('o, 'z) ports_scheme \<Rightarrow> (unit, ('o, 'z) ports_scheme) result) \<Rightarrow> bool" where
  "plat_keeps opened f \<longleftrightarrow> (\<forall>w. opened (os (snd (f w))) = opened (os w) \<and> sk_fd (snd (f w)) = sk_fd w)"

definition plat_ok :: "('o, 'z) ports_scheme plat \<Rightarrow> ('o \<Rightarrow> int set) \<Rightarrow> bool" where
  "plat_ok P opened \<longleftrightarrow>
     (\<forall>family kind w r w'. pf_open P family kind w = (r, w') \<longrightarrow>
        (case r of Inl e \<Rightarrow> opened (os w') = opened (os w)
         | Inr fd \<Rightarrow> fd \<notin> opened (os w) \<and> opened (os w') = insert fd (opened (os w)))) \<and>
     (\<forall>t l fd s w r w'. pf_adopt P t l fd s w = (r, w') \<longrightarrow> io_accepted w' = io_accepted w \<and>
        (case r of Inl e \<Rightarrow> opened (os w') = opened (os w) - {fd} | Inr u \<Rightarrow> opened (os w') = opened (os w) \<and> sk_fd w' s = fd \<and> fd \<noteq> -1)) \<and>
     (\<forall>fd w. opened (os (pf_close P fd w)) = opened (os w) - {fd} \<and> sk_fd (pf_close P fd w) = sk_fd w) \<and>
     (\<forall>fd e n. plat_keeps opened (pf_reuse P fd) \<and> plat_keeps opened (pf_bind P fd e) \<and> plat_keeps opened (pf_listen P fd n)) \<and>
     (\<forall>k. -1 \<notin> opened k)"

lemma plat_okD:
  assumes "plat_ok P opened"
  shows "pf_open P family kind w = (Inl e, w') \<Longrightarrow> opened (os w') = opened (os w)"
    "pf_open P family kind w = (Inr fd, w') \<Longrightarrow> fd \<notin> opened (os w) \<and> opened (os w') = insert fd (opened (os w))"
    "pf_adopt P t l fd s w = (r, w') \<Longrightarrow> io_accepted w' = io_accepted w"
    "pf_adopt P t l fd s w = (Inl e, w') \<Longrightarrow> opened (os w') = opened (os w) - {fd}"
    "pf_adopt P t l fd s w = (Inr u, w') \<Longrightarrow> opened (os w') = opened (os w) \<and> sk_fd w' s = fd \<and> fd \<noteq> -1"
    "opened (os (pf_close P fd w)) = opened (os w) - {fd}" "sk_fd (pf_close P fd w) = sk_fd w"
    "pf_reuse P fd w = (x, w') \<Longrightarrow> opened (os w') = opened (os w) \<and> sk_fd w' = sk_fd w"
    "pf_bind P fd y w = (x, w') \<Longrightarrow> opened (os w') = opened (os w) \<and> sk_fd w' = sk_fd w"
    "pf_listen P fd n w = (x, w') \<Longrightarrow> opened (os w') = opened (os w) \<and> sk_fd w' = sk_fd w"
    "-1 \<notin> opened k"
proof -
  note P = assms [unfolded plat_ok_def plat_keeps_def, THEN conjunct1] assms [unfolded plat_ok_def plat_keeps_def, THEN conjunct2, THEN conjunct1]
    assms [unfolded plat_ok_def plat_keeps_def, THEN conjunct2, THEN conjunct2, THEN conjunct1]
    assms [unfolded plat_ok_def plat_keeps_def, THEN conjunct2, THEN conjunct2, THEN conjunct2, THEN conjunct1]
    assms [unfolded plat_ok_def plat_keeps_def, THEN conjunct2, THEN conjunct2, THEN conjunct2, THEN conjunct2]
  show "pf_open P family kind w = (Inl e, w') \<Longrightarrow> opened (os w') = opened (os w)"
    "pf_open P family kind w = (Inr fd, w') \<Longrightarrow> fd \<notin> opened (os w) \<and> opened (os w') = insert fd (opened (os w))"
    by (drule P(1) [rule_format]; simp)+
  show "pf_adopt P t l fd s w = (r, w') \<Longrightarrow> io_accepted w' = io_accepted w"
    "pf_adopt P t l fd s w = (Inl e, w') \<Longrightarrow> opened (os w') = opened (os w) - {fd}"
    "pf_adopt P t l fd s w = (Inr u, w') \<Longrightarrow> opened (os w') = opened (os w) \<and> sk_fd w' s = fd \<and> fd \<noteq> -1"
    by (drule P(2) [rule_format]; simp)+
  show "opened (os (pf_close P fd w)) = opened (os w) - {fd}" "sk_fd (pf_close P fd w) = sk_fd w" "-1 \<notin> opened k"
    using P(3,5) by simp_all
  have k: "opened (os (snd (pf_reuse P fd w))) = opened (os w) \<and> sk_fd (snd (pf_reuse P fd w)) = sk_fd w"
    "opened (os (snd (pf_bind P fd y w))) = opened (os w) \<and> sk_fd (snd (pf_bind P fd y w)) = sk_fd w"
    "opened (os (snd (pf_listen P fd n w))) = opened (os w) \<and> sk_fd (snd (pf_listen P fd n w)) = sk_fd w"
    using P(4) by simp_all
  then show "pf_reuse P fd w = (x, w') \<Longrightarrow> opened (os w') = opened (os w) \<and> sk_fd w' = sk_fd w"
    "pf_bind P fd y w = (x, w') \<Longrightarrow> opened (os w') = opened (os w) \<and> sk_fd w' = sk_fd w"
    "pf_listen P fd n w = (x, w') \<Longrightarrow> opened (os w') = opened (os w) \<and> sk_fd w' = sk_fd w"
    by simp_all
qed

text \<open>The promise: nothing is lost on failure, and on success the new descriptor belongs to socket \<open>s\<close>.\<close>

definition owned :: "('o \<Rightarrow> int set) \<Rightarrow> sock_id \<Rightarrow> ('o, 'z) ports_scheme \<Rightarrow> (unit, ('o, 'z) ports_scheme) result \<Rightarrow> bool" where
  "owned opened s w x \<longleftrightarrow> (case x of
       (Inl e, w') \<Rightarrow> opened (os w') = opened (os w)
     | (Inr u, w') \<Rightarrow> sk_fd w' s \<notin> opened (os w) \<and> opened (os w') = insert (sk_fd w' s) (opened (os w)))"

lemma plat_listen_owned:
  assumes "plat_ok P opened"
  shows "owned opened s w (plat_listen P t l address backlog s w)"
  unfolding plat_listen_def owned_def
  by (auto split: prod.splits sum.splits dest!: plat_okD(1-5, 8-10) [OF assms] simp: plat_okD(6,7) [OF assms])

lemma plat_udp_owned:
  assumes "plat_ok P opened"
  shows "owned opened s w (plat_udp P t l address s w)"
  unfolding plat_udp_def owned_def
  by (auto split: prod.splits sum.splits dest!: plat_okD(1-5, 8-10) [OF assms] simp: plat_okD(6,7) [OF assms])

text \<open>
  A request that is awaited on its own opens at most the socket it accepted, and only an accept
  request does.
\<close>

definition honest_accept :: "('o \<Rightarrow> int set) \<Rightarrow> (addr \<Rightarrow> ('o, 'z) ports_scheme \<Rightarrow> (nat, ('o, 'z) ports_scheme) result) \<Rightarrow> bool" where
  "honest_accept opened await \<longleftrightarrow> (\<forall>a w r w'. io_accepted w a = -1 \<longrightarrow> await a w = (r, w') \<longrightarrow>
     sk_fd w' = sk_fd w \<and> sk_loop w' = sk_loop w \<and> (io_code w a \<noteq> Op_Accept \<longrightarrow> io_accepted w' a = -1) \<and>
     (if io_accepted w' a = -1 then opened (os w') = opened (os w)
      else io_accepted w' a \<notin> opened (os w) \<and> opened (os w') = insert (io_accepted w' a) (opened (os w))))"

lemma io_release_sk [simp]: "sk_fd (io_release a (w :: ('o, 'z) ports_scheme)) = sk_fd w"
  by (simp add: io_release_def split: option.split)

lemma plat_cleanup_opened:
  assumes "plat_ok P opened"
  shows "opened (os (plat_cleanup P a w)) = opened (os w) - {io_accepted w a}" "sk_fd (plat_cleanup P a w) = sk_fd w"
  by (simp_all add: plat_cleanup_def plat_okD(6,7) [OF assms])

lemma plat_connect_owned:
  assumes P: "plat_ok P opened" and "honest_accept opened await"
  shows "owned opened s w (plat_connect P await t l address k a s w)"
proof (cases "loop_check t l w")
  case True
  obtain r w1 where o: "pf_open P (ep_family address) SOCK_STREAM w = (r, w1)" by fastforce
  show ?thesis
  proof (cases r)
    case (Inl e)
    then show ?thesis using True o plat_okD(1) [OF P] by (simp add: plat_connect_def owned_def)
  next
    case (Inr fd)
    note fd = plat_okD(2) [OF P o [unfolded Inr]]
    obtain q w2 where a: "pf_adopt P t l fd s w1 = (q, w2)" by fastforce
    show ?thesis
    proof (cases q)
      case q: (Inl e)
      show ?thesis using True o Inr a q plat_okD(4) [OF P a [unfolded q]] fd by (simp add: plat_connect_def owned_def)
    next
      case q: (Inr u)
      note ad = plat_okD(5) [OF P a [unfolded q]]
      define w3 where "w3 = io_init l Op_Connect fd 0 0 k None a w2"
      define w4 where "w4 = w3\<lparr>io_peer := (io_peer w3)(a := Some address), io_addr_size := (io_addr_size w3)(a := ep_size address)\<rparr>"
      obtain x w5 where x: "await a w4 = (x, w5)" by fastforce
      have w4: "io_accepted w4 a = -1" "io_code w4 a = Op_Connect" "sk_fd w4 = sk_fd w2" "os w4 = os w2"
        by (simp_all add: w4_def w3_def io_init_def)
      have aw: "sk_fd w5 = sk_fd w2" "io_accepted w5 a = -1" "opened (os w5) = opened (os w2)"
        using assms(2) [unfolded honest_accept_def, rule_format, OF w4(1) x] w4 by simp_all
      have "plat_connect P await t l address k a s w =
          (case x of Inl e \<Rightarrow> (Inl e, pf_close P fd (plat_cleanup P a w5)) | Inr _ \<Rightarrow> (Inr (), plat_cleanup P a w5))"
        using True o Inr a q x by (simp add: plat_connect_def Let_def w3_def w4_def split: sum.split)
      then show ?thesis using aw fd ad plat_okD(6,7,11) [OF P] plat_cleanup_opened [OF P]
        by (auto simp: owned_def split: sum.split)
    qed
  qed
qed (simp add: plat_connect_def owned_def)

lemma plat_accept_owned:
  assumes P: "plat_ok P opened" and "honest_accept opened await"
  shows "owned opened peer w (plat_accept P await t s k a peer w)"
proof (cases "socket_check t s w")
  case (Inl e)
  then show ?thesis by (simp add: plat_accept_def owned_def)
next
  case (Inr u)
  define w0 where "w0 = io_init (sk_loop w s) Op_Accept (sk_fd w s) 0 0 k (Some (reading s)) a w"
  obtain x w1 where x: "await a w0 = (x, w1)" by fastforce
  have w0: "io_accepted w0 a = -1" "os w0 = os w" by (simp_all add: w0_def io_init_def)
  have aw: "if io_accepted w1 a = -1 then opened (os w1) = opened (os w)
      else io_accepted w1 a \<notin> opened (os w) \<and> opened (os w1) = insert (io_accepted w1 a) (opened (os w))"
    using assms(2) [unfolded honest_accept_def, rule_format, OF w0(1) x] unfolding w0(2) by (elim conjE)
  note m = plat_okD(11) [OF P]
  show ?thesis
  proof (cases x)
    case e: (Inl e)
    then have "plat_accept P await t s k a peer w = (Inl e, plat_cleanup P a w1)" using Inr x by (simp add: plat_accept_def w0_def)
    then show ?thesis using aw m plat_cleanup_opened [OF P] by (auto simp: owned_def split: if_splits)
  next
    case n: (Inr n)
    define v where "v = w1\<lparr>io_accepted := (io_accepted w1)(a := -1)\<rparr>"
    obtain q w2 where q: "pf_adopt P t (sk_loop w1 s) (io_accepted w1 a) peer v = (q, w2)" by fastforce
    have e: "plat_accept P await t s k a peer w = (q, plat_cleanup P a w2)" using Inr x n q by (simp add: plat_accept_def w0_def v_def)
    have i: "io_accepted w2 a = -1" "os v = os w1" using plat_okD(3) [OF P q] by (simp_all add: v_def)
    show ?thesis
    proof (cases q)
      case (Inl y)
      then show ?thesis using e i aw m plat_okD(4) [OF P q [unfolded Inl]] plat_cleanup_opened [OF P]
        by (auto simp: owned_def split: if_splits)
    next
      case (Inr y)
      then show ?thesis using e i aw m plat_okD(5) [OF P q [unfolded Inr]] plat_cleanup_opened [OF P]
        by (auto simp: owned_def split: if_splits)
    qed
  qed
qed

text \<open>What the system calls promise: descriptors are fresh, and only opening and closing change which are open.\<close>

definition keeps :: "('o \<Rightarrow> int set) \<Rightarrow> ('o \<Rightarrow> 'x \<times> 'o) \<Rightarrow> bool" where
  "keeps opened f \<longleftrightarrow> (\<forall>k. opened (snd (f k)) = opened k)"

definition sys_spec :: "'o sys \<Rightarrow> ('o \<Rightarrow> int set) \<Rightarrow> bool" where
  "sys_spec S opened \<longleftrightarrow>
     (\<forall>family kind k fd k'. sys_socket S family kind k = (fd, k') \<longrightarrow>
        (if fd < 0 then opened k' = opened k else fd \<notin> opened k \<and> opened k' = insert fd (opened k))) \<and>
     (\<forall>fd k. opened (sys_close S fd k) = opened k - {fd}) \<and>
     (\<forall>fd lv n v e. keeps opened (sys_cloexec S fd) \<and> keeps opened (sys_setsockopt S fd lv n v) \<and>
        keeps opened (sys_bind S fd e) \<and> keeps opened (sys_listen S fd v)) \<and>
     (\<forall>k. -1 \<notin> opened k)"

definition mac_spec :: "'o mac \<Rightarrow> ('o \<Rightarrow> int set) \<Rightarrow> bool" where
  "mac_spec M opened \<longleftrightarrow> sys_spec (mac_sys M) opened \<and> (\<forall>fd. keeps opened (mac_nonblock M fd))"

definition win_spec :: "'o win \<Rightarrow> ('o \<Rightarrow> int set) \<Rightarrow> bool" where
  "win_spec W opened \<longleftrightarrow>
     (\<forall>family kind k r k'. wn_socket W family kind k = (r, k') \<longrightarrow>
        (case r of Inl e \<Rightarrow> opened k' = opened k | Inr fd \<Rightarrow> fd \<notin> opened k \<and> opened k' = insert fd (opened k))) \<and>
     (\<forall>fd k. opened (wn_closesocket W fd k) = opened k - {fd}) \<and>
     (\<forall>fd e n. keeps opened (wn_exclusive W fd) \<and> keeps opened (wn_bind W fd e) \<and> keeps opened (wn_listen W fd n)) \<and>
     (\<forall>k. -1 \<notin> opened k)"

lemma sys_call_keeps: "keeps opened f \<Longrightarrow> plat_keeps opened (sys_call f)"
  by (auto simp: keeps_def plat_keeps_def sys_call_def Let_def split: prod.split) (metis snd_conv)+

lemma win_call_keeps: "keeps opened f \<Longrightarrow> plat_keeps opened (win_call_os f)"
  by (auto simp: keeps_def plat_keeps_def win_call_os_def split: prod.split) (metis snd_conv)+

lemma sys_call_io: "sys_call f w = (r, w') \<Longrightarrow> io_accepted w' = io_accepted w \<and> sk_fd w' = sk_fd w"
  by (auto simp: sys_call_def Let_def split: prod.splits if_splits)

lemma sys_call_opened: "keeps opened f \<Longrightarrow> sys_call f w = (r, w') \<Longrightarrow> opened (os w') = opened (os w)"
  using sys_call_keeps [of opened f] by (metis plat_keeps_def snd_conv)

lemma close_fd_opened:
  assumes "sys_spec S opened"
  shows "opened (os (close_fd S fd w)) = opened (os w) - {fd}" "sk_fd (close_fd S fd w) = sk_fd w" "io_accepted (close_fd S fd w) = io_accepted w"
  using assms by (auto simp: close_fd_def sys_spec_def)

lemma adopt_check: "socket_check t s (w\<lparr>sk_loop := L, sk_fd := (sk_fd w)(s := fd), busy_slot := b\<rparr>) = Inr u \<Longrightarrow> fd \<noteq> -1"
  by (auto simp: socket_check_def split: if_splits)

lemma open_fresh:
  assumes "sys_spec S opened" "socket_open S family kind w = (r, w')"
  shows "case r of Inl e \<Rightarrow> opened (os w') = opened (os w) | Inr fd \<Rightarrow> fd \<notin> opened (os w) \<and> opened (os w') = insert fd (opened (os w))"
proof -
  obtain fd k where f: "sys_socket S family kind (os w) = (fd, k)" by fastforce
  from assms(1) f have "if fd < 0 then opened k = opened (os w) else fd \<notin> opened (os w) \<and> opened k = insert fd (opened (os w))"
    unfolding sys_spec_def by blast
  then show ?thesis using assms(2) f by (auto simp: socket_open_def Let_def split: if_splits)
qed

text \<open>Adoption closes the descriptor when a step fails; \<open>adopt_call\<close> goes over one such step.\<close>

definition adopted :: "('o \<Rightarrow> int set) \<Rightarrow> int \<Rightarrow> sock_id \<Rightarrow> ('o, 'z) ports_scheme \<Rightarrow> (unit, ('o, 'z) ports_scheme) result \<Rightarrow> bool" where
  "adopted opened fd s w x \<longleftrightarrow> (case x of (r, w') \<Rightarrow> io_accepted w' = io_accepted w \<and>
     (case r of Inl e \<Rightarrow> opened (os w') = opened (os w) - {fd} | Inr u \<Rightarrow> opened (os w') = opened (os w) \<and> sk_fd w' s = fd \<and> fd \<noteq> -1))"

lemma adopt_call:
  assumes "sys_spec S opened" "keeps opened f" "adopted opened fd s w (Inr (), v)"
    "\<And>u. adopted opened fd s w (Inr (), u) \<Longrightarrow> adopted opened fd s w (g u)"
  shows "adopted opened fd s w (case sys_call f v of (Inl e, u) \<Rightarrow> (Inl e, close_fd S fd u) | (Inr _, u) \<Rightarrow> g u)"
proof -
  obtain r u where r: "sys_call f v = (r, u)" by fastforce
  have "adopted opened fd s w (Inr (), u)"
    using assms(3) sys_call_io [OF r] sys_call_opened [OF assms(2) r] by (simp add: adopted_def)
  moreover from this have "adopted opened fd s w (Inl e, close_fd S fd u)" for e
    by (simp add: adopted_def close_fd_opened [OF assms(1)])
  ultimately show ?thesis using r assms(4) by (cases r) simp_all
qed

lemma adopt_checked:
  assumes "sys_spec S opened" "v = w\<lparr>sk_loop := L, sk_fd := (sk_fd w)(s := fd), busy_slot := b\<rparr>"
    "adopted opened fd s w (Inr (), v) \<Longrightarrow> adopted opened fd s w g"
  shows "adopted opened fd s w (case socket_check t s v of Inl e \<Rightarrow> (Inl e, close_fd S fd v) | Inr u \<Rightarrow> g)"
proof (cases "socket_check t s v")
  case (Inl e)
  then show ?thesis using assms(2) by (simp add: adopted_def close_fd_opened [OF assms(1)])
next
  case (Inr u)
  then have "fd \<noteq> -1" using assms(2) adopt_check by blast
  then show ?thesis using Inr assms(2,3) by (simp add: adopted_def)
qed

lemma linux_adopt:
  assumes "sys_spec S opened"
  shows "adopted opened fd s w (socket_adopt S t l fd s w)"
proof -
  have e: "socket_adopt S t l fd s w =
     (let v = w\<lparr>sk_loop := (sk_loop w)(s := l), sk_fd := (sk_fd w)(s := fd), busy_slot := (busy_slot w)(reading s := False, writing s := False)\<rparr> in
      case socket_check t s v of Inl e \<Rightarrow> (Inl e, close_fd S fd v)
      | Inr _ \<Rightarrow> (case sys_call (sys_cloexec S fd) v of (Inl e, u) \<Rightarrow> (Inl e, close_fd S fd u) | (Inr _, u) \<Rightarrow> (Inr (), u)))"
    by (auto simp: socket_adopt_def sys_call_def Let_def split: sum.split prod.split)
  have k: "keeps opened (sys_cloexec S fd)" using assms by (simp add: sys_spec_def)
  show ?thesis unfolding e Let_def by (rule adopt_checked [OF assms refl], rule adopt_call [OF assms k])
qed

lemma mac_adopt_ok:
  assumes "mac_spec M opened"
  shows "adopted opened fd s w (mac_adopt M t l fd s w)"
proof -
  have S: "sys_spec (mac_sys M) opened" using assms by (simp add: mac_spec_def)
  have k: "keeps opened (sys_cloexec (mac_sys M) fd)" "keeps opened (mac_nonblock M fd)" "keeps opened (sys_setsockopt (mac_sys M) fd lv n v)" for lv n v
    using assms by (simp_all add: mac_spec_def sys_spec_def)
  show ?thesis unfolding mac_adopt_def Let_def
    by (rule adopt_checked [OF S refl], rule adopt_call [OF S k(1)], assumption, rule adopt_call [OF S k(2)], assumption, rule adopt_call [OF S k(3)])
qed

lemma win_adopt_ok:
  assumes "win_spec W opened"
  shows "adopted opened fd s w (win_adopt I W t l fd s w)"
  using assms by (auto simp: adopted_def win_adopt_def Let_def win_close_socket_def iocp_attach_def set_port_def win_spec_def
      dest: adopt_check split: sum.split prod.split)

lemma plat_okI:
  assumes "\<And>family kind w r w'. pf_open P family kind w = (r, w') \<Longrightarrow>
      (case r of Inl e \<Rightarrow> opened (os w') = opened (os w) | Inr fd \<Rightarrow> fd \<notin> opened (os w) \<and> opened (os w') = insert fd (opened (os w)))"
    "\<And>t l fd s w. adopted opened fd s w (pf_adopt P t l fd s w)"
    "\<And>fd w. opened (os (pf_close P fd w)) = opened (os w) - {fd}" "\<And>fd w. sk_fd (pf_close P fd w) = sk_fd w"
    "\<And>fd. plat_keeps opened (pf_reuse P fd)" "\<And>fd e. plat_keeps opened (pf_bind P fd e)" "\<And>fd n. plat_keeps opened (pf_listen P fd n)"
    "\<And>k. -1 \<notin> opened k"
  shows "plat_ok P opened"
proof -
  have "pf_adopt P t l fd s w = (r, w') \<Longrightarrow> io_accepted w' = io_accepted w \<and>
      (case r of Inl e \<Rightarrow> opened (os w') = opened (os w) - {fd} | Inr u \<Rightarrow> opened (os w') = opened (os w) \<and> sk_fd w' s = fd \<and> fd \<noteq> -1)"
    for t l fd s w r w' using assms(2) [of fd s w t l] by (simp add: adopted_def)
  then show ?thesis unfolding plat_ok_def using assms(1,3-) by (intro conjI allI impI; simp)
qed

lemma linux_ok:
  assumes "sys_spec S opened"
  shows "plat_ok (linux_plat S) opened"
  by (rule plat_okI)
    (use assms in \<open>auto simp: close_fd_opened [OF assms] linux_adopt [OF assms] sys_spec_def intro: sys_call_keeps open_fresh [OF assms]\<close>)

lemma mac_ok:
  assumes "mac_spec M opened"
  shows "plat_ok (mac_plat M) opened"
proof -
  have S: "sys_spec (mac_sys M) opened" using assms by (simp add: mac_spec_def)
  show ?thesis
    by (rule plat_okI)
      (use S in \<open>auto simp: mac_plat_def close_fd_opened [OF S] mac_adopt_ok [OF assms] sys_spec_def intro: sys_call_keeps open_fresh [OF S]\<close>)
qed

lemma win_open_fresh:
  assumes "win_spec W opened" "win_socket_open W family kind w = (r, w')"
  shows "case r of Inl e \<Rightarrow> opened (os w') = opened (os w) | Inr fd \<Rightarrow> fd \<notin> opened (os w) \<and> opened (os w') = insert fd (opened (os w))"
proof -
  obtain q k where q: "wn_socket W family kind (os w) = (q, k)" by fastforce
  from assms(1) q have "case q of Inl e \<Rightarrow> opened k = opened (os w) | Inr fd \<Rightarrow> fd \<notin> opened (os w) \<and> opened k = insert fd (opened (os w))"
    unfolding win_spec_def by blast
  moreover have "w' = w\<lparr>os := k\<rparr>" "r = (case q of Inl e \<Rightarrow> Inl (win_exn e) | Inr fd \<Rightarrow> Inr fd)"
    using assms(2) q by (simp_all add: win_socket_open_def)
  ultimately show ?thesis by (cases q) simp_all
qed

lemma win_plat_simps [simp]:
  "pf_open (win_plat I W) = win_socket_open W" "pf_adopt (win_plat I W) = win_adopt I W" "pf_close (win_plat I W) = win_close_socket W"
  "pf_reuse (win_plat I W) fd = win_call_os (wn_exclusive W fd)" "pf_bind (win_plat I W) fd e = win_call_os (wn_bind W fd e)"
  "pf_listen (win_plat I W) fd n = win_call_os (wn_listen W fd n)"
  by (simp_all add: win_plat_def)

lemma win_ok:
  assumes "win_spec W opened"
  shows "plat_ok (win_plat I W) opened"
proof -
  have k: "keeps opened (wn_exclusive W fd)" "keeps opened (wn_bind W fd e)" "keeps opened (wn_listen W fd n)" "-1 \<notin> opened x"
    "opened (wn_closesocket W fd x) = opened x - {fd}" for fd e n x
    using assms by (simp_all add: win_spec_def)
  show ?thesis
    by (rule plat_okI)
      (simp_all add: win_adopt_ok [OF assms] win_close_socket_def win_call_keeps k win_open_fresh [OF assms])
qed

lemma mac_owned:
  assumes "mac_spec M opened" "honest_accept opened await"
  shows "owned opened s w (plat_listen (mac_plat M) t l address backlog s w)" "owned opened s w (plat_udp (mac_plat M) t l address s w)"
    "owned opened s w (plat_connect (mac_plat M) await t l address k a s w)" "owned opened s w (plat_accept (mac_plat M) await t j k a s w)"
  by (fact plat_listen_owned [OF mac_ok [OF assms(1)]] plat_udp_owned [OF mac_ok [OF assms(1)]]
      plat_connect_owned [OF mac_ok [OF assms(1)] assms(2)] plat_accept_owned [OF mac_ok [OF assms(1)] assms(2)])+

lemma win_owned:
  assumes "win_spec W opened" "honest_accept opened await"
  shows "owned opened s w (plat_listen (win_plat I W) t l address backlog s w)" "owned opened s w (plat_udp (win_plat I W) t l address s w)"
    "owned opened s w (plat_connect (win_plat I W) await t l address k a s w)" "owned opened s w (plat_accept (win_plat I W) await t j k a s w)"
  by (fact plat_listen_owned [OF win_ok [OF assms(1)]] plat_udp_owned [OF win_ok [OF assms(1)]]
      plat_connect_owned [OF win_ok [OF assms(1)] assms(2)] plat_accept_owned [OF win_ok [OF assms(1)] assms(2)])+

subsection \<open>Files on macOS\<close>

text \<open>
  What \<^verbatim>\<open>pool::run\<close> promises (\<open>pool_run_value\<close> of theory \<open>Pool\<close>): a function that ends is run at most once,
  and its outcome is reported, unless the call is refused or canceled; cancellation may hide
  the outcome of a function that has run.
\<close>

definition run_once :: "('o \<Rightarrow> 'x) \<Rightarrow> ('o, 'z) ports_scheme worker_run \<Rightarrow> bool" where
  "run_once view run \<longleftrightarrow> (\<forall>fn w. (\<forall>u. fn u \<noteq> None) \<longrightarrow>
     (\<exists>r w'. run fn w = Some (r, w') \<and>
       ((\<exists>e. r = Inl e) \<and> view (os w') = view (os w) \<or>
        (\<exists>u r' u'. fn u = Some (r', u') \<and> view (os u) = view (os w) \<and> view (os w') = view (os u') \<and>
           (r = r' \<or> r = Inl (System_Error Operation_Canceled))))))"

text \<open>\<^verbatim>\<open>pwrite\<close> stores what it reports, and signals interrupt it only finitely often.\<close>

definition pwrite_ok :: "('o \<Rightarrow> nat \<Rightarrow> nat option) \<Rightarrow> ('o \<Rightarrow> nat) \<Rightarrow> 'o mac \<Rightarrow> bool" where
  "pwrite_ok data sig M \<longleftrightarrow> (\<forall>fd p n off. calms sig (plain (mac_pwrite M fd p n off)) \<and>
     (\<forall>k r k'. mac_pwrite M fd p n off k = (r, k') \<longrightarrow>
        (if r < 0 then data k' = data k else nat r \<le> n \<and> data k' = overlay (unat off) p (nat r) (data k))))"

lemma mac_job_writes:
  assumes "pwrite_ok data sig M"
  shows "\<exists>r u'. mac_job (mac_pwrite M fd p n off) u = Some (r, u') \<and>
    (\<exists>m \<le> n. data (os u') = overlay (unat off) p m (data (os u)) \<and> (\<forall>j. r = Inr j \<longrightarrow> j = m))"
proof -
  let ?f = "plain (mac_pwrite M fd p n off)"
  have one: "if r < 0 then data k' = data k else nat r \<le> n \<and> data k' = overlay (unat off) p (nat r) (data k)"
    if "?f k = (r, x, k')" for k r x k'
    using assms that unfolding pwrite_ok_def plain_def by (auto split: prod.splits)
  have c: "calms sig ?f" using assms by (simp add: pwrite_ok_def)
  have "\<exists>r x k'. retry ?f k = Some (r, x, k') \<and>
      (if r < 0 then data k' = data k else nat r \<le> n \<and> data k' = overlay (unat off) p (nat r) (data k))" for k
  proof (induction "sig k" arbitrary: k rule: less_induct)
    case less
    obtain r x k1 where f: "?f k = (r, x, k1)" by (cases "?f k")
    show ?case
    proof (cases "r = - BSD_EINTR")
      case True
      then have "sig k1 < sig k" using c f unfolding calms_def by (metis fst_conv snd_conv)
      note ih = less [OF this]
      have d: "data k1 = data k" using one [OF f] True by (simp add: BSD_EINTR_def)
      have "retry ?f k = retry ?f k1" using f True by (subst retry.simps) simp
      then show ?thesis using ih unfolding d by simp
    next
      case False
      then show ?thesis using one [OF f] f by (subst retry.simps) simp
    qed
  qed
  from this [of "os u"] obtain r x k' where r: "retry ?f (os u) = Some (r, x, k')"
    "if r < 0 then data k' = data (os u) else nat r \<le> n \<and> data k' = overlay (unat off) p (nat r) (data (os u))" by blast
  show ?thesis
  proof (cases "r < 0")
    case True
    then show ?thesis using r by (auto simp: mac_job_def intro: exI [of _ 0])
  next
    case False
    then show ?thesis using r by (auto simp: mac_job_def intro: exI [of _ "nat r"])
  qed
qed

text \<open>So a write through the workers places what it reports, and \<^verbatim>\<open>write_all\<close> works as on Linux.\<close>

lemma mac_write_placing:
  fixes run :: "('o, 'z) ports_scheme worker_run"
  assumes "pwrite_ok data sig M" "run_once data run"
  shows "placing (\<lambda>w. data (os w)) (\<lambda>p n off w. the (mac_transfer M run t f p n off True k w))"
    "mac_transfer M run t f p n off True k w \<noteq> None"
proof -
  have *: "\<exists>r w'. mac_transfer M run t f p n off True k w = Some (r, w') \<and>
     (\<exists>m \<le> n. (m \<noteq> 0 \<longrightarrow> unat off + m \<le> 2 ^ 63 - 1) \<and> data (os w') = overlay (unat off) p m (data (os w)) \<and> (\<forall>j. r = Inr j \<longrightarrow> j = m))"
    (is "\<exists>r w'. _ = Some (r, w') \<and> ?Q r w'") for p n off w
  proof (cases "file_check t f w")
    case (Inl e)
    then show ?thesis by (auto simp: mac_transfer_def intro: exI [of _ 0])
  next
    case (Inr x)
    let ?w1 = "file_use f w" and ?fn = "mac_job (mac_pwrite M (fl_fd (file_use f w) f) p (clip n) off) :: ('o, 'z) ports_scheme \<Rightarrow> _"
    show ?thesis
    proof (cases "file_canceled (fl_loop ?w1 f) k ?w1 \<or> \<not> file_range (clip n) off \<or> clip n = 0")
      case True
      then show ?thesis using Inr by (auto simp: mac_transfer_def Let_def intro: exI [of _ 0])
    next
      case False
      have rg: "unat off + clip n \<le> 2 ^ 63 - 1" using False file_range_iff [OF clip_le(2), of n off] by blast
      note job = mac_job_writes [OF assms(1), of "fl_fd ?w1 f" p "clip n" off]
      have total: "\<forall>u. ?fn u \<noteq> None" using job by (metis option.discI)
      from assms(2) [unfolded run_once_def, THEN spec, THEN spec, of ?fn ?w1, THEN mp, OF total] obtain r w2 where r: "run ?fn ?w1 = Some (r, w2)"
        "(\<exists>e. r = Inl e) \<and> data (os w2) = data (os ?w1) \<or>
         (\<exists>u r' u'. ?fn u = Some (r', u') \<and> data (os u) = data (os ?w1) \<and> data (os w2) = data (os u') \<and>
           (r = r' \<or> r = Inl (System_Error Operation_Canceled)))"
        by (elim exE conjE) (rule that)
      have e: "mac_transfer M run t f p n off True k w = Some (r, file_unuse f w2)"
        using Inr False r(1) by (simp add: mac_transfer_def Let_def)
      from r(2) have "?Q r (file_unuse f w2)"
      proof (rule disjE)
        assume "\<exists>u r' u'. ?fn u = Some (r', u') \<and> data (os u) = data (os ?w1) \<and> data (os w2) = data (os u') \<and>
           (r = r' \<or> r = Inl (System_Error Operation_Canceled))"
        then obtain u r' u' where u: "?fn u = Some (r', u')" "data (os u) = data (os ?w1)" "data (os w2) = data (os u')"
          "r = r' \<or> r = Inl (System_Error Operation_Canceled)" by (elim exE conjE) (rule that)
        from job [of u] u(1) obtain m where m: "m \<le> clip n" "data (os u') = overlay (unat off) p m (data (os u))" "\<forall>j. r' = Inr j \<longrightarrow> j = m" by auto
        have "data (os (file_unuse f w2)) = overlay (unat off) p m (data (os w))" "m \<le> n" "unat off + m \<le> 2 ^ 63 - 1"
          using m u(2,3) clip_le(1) [of n] rg by simp_all
        moreover have "\<forall>j. r = Inr j \<longrightarrow> j = m" using m(3) u(4) by auto
        ultimately show "?Q r (file_unuse f w2)" by blast
      qed (auto intro: exI [of _ 0])
      then show ?thesis using e by blast
    qed
  qed
  show "mac_transfer M run t f p n off True k w \<noteq> None" using * by (metis option.discI)
  show "placing (\<lambda>w. data (os w)) (\<lambda>p n off w. the (mac_transfer M run t f p n off True k w))"
    unfolding placing_def
  proof (intro allI)
    fix p n off and w :: "('o, 'z) ports_scheme"
    from * [of p n off w] obtain r w' where e: "mac_transfer M run t f p n off True k w = Some (r, w')" and
      q: "\<exists>m \<le> n. (m \<noteq> 0 \<longrightarrow> unat off + m \<le> 2 ^ 63 - 1) \<and> data (os w') = overlay (unat off) p m (data (os w)) \<and> (\<forall>j. r = Inr j \<longrightarrow> j = m)"
      by (elim exE conjE) (rule that, assumption, intro exI conjI)
    show "case the (mac_transfer M run t f p n off True k w) of (r, w') \<Rightarrow>
      (\<exists>m \<le> n. (m \<noteq> 0 \<longrightarrow> unat off + m \<le> 2 ^ 63 - 1) \<and> data (os w') = overlay (unat off) p m (data (os w)) \<and> (\<forall>j. r = Inr j \<longrightarrow> j = m))"
      unfolding e option.sel prod.case by (rule q)
  qed
qed

theorem mac_write_all:
  assumes "pwrite_ok data sig M" "run_once data run"
  shows "\<exists>r w' m. file_write_all (\<lambda>p n off w. the (mac_transfer M run t f p n off True k w)) p len off w = Some (r, w') \<and> m \<le> len \<and>
    data (os w') = overlay (unat off) p m (data (os w)) \<and> (r = Inr () \<longrightarrow> m = len) \<and> (m \<noteq> 0 \<longrightarrow> unat off + m \<le> 2 ^ 63 - 1)"
  by (rule file_write_all_covers [OF mac_write_placing(1) [OF assms], where w = w])

subsection \<open>No descriptor is lost\<close>

text \<open>C25: opening sockets neither leaks nor doubly owns a descriptor.  \<^verbatim>\<open>listen\<close>, \<^verbatim>\<open>connect\<close>, \<^verbatim>\<open>accept\<close> and the constructor of
  \<^verbatim>\<open>udp\<close>, on Linux, macOS and Windows: when one throws, whichever step failed, exactly the descriptors
  that were open before are open; when it returns, exactly one more is open, and it is the new socket's.\<close>

theorem sockets_own_descriptors:
  assumes "sys_spec S opened" "mac_spec M opened" "win_spec W opened" "honest_accept opened await" "honest_accept opened wait"
  shows "(owned opened s w (socket_listen S t l address backlog s w) \<and> owned opened s w (udp_bind S t l address s w) \<and>
     owned opened s w (socket_connect S await t l address k a s w) \<and> owned opened s w (socket_accept S await t j k a s w)) \<and>
    (owned opened s w (plat_listen (mac_plat M) t l address backlog s w) \<and> owned opened s w (plat_udp (mac_plat M) t l address s w) \<and>
     owned opened s w (plat_connect (mac_plat M) await t l address k a s w) \<and> owned opened s w (plat_accept (mac_plat M) await t j k a s w)) \<and>
    (owned opened s v (plat_listen (win_plat I W) t l address backlog s v) \<and> owned opened s v (plat_udp (win_plat I W) t l address s v) \<and>
     owned opened s v (plat_connect (win_plat I W) wait t l address k a s v) \<and> owned opened s v (plat_accept (win_plat I W) wait t j k a s v))"
  unfolding linux_same
  by (intro conjI plat_listen_owned plat_udp_owned plat_connect_owned plat_accept_owned linux_ok mac_ok win_ok assms)

text \<open>A system that numbers its sockets.\<close>

definition live_fds :: "int \<times> int set \<Rightarrow> int set" where
  "live_fds k = snd k \<inter> {0 ..< fst k}"

definition next_fd :: "int \<times> int set \<Rightarrow> int \<times> (int \<times> int set)" where
  "next_fd k = (if fst k < 0 then (-12, k) else (fst k, (fst k + 1, insert (fst k) (snd k))))"

definition fd_sys :: "(int \<times> int set) sys" where
  "fd_sys = calm_sys\<lparr>sys_socket := \<lambda>family kind. next_fd, sys_close := \<lambda>fd k. (fst k, snd k - {fd})\<rparr>"

definition fd_mac :: "(int \<times> int set) mac" where
  "fd_mac = \<lparr>mac_sys = fd_sys, mac_nonblock = \<lambda>fd k. (0, k), mac_pread = \<lambda>fd p n off k. (0, k), mac_pwrite = \<lambda>fd p n off k. (0, k), mac_fsync = \<lambda>fd k. (0, k)\<rparr>"

definition fd_win :: "(int \<times> int set) win" where
  "fd_win = \<lparr>wn_socket = \<lambda>family kind k. (if fst k < 0 then (Inl 10024, k) else (Inr (fst k), snd (next_fd k))),
     wn_closesocket = \<lambda>fd k. (fst k, snd k - {fd}), wn_exclusive = \<lambda>fd k. (0, k), wn_bind = \<lambda>fd e k. (0, k), wn_listen = \<lambda>fd n k. (0, k),
     wn_shutdown = \<lambda>fd k. (0, k), wn_create = \<lambda>p wr c d k. (Inl 5, k), wn_disk = \<lambda>fd k. True, wn_close = \<lambda>fd k. k, wn_flush = \<lambda>fd k. (0, k)\<rparr>"

definition fd_await :: "addr \<Rightarrow> (int \<times> int set, 'z) ports_scheme \<Rightarrow> (nat, (int \<times> int set, 'z) ports_scheme) result" where
  "fd_await a w =
     (if io_code w a = Op_Accept \<and> 0 \<le> fst (os w)
      then (Inr 0, w\<lparr>io_accepted := (io_accepted w)(a := fst (os w)), os := snd (next_fd (os w))\<rparr>) else (Inr 0, w))"

lemma fd_specs:
  "sys_spec fd_sys live_fds" "mac_spec fd_mac live_fds" "win_spec fd_win live_fds" "honest_accept live_fds fd_await"
  by (auto simp: sys_spec_def mac_spec_def win_spec_def honest_accept_def fd_sys_def fd_mac_def fd_win_def fd_await_def keeps_def
      calm_sys_def next_fd_def live_fds_def split: if_splits)

definition fd_address :: endpoint where
  "fd_address = \<lparr>ep_family = AF_INET, ep_host = 0, ep_port_be = htons 80, ep_size = size_in\<rparr>"

text \<open>On this system \<^verbatim>\<open>listen\<close> succeeds and socket 5 owns the new descriptor.\<close>

theorem sockets_own_descriptors_witness:
  "owned live_fds 5 (ports_zero (3, {1})) (socket_listen fd_sys 0 0 fd_address 16 5 (ports_zero (3, {1}))) \<and>
   owned live_fds 5 (ports_zero (3, {1})) (plat_accept (mac_plat fd_mac) fd_await 0 0 None 9 5 (ports_zero (3, {1}))) \<and>
   fst (socket_listen fd_sys 0 0 fd_address 16 5 (ports_zero (3, {1}))) = Inr ()"
proof -
  have "fst (socket_listen fd_sys 0 0 fd_address 16 5 (ports_zero (3, {1}))) = Inr ()"
    by (simp add: socket_listen_def socket_open_def socket_adopt_def socket_check_def sys_call_def loop_check_def Let_def fd_sys_def calm_sys_def
        next_fd_def ports_zero_def world_init_def loop_init_def events.defs world.defs)
  then show ?thesis
    using sockets_own_descriptors [OF fd_specs fd_specs(4), where w = "ports_zero (3, {1})" and s = 5 and t = 0 and l = 0 and address = fd_address
        and backlog = 16 and j = 0 and k = None and a = 9] by blast
qed

end
