(* ===== verification/Spec2Isabelle.thy ===== *)
theory Spec2Isabelle
  imports Loop_Timers Channel_Ops Futex Event Uring_Net_Props Task Frame When Spawn Pool Platforms
begin

text \<open>
  A verification development for snowy, a C++20 coroutine runtime: event loops with timers, lazy tasks and
  structured concurrency, channels inside a loop and mailboxes between loops, and native input and
  output on io_uring, kqueue and completion ports.

  \<^bold>\<open>The program and how its parts interact.\<close>  A \<^verbatim>\<open>loop\<close> (\<^verbatim>\<open>src/include/snowy/loop.hpp\<close>, \<^verbatim>\<open>src/src/loop.cpp\<close>) is owned
  by one thread.  Coroutines suspend on it in three ways: on a timer, on a wait (an event, a channel,
  a mailbox, a futex) or on a native request.  Each turn of \<^verbatim>\<open>loop::run\<close> runs posted functions,
  delivers messages of other threads, cancels and expires what is due, resumes ready coroutines up to
  a budget, and polls a backend, blocking no longer than until the next deadline.  The backend finishes
  requests, which makes their coroutines ready.  Tasks (\<^verbatim>\<open>task.hpp\<close>) pass control between coroutines
  without the loop; \<^verbatim>\<open>when.hpp\<close>, \<^verbatim>\<open>spawn.hpp\<close> and \<^verbatim>\<open>sync_wait.hpp\<close> start tasks and wait for them through
  events and futexes; \<^verbatim>\<open>pool.hpp\<close> moves blocking work to threads and posts the result back.  Channels
  (\<^verbatim>\<open>channel.hpp\<close>) retire waits of their own loop directly.  Mailboxes and futexes use the wait queue
  of \<^verbatim>\<open>detail/wait_queue.hpp\<close>: a match sends a message, and the loop of the waiter retires the wait.

  \<^bold>\<open>Modelling conventions\<close> (theory \<open>Snowy_Prelude\<close>).  Objects live at addresses, natural numbers, and a field of a
  class is a function from addresses; a pointer that may be null is an option.  The state is a
  record that each component extends: \<open>world\<close> (loops, operations, stop tokens), then \<open>chan\<close>, or
  \<open>waiting\<close> with \<open>mbox\<close>, \<open>fut\<close> and \<open>spawned\<close>, or \<open>events\<close> with \<open>joins\<close>, \<open>pool_runs\<close> and \<open>ports\<close>, the last extended by
  \<open>uworld\<close>, \<open>kworld\<close> and \<open>iworld\<close> for the three backends.  A call that may throw gives
  \<open>('a, 'w) result\<close>, an exception or a value with the state that is left, since a throw undoes nothing.
  A loop that follows pointers or retries is a \<open>partial_function (option)\<close>: not ending is \<open>None\<close>, and so
  are \<^verbatim>\<open>std::terminate\<close> and undefined behaviour.  The lemmas show that a result exists, so no fuel is
  used anywhere.  Machine integers keep their width where they can wrap: time points are integers
  wrapped at 64 bits, file offsets are 64-bit words, ports 16-bit words.  User code, the kernel,
  liburing and the calls of the operating systems are parameters; what a theorem needs of them is a
  named hypothesis.

  \<^bold>\<open>Data structures.\<close>
  \<^item> \<open>Ready_Queue\<close>: \<^verbatim>\<open>detail/intrusive_queue.hpp\<close> (\<open>rq_push\<close>, \<open>rq_pop\<close>) refines lists; contract \<open>fifo\<close>.
  \<^item> \<open>Intrusive_List\<close>: the doubly linked lists of loops, events, channels and wait queues; contract
    \<open>node_list\<close>, interpreted for lists with one end and with two.
  \<^item> \<open>Ring_Buffer\<close>: the circular storage of channels and mailboxes; contract \<open>bounded_buffer\<close>.
  \<^item> \<open>Timer_Heap\<close>: the heap algorithms on the timers; contract \<open>std_heap\<close>.

  \<^bold>\<open>The loop\<close> (\<^verbatim>\<open>loop.cpp\<close>, \<^verbatim>\<open>detail/io.hpp\<close>).
  \<^item> \<open>Loop\<close>: state and operations (\<open>loop_post\<close>, \<open>loop_stop\<close>, \<open>message_send\<close>, \<open>wait_park\<close>, \<open>wait_notify\<close>, timers, requests).
  \<^item> \<open>Loop_Inv\<close>: the invariant \<open>loop_rep\<close> (lists well formed and disjoint, an operation active exactly while it is
    pending); every operation keeps it.
  \<^item> \<open>Loop_Run\<close>: \<^verbatim>\<open>expire\<close> and \<^verbatim>\<open>run\<close> phase by phase (\<open>loop_expire\<close>, \<open>loop_tick\<close>, \<open>loop_run\<close>).
  \<^item> \<open>Loop_Sched\<close>: \<^verbatim>\<open>expire\<close> always returns, keeps the invariant and cancels exactly what it should.  The locale
    \<open>backend\<close> states what it needs of a backend's cancellation; it is interpreted for completion ports, and
    \<open>uring_cancel_ok\<close> and \<open>kq_cancel_ok\<close> give it for the other two.
  \<^item> \<open>Loop_Progress\<close>, \<open>Loop_Timers\<close>: FIFO turns within the budget, \<^verbatim>\<open>run\<close> returns only at idle, every
    sleeper is woken in order of the deadlines, and the blocking time is exact.  \<open>poll_delay_wraps\<close>
    shows where its subtraction overflows.

  \<^bold>\<open>Tasks and concurrency.\<close>
  \<^item> \<open>Task\<close>: \<^verbatim>\<open>task.hpp\<close> as a machine of frames; it computes what nested calls compute and never
    touches a freed frame.  \<open>Frame\<close>: \<^verbatim>\<open>detail/frame.hpp\<close>, the frame with its allocator.
  \<^item> \<open>When\<close>: \<^verbatim>\<open>when.hpp\<close>; results of \<^verbatim>\<open>when_all\<close>, winner of \<^verbatim>\<open>when_any\<close>, \<^verbatim>\<open>timeout\<close>, in every order of
    completion, with the pack versions equal to the loops over them.
  \<^item> \<open>Spawn\<close>: \<^verbatim>\<open>spawn.hpp\<close>, \<^verbatim>\<open>sync_wait.hpp\<close> and \<^verbatim>\<open>loop::spawn\<close>, \<^verbatim>\<open>start\<close>, \<^verbatim>\<open>hop\<close>.  \<open>Pool\<close>: \<^verbatim>\<open>pool.hpp\<close>, \<^verbatim>\<open>pool.cpp\<close> as an interleaving
    of workers and producers.
  \<^item> \<open>Event\<close>: \<^verbatim>\<open>event.hpp\<close>.

  \<^bold>\<open>Queues of values.\<close>  \<open>Handoff\<close> is the specification, a bounded FIFO with blocked senders and receivers; order and
  conservation are proved once in its locale \<open>handoff\<close>.  \<open>Channel\<close>, \<open>Channel_Refine\<close> and \<open>Channel_Ops\<close>
  (\<^verbatim>\<open>channel.hpp\<close>) and, over \<open>Wait_Queue\<close> and \<open>Handoff_Ring\<close>, \<open>Mailbox\<close> and \<open>Mailbox_Ops\<close> (\<^verbatim>\<open>mailbox.hpp\<close>) implement it: each
  operation is simulated by the abstract one.  \<open>Futex\<close> (\<^verbatim>\<open>futex.hpp\<close>) shows that no wake-up is lost in any
  interleaving.

  \<^bold>\<open>Input and output.\<close>
  \<^item> \<open>Ports\<close>, \<open>Ports_Props\<close>: endpoints, sockets, datagrams and files (\<^verbatim>\<open>socket.cpp\<close>, \<^verbatim>\<open>udp.cpp\<close>, \<^verbatim>\<open>file.cpp\<close>) on Linux, and the
    two \<^verbatim>\<open>write_all\<close> loops.  \<open>Platforms\<close>: the macOS and Windows branches; no descriptor is lost.
  \<^item> \<open>Uring\<close>, \<open>Uring_Poll\<close>: \<^verbatim>\<open>uring.cpp\<close>; requests are retired exactly once.  \<open>drain_leak\<close> shows how a failing submission leaves
    the drain count raised.
  \<^item> \<open>Uring_Ops\<close>, \<open>Uring_Extra\<close>, \<open>Uring_Ops_Props\<close>: \<^verbatim>\<open>uring_ops.cpp\<close>, \<^verbatim>\<open>uring_extra.cpp\<close>; ranges, pinned tables and batches.
  \<^item> \<open>Uring_Net\<close>, \<open>Uring_Stream\<close>, \<open>Uring_Net_Props\<close>: \<^verbatim>\<open>uring_net.cpp\<close>, \<^verbatim>\<open>uring.hpp\<close>, \<^verbatim>\<open>uring_multi.hpp\<close>; provided buffers, zero-copy sends
    and multishot streams.
  \<^item> \<open>Kqueue\<close>: \<^verbatim>\<open>kqueue.cpp\<close>; the armed filters are the pending requests.  \<open>Iocp\<close>: \<^verbatim>\<open>iocp.cpp\<close>; the packets the system holds are the
    pending requests.

  \<^bold>\<open>Hypotheses on parameters.\<close>  Loops that repeat interrupted system calls end because a measure of pending signals
  falls with every interruption (\<open>calms\<close>).  The kernels keep the books their documentation describes (\<open>kq_spec\<close>,
  \<open>iocp_spec\<close>, \<open>sys_spec\<close>, \<open>honest_send\<close> and the like).  Each such hypothesis is met by a concrete system in the
  witness of its theorem.

  \<^bold>\<open>Not modelled.\<close>  \<^verbatim>\<open>src/bench\<close> and \<^verbatim>\<open>src/examples\<close> are programs that use the library.  \<^verbatim>\<open>pmr.hpp\<close> and \<^verbatim>\<open>snowy.hpp\<close> declare aliases and
  include headers.  Concepts and compile-time adapters have no behaviour at run time.  The bytes that
  a kernel writes into buffers stay in the kernel parameter, as does the count of the \<^verbatim>\<open>eventfd\<close>.  Memory
  orders are not modelled: an operation that runs under a mutex is one step, and interleavings are
  those of such steps.  In \<^verbatim>\<open>uring::memory\<close> the allocation itself belongs to the C++ runtime.
\<close>

end
